(* ===== verification/Git_Prelude.thy ===== *)
theory Git_Prelude
  imports Main "HOL-Library.Word" "HOL-Library.Multiset"
begin

unbundle bit_operations_syntax

text \<open>
  What the component theories share: the machine types of the C code, C strings, the lemma
  collections that carry the component proofs, and generic facts on lists that the HOL library
  does not state in the form the components need.

  A C string is the \<open>string\<close> of its bytes before the terminating NUL. A pointer that walks
  over a string is the suffix it points at, and \<open>peek\<close> reads the byte under it: the
  NUL when the suffix is empty. A buffer with an explicit length is a \<open>byte list\<close>.
\<close>

type_synonym byte = "8 word"
type_synonym u32 = "32 word"
type_synonym u64 = "64 word"

named_theorems swap_simps "facts about exchanging two slots of an array"
named_theorems byte_simps "facts that move byte operations to bits"

section \<open>C strings\<close>

abbreviation NUL :: char where
  "NUL \<equiv> CHR 0x00"

fun peek :: "string \<Rightarrow> char" where
  "peek [] = NUL"
| "peek (c # cs) = c"

definition c_string :: "string \<Rightarrow> bool" where
  "c_string s \<longleftrightarrow> NUL \<notin> set s"

lemma c_string_simps [simp]:
  "c_string []"
  "c_string (c # cs) \<longleftrightarrow> c \<noteq> NUL \<and> c_string cs"
  "c_string (s @ t) \<longleftrightarrow> c_string s \<and> c_string t"
  by (auto simp: c_string_def)

lemma peek_append: "s \<noteq> [] \<Longrightarrow> peek (s @ t) = peek s"
  by (cases s) auto

lemma peek_NUL: "c_string s \<Longrightarrow> peek s = NUL \<longleftrightarrow> s = []"
  by (cases s) auto

definition char_code :: "char \<Rightarrow> int" where
  "char_code c = of_char c"

lemma char_code_range: "0 \<le> char_code c" "char_code c < 256"
proof -
  have "char_code c = char_code c mod 256"
    by (simp add: char_code_def of_char_mod_256)
  then show "0 \<le> char_code c" "char_code c < 256"
    by (metis pos_mod_sign zero_less_numeral, metis pos_mod_bound zero_less_numeral)
qed

lemma char_code_inject [simp]: "char_code c = char_code d \<longleftrightarrow> c = d"
  by (simp add: char_code_def)

section \<open>Bytes\<close>

lemma bit_128_imp: "bit (128 :: 'a::semiring_bit_operations) k \<Longrightarrow> k = 7"
proof -
  assume "bit (128 :: 'a) k"
  moreover have "(128 :: 'a) = 2 ^ 7" by simp
  ultimately show "k = 7" by (simp only: bit_exp_iff)
qed

lemma unat_byte_less [simp]: "unat (b :: byte) < 256"
proof -
  have "unat b < 2 ^ LENGTH(8)" by (rule unsigned_less)
  then show ?thesis by simp
qed

lemma unat_u32_less [simp]: "unat (w :: u32) < 4294967296"
proof -
  have "unat w < 2 ^ LENGTH(32)" by (rule unsigned_less)
  then show ?thesis by simp
qed

section \<open>Arrays as lists\<close>

text \<open>\<open>swap_at xs i j\<close> is the C idiom \<open>tmp = a[i]; a[i] = a[j]; a[j] = tmp\<close>.\<close>

definition swap_at :: "'a list \<Rightarrow> nat \<Rightarrow> nat \<Rightarrow> 'a list" where
  "swap_at xs i j = xs[i := xs ! j, j := xs ! i]"

lemma length_swap_at [simp, swap_simps]: "length (swap_at xs i j) = length xs"
  by (simp add: swap_at_def)

lemma nth_swap_at [swap_simps]:
  "i < length xs \<Longrightarrow> j < length xs \<Longrightarrow> k < length xs \<Longrightarrow>
     swap_at xs i j ! k = (if k = j then xs ! i else if k = i then xs ! j else xs ! k)"
  by (auto simp: swap_at_def nth_list_update)

lemma mset_swap_at [swap_simps]:
  "i < length xs \<Longrightarrow> j < length xs \<Longrightarrow> mset (swap_at xs i j) = mset xs"
  by (simp add: swap_at_def mset_swap)

lemma set_swap_at [swap_simps]:
  "i < length xs \<Longrightarrow> j < length xs \<Longrightarrow> set (swap_at xs i j) = set xs"
  by (metis mset_swap_at set_mset_mset)

lemma length_tl_dropWhile_less: "xs \<noteq> [] \<Longrightarrow> length (tl (dropWhile P xs)) < length xs"
proof -
  assume "xs \<noteq> []"
  then have "0 < length xs" by simp
  moreover have "length (dropWhile P xs) \<le> length xs" by (rule length_dropWhile_le)
  ultimately show ?thesis unfolding length_tl by linarith
qed

text \<open>Sorting by a key that no two elements share leaves no choice.\<close>

lemma sort_key_unique:
  assumes "mset xs = mset ys" and "inj_on f (set xs)" and "sorted (map f ys)"
  shows "sort_key f xs = ys"
proof -
  have "inj_on f (set (sort_key f xs))" using assms(2) by simp
  moreover have "mset (sort_key f xs) = mset ys" using assms(1) by simp
  ultimately show ?thesis
    using assms(3) by (intro sort_key_inj_key_eq) auto
qed

end
