(* ===== verification/Sha1.thy ===== *)
theory Sha1
  imports Git_Prelude
begin

text \<open>
  The SHA-1 implementation of \<open>block-sha1/sha1.c\<close>, which names every object. The context
  buffers a partial block, so that a message can be hashed piece by piece; a block is
  processed with the five registers renamed from round to round instead of moved, and with the
  message schedule rolling over sixteen words. The reference below is the algorithm of
  FIPS 180 for a whole message: eighty schedule words, registers moved in every round, padding
  before hashing. The development shows that both agree however the message is cut.
\<close>

section \<open>Byte order\<close>

definition get_be32 :: "byte list \<Rightarrow> nat \<Rightarrow> u32" where
  "get_be32 p i =
     push_bit 24 (ucast (p ! i)) OR push_bit 16 (ucast (p ! (i + 1))) OR
     push_bit 8 (ucast (p ! (i + 2))) OR ucast (p ! (i + 3))"

definition put_be32 :: "u32 \<Rightarrow> byte list" where
  "put_be32 v = [ucast (drop_bit 24 v), ucast (drop_bit 16 v), ucast (drop_bit 8 v), ucast v]"

section \<open>The context\<close>

text \<open>\<open>W\<close> is only used as a buffer of 64 bytes.\<close>

record blk_SHA_CTX =
  ctx_size :: u64
  ctx_H :: "u32 list"
  ctx_W :: "byte list"

definition blk_SHA1_Init :: "blk_SHA_CTX \<Rightarrow> blk_SHA_CTX" where
  "blk_SHA1_Init ctx = ctx\<lparr>ctx_size := 0,
     ctx_H := [0x67452301, 0xefcdab89, 0x98badcfe, 0x10325476, 0xc3d2e1f0]\<rparr>"

section \<open>One block\<close>

definition SHA_ROT :: "u32 \<Rightarrow> nat \<Rightarrow> nat \<Rightarrow> u32" where
  "SHA_ROT X l r = push_bit l X OR drop_bit r X"

definition SHA_ROL :: "u32 \<Rightarrow> nat \<Rightarrow> u32" where
  "SHA_ROL X n = SHA_ROT X n (32 - n)"

definition SHA_ROR :: "u32 \<Rightarrow> nat \<Rightarrow> u32" where
  "SHA_ROR X n = SHA_ROT X (32 - n) n"

text \<open>\<open>W(x)\<close> is the slot \<open>x & 15\<close> of the rolling array.\<close>

definition W_slot :: "u32 list \<Rightarrow> nat \<Rightarrow> u32" where
  "W_slot ws x = ws ! (x mod 16)"

definition SHA_SRC :: "byte list \<Rightarrow> nat \<Rightarrow> u32" where
  "SHA_SRC block t = get_be32 block (t * 4)"

definition SHA_MIX :: "u32 list \<Rightarrow> nat \<Rightarrow> u32" where
  "SHA_MIX ws t =
     SHA_ROL (W_slot ws (t + 13) XOR W_slot ws (t + 8) XOR W_slot ws (t + 2) XOR W_slot ws t) 1"

type_synonym regs = "u32 \<times> u32 \<times> u32 \<times> u32 \<times> u32"

text \<open>
  The macro \<open>SHA_ROUND\<close> assigns to the variables passed for \<open>B\<close> and \<open>E\<close>, so it
  returns the registers in the order in which it was given them.
\<close>

fun SHA_ROUND :: "nat \<Rightarrow> u32 \<Rightarrow> u32 \<Rightarrow> u32 \<Rightarrow> regs \<Rightarrow> u32 list \<Rightarrow> regs \<times> u32 list" where
  "SHA_ROUND t TEMP f constant (A, B, C, D, E) ws =
     ((A, SHA_ROR B 2, C, D, E + (TEMP + SHA_ROL A 5 + f + constant)), ws[t mod 16 := TEMP])"

fun T_0_15 :: "byte list \<Rightarrow> nat \<Rightarrow> regs \<Rightarrow> u32 list \<Rightarrow> regs \<times> u32 list" where
  "T_0_15 block t (A, B, C, D, E) ws =
     SHA_ROUND t (SHA_SRC block t) (((C XOR D) AND B) XOR D) 0x5a827999 (A, B, C, D, E) ws"

fun T_16_19 :: "nat \<Rightarrow> regs \<Rightarrow> u32 list \<Rightarrow> regs \<times> u32 list" where
  "T_16_19 t (A, B, C, D, E) ws =
     SHA_ROUND t (SHA_MIX ws t) (((C XOR D) AND B) XOR D) 0x5a827999 (A, B, C, D, E) ws"

fun T_20_39 :: "nat \<Rightarrow> regs \<Rightarrow> u32 list \<Rightarrow> regs \<times> u32 list" where
  "T_20_39 t (A, B, C, D, E) ws =
     SHA_ROUND t (SHA_MIX ws t) (B XOR C XOR D) 0x6ed9eba1 (A, B, C, D, E) ws"

fun T_40_59 :: "nat \<Rightarrow> regs \<Rightarrow> u32 list \<Rightarrow> regs \<times> u32 list" where
  "T_40_59 t (A, B, C, D, E) ws =
     SHA_ROUND t (SHA_MIX ws t) ((B AND C) + (D AND (B XOR C))) 0x8f1bbcdc (A, B, C, D, E) ws"

fun T_60_79 :: "nat \<Rightarrow> regs \<Rightarrow> u32 list \<Rightarrow> regs \<times> u32 list" where
  "T_60_79 t (A, B, C, D, E) ws =
     SHA_ROUND t (SHA_MIX ws t) (B XOR C XOR D) 0xca62c1d6 (A, B, C, D, E) ws"

text \<open>
  The eighty lines of \<open>blk_SHA1_Block\<close> come in sixteen groups of five, after which the
  registers stand under their own names again. Each group is five calls with the arguments
  written out as in the code; the group from 15 to 19 mixes two macros.
\<close>

fun five_rounds ::
  "(nat \<Rightarrow> regs \<Rightarrow> u32 list \<Rightarrow> regs \<times> u32 list) \<Rightarrow> nat \<Rightarrow> regs \<times> u32 list \<Rightarrow> regs \<times> u32 list" where
  "five_rounds T t ((A, B, C, D, E), ws) =
     (let ((A, B, C, D, E), ws) = T t (A, B, C, D, E) ws;
          ((E, A, B, C, D), ws) = T (t + 1) (E, A, B, C, D) ws;
          ((D, E, A, B, C), ws) = T (t + 2) (D, E, A, B, C) ws;
          ((C, D, E, A, B), ws) = T (t + 3) (C, D, E, A, B) ws;
          ((B, C, D, E, A), ws) = T (t + 4) (B, C, D, E, A) ws
      in ((A, B, C, D, E), ws))"

definition T_15_19 :: "byte list \<Rightarrow> nat \<Rightarrow> regs \<Rightarrow> u32 list \<Rightarrow> regs \<times> u32 list" where
  "T_15_19 block t = (if t = 15 then T_0_15 block t else T_16_19 t)"

definition all_rounds :: "byte list \<Rightarrow> regs \<times> u32 list \<Rightarrow> regs \<times> u32 list" where
  "all_rounds block s =
     (let s = five_rounds (T_0_15 block) 0 s;
          s = five_rounds (T_0_15 block) 5 s;
          s = five_rounds (T_0_15 block) 10 s;
          s = five_rounds (T_15_19 block) 15 s;
          s = five_rounds T_20_39 20 s;
          s = five_rounds T_20_39 25 s;
          s = five_rounds T_20_39 30 s;
          s = five_rounds T_20_39 35 s;
          s = five_rounds T_40_59 40 s;
          s = five_rounds T_40_59 45 s;
          s = five_rounds T_40_59 50 s;
          s = five_rounds T_40_59 55 s;
          s = five_rounds T_60_79 60 s;
          s = five_rounds T_60_79 65 s;
          s = five_rounds T_60_79 70 s;
          s = five_rounds T_60_79 75 s
      in s)"

definition blk_SHA1_Block :: "blk_SHA_CTX \<Rightarrow> byte list \<Rightarrow> blk_SHA_CTX" where
  "blk_SHA1_Block ctx block =
     (let H = ctx_H ctx;
          ((A, B, C, D, E), ws) =
            all_rounds block ((H ! 0, H ! 1, H ! 2, H ! 3, H ! 4), replicate 16 0)
      in ctx\<lparr>ctx_H := [H ! 0 + A, H ! 1 + B, H ! 2 + C, H ! 3 + D, H ! 4 + E]\<rparr>)"

section \<open>Whole messages\<close>

fun update_blocks :: "blk_SHA_CTX \<Rightarrow> byte list \<Rightarrow> blk_SHA_CTX" where
  "update_blocks ctx data =
     (if 64 \<le> length data
      then update_blocks (blk_SHA1_Block ctx (take 64 data)) (drop 64 data)
      else ctx\<lparr>ctx_W := data @ drop (length data) (ctx_W ctx)\<rparr>)"

declare update_blocks.simps [simp del]

definition blk_SHA1_Update :: "blk_SHA_CTX \<Rightarrow> byte list \<Rightarrow> blk_SHA_CTX" where
  "blk_SHA1_Update ctx data =
     (let lenW = unat (ctx_size ctx AND 63);
          ctx = ctx\<lparr>ctx_size := ctx_size ctx + of_nat (length data)\<rparr>
      in if lenW \<noteq> 0
         then let left = (if length data < 64 - lenW then length data else 64 - lenW);
                  ctx = ctx\<lparr>ctx_W := take lenW (ctx_W ctx) @ take left data @
                                     drop (lenW + left) (ctx_W ctx)\<rparr>;
                  lenW = (lenW + left) mod 64;
                  data = drop left data
              in if lenW \<noteq> 0 then ctx
                 else update_blocks (blk_SHA1_Block ctx (ctx_W ctx)) data
         else update_blocks ctx data)"

definition sha_pad :: "byte list" where
  "sha_pad = 0x80 # replicate 63 0"

definition blk_SHA1_Final :: "blk_SHA_CTX \<Rightarrow> byte list" where
  "blk_SHA1_Final ctx =
     (let padlen = put_be32 (ucast (drop_bit 29 (ctx_size ctx))) @
                   put_be32 (ucast (push_bit 3 (ctx_size ctx)));
          i = uint (ctx_size ctx AND 63);
          ctx = blk_SHA1_Update ctx (take (nat (1 + (63 AND (55 - i)))) sha_pad);
          ctx = blk_SHA1_Update ctx padlen
      in concat (map put_be32 (ctx_H ctx)))"

section \<open>The reference algorithm\<close>

definition fips_word :: "byte list \<Rightarrow> nat \<Rightarrow> u32" where
  "fips_word block t =
     of_nat (((unat (block ! (4 * t)) * 256 + unat (block ! (4 * t + 1))) * 256 +
               unat (block ! (4 * t + 2))) * 256 + unat (block ! (4 * t + 3)))"

definition be_bytes :: "nat \<Rightarrow> nat \<Rightarrow> byte list" where
  "be_bytes n v = map (\<lambda>i. of_nat (v div 256 ^ (n - 1 - i))) [0..<n]"

fun fips_W :: "byte list \<Rightarrow> nat \<Rightarrow> u32" where
  "fips_W block t =
     (if t < 16 then fips_word block t
      else word_rotl 1 (fips_W block (t - 3) XOR fips_W block (t - 8) XOR
                        fips_W block (t - 14) XOR fips_W block (t - 16)))"

declare fips_W.simps [simp del]

definition fips_f :: "nat \<Rightarrow> u32 \<Rightarrow> u32 \<Rightarrow> u32 \<Rightarrow> u32" where
  "fips_f t x y z =
     (if t < 20 then (x AND y) XOR (NOT x AND z)
      else if t < 40 then x XOR y XOR z
      else if t < 60 then (x AND y) XOR (x AND z) XOR (y AND z)
      else x XOR y XOR z)"

definition fips_K :: "nat \<Rightarrow> u32" where
  "fips_K t = (if t < 20 then 0x5a827999 else if t < 40 then 0x6ed9eba1
               else if t < 60 then 0x8f1bbcdc else 0xca62c1d6)"

fun fips_step :: "byte list \<Rightarrow> nat \<Rightarrow> regs \<Rightarrow> regs" where
  "fips_step block t (a, b, c, d, e) =
     (word_rotl 5 a + fips_f t b c d + e + fips_K t + fips_W block t, a, word_rotl 30 b, c, d)"

primrec fips_rounds :: "byte list \<Rightarrow> nat \<Rightarrow> regs \<Rightarrow> regs" where
  "fips_rounds block 0 r = r"
| "fips_rounds block (Suc t) r = fips_step block t (fips_rounds block t r)"

fun add_regs :: "regs \<Rightarrow> regs \<Rightarrow> regs" where
  "add_regs (a, b, c, d, e) (a', b', c', d', e') = (a + a', b + b', c + c', d + d', e + e')"

definition fips_compress :: "regs \<Rightarrow> byte list \<Rightarrow> regs" where
  "fips_compress h block = add_regs h (fips_rounds block 80 h)"

fun fips_blocks :: "regs \<Rightarrow> byte list \<Rightarrow> regs" where
  "fips_blocks h m = (if 64 \<le> length m then fips_blocks (fips_compress h (take 64 m)) (drop 64 m) else h)"

declare fips_blocks.simps [simp del]

definition fips_pad :: "byte list \<Rightarrow> byte list" where
  "fips_pad m = m @ 0x80 # replicate ((119 - length m mod 64) mod 64) 0 @ be_bytes 8 (8 * length m)"

definition fips_sha1 :: "byte list \<Rightarrow> byte list" where
  "fips_sha1 m =
     (let (a, b, c, d, e) =
            fips_blocks (0x67452301, 0xefcdab89, 0x98badcfe, 0x10325476, 0xc3d2e1f0) (fips_pad m)
      in concat (map (be_bytes 4 \<circ> unat) [a, b, c, d, e]))"

section \<open>Rotations and bytes\<close>

lemma SHA_ROL_word_rotl:
  assumes "0 < n" and "n < 32"
  shows "SHA_ROL X n = word_rotl n X"
proof (rule bit_word_eqI)
  fix m assume "m < LENGTH(32)"
  then have m: "m < 32" by simp
  have r: "bit (word_rotl n X) m = bit X ((m + (32 - n)) mod 32)"
    using m assms by (simp add: bit_word_rotl_iff)
  have l: "bit (SHA_ROL X n) m \<longleftrightarrow> n \<le> m \<and> bit X (m - n) \<or> bit X (m + (32 - n))"
    using m by (simp add: SHA_ROL_def SHA_ROT_def bit_simps add.commute)
  show "bit (SHA_ROL X n) m = bit (word_rotl n X) m"
  proof (cases "n \<le> m")
    case True
    then have "(m + (32 - n)) mod 32 = m - n" "32 \<le> m + (32 - n)"
      using m assms by (auto simp: mod_if)
    moreover from this(2) have "\<not> bit X (m + (32 - n))"
      by (auto dest: bit_imp_le_length)
    ultimately show ?thesis using True l r by simp
  next
    case False
    then have "(m + (32 - n)) mod 32 = m + (32 - n)" using assms by simp
    then show ?thesis using False l r by simp
  qed
qed

lemma SHA_ROR_word_rotl: "0 < n \<Longrightarrow> n < 32 \<Longrightarrow> SHA_ROR X n = word_rotl (32 - n) X"
  using SHA_ROL_word_rotl [of "32 - n" X] by (simp add: SHA_ROR_def SHA_ROL_def)

lemma bit_byteD: "bit (b :: byte) k \<Longrightarrow> k < 8"
  by (auto dest: bit_imp_le_length)

lemma get_be32_word: "get_be32 block (t * 4) = fips_word block t"
proof -
  let ?b = "\<lambda>i. ucast (block ! (4 * t + i)) :: u32"
  have or3: "push_bit 8 (?b 2) OR ?b 3 = push_bit 8 (?b 2) + ?b 3"
    by (rule disjunctive_add_eq_or [symmetric], rule bit_word_eqI) (auto simp: bit_simps dest!: bit_byteD)
  have or2: "push_bit 16 (?b 1) OR (push_bit 8 (?b 2) OR ?b 3) =
      push_bit 16 (?b 1) + (push_bit 8 (?b 2) OR ?b 3)"
    by (rule disjunctive_add_eq_or [symmetric], rule bit_word_eqI) (auto simp: bit_simps dest!: bit_byteD)
  have or1: "push_bit 24 (?b 0) OR (push_bit 16 (?b 1) OR (push_bit 8 (?b 2) OR ?b 3)) =
      push_bit 24 (?b 0) + (push_bit 16 (?b 1) OR (push_bit 8 (?b 2) OR ?b 3))"
    by (rule disjunctive_add_eq_or [symmetric], rule bit_word_eqI) (auto simp: bit_simps dest!: bit_byteD)
  have "get_be32 block (t * 4) =
      push_bit 24 (?b 0) OR (push_bit 16 (?b 1) OR (push_bit 8 (?b 2) OR ?b 3))"
    by (simp add: get_be32_def mult.commute or.assoc)
  also have "\<dots> = push_bit 24 (?b 0) + (push_bit 16 (?b 1) + (push_bit 8 (?b 2) + ?b 3))"
    unfolding or1 unfolding or2 unfolding or3 ..
  also have "\<dots> = fips_word block t"
    by (simp add: fips_word_def push_bit_eq_mult algebra_simps)
  finally show ?thesis .
qed

lemma put_be32_bytes: "put_be32 v = be_bytes 4 (unat v)"
proof -
  have *: "ucast (drop_bit k v) = (of_nat (unat v div 2 ^ k) :: byte)" for k
  proof -
    have "ucast (drop_bit k v) = (of_nat (unat (drop_bit k v)) :: byte)" by simp
    also have "unat (drop_bit k v) = unat v div 2 ^ k" unfolding unat_drop_bit_eq by (simp add: drop_bit_eq_div)
    finally show ?thesis .
  qed
  have "ucast v = (of_nat (unat v) :: byte)" by simp
  then show ?thesis
    by (simp add: put_be32_def be_bytes_def * upt_rec)
qed

section \<open>The rounds\<close>

definition round_step ::
  "(nat \<Rightarrow> regs \<Rightarrow> u32 list \<Rightarrow> regs \<times> u32 list) \<Rightarrow> nat \<Rightarrow> regs \<times> u32 list \<Rightarrow> regs \<times> u32 list" where
  "round_step T t s =
     (case T t (fst s) (snd s) of ((A, B, C, D, E), ws) \<Rightarrow> ((E, A, B, C, D), ws))"

text \<open>Renaming the registers five times is moving them five times.\<close>

lemma five_rounds_steps:
  "five_rounds T t s = round_step T (t + 4) (round_step T (t + 3) (round_step T (t + 2)
     (round_step T (t + 1) (round_step T t s))))"
proof -
  obtain A B C D E ws where "s = ((A, B, C, D, E), ws)" by (metis prod.collapse)
  then show ?thesis by (simp add: round_step_def split_def Let_def)
qed

definition code_T :: "byte list \<Rightarrow> nat \<Rightarrow> nat \<Rightarrow> regs \<Rightarrow> u32 list \<Rightarrow> regs \<times> u32 list" where
  "code_T block t = (if t < 16 then T_0_15 block else if t < 20 then T_16_19
     else if t < 40 then T_20_39 else if t < 60 then T_40_59 else T_60_79)"

primrec code_rounds :: "byte list \<Rightarrow> nat \<Rightarrow> regs \<times> u32 list \<Rightarrow> regs \<times> u32 list" where
  "code_rounds block 0 s = s"
| "code_rounds block (Suc t) s = round_step (code_T block t) t (code_rounds block t s)"

lemma five_rounds_code:
  assumes "\<And>i. i < 5 \<Longrightarrow> T (t + i) = code_T block (t + i) (t + i)"
  shows "five_rounds T t (code_rounds block t s) = code_rounds block (t + 5) s"
proof -
  have T: "round_step T (t + i) = round_step (code_T block (t + i)) (t + i)" if "i < 5" for i
    using assms [OF that] by (simp add: round_step_def fun_eq_iff)
  have *: "round_step T t = round_step (code_T block t) t" using T [of 0] by simp
  have n: "t + 5 = Suc (Suc (Suc (Suc (Suc t))))" by simp
  show ?thesis
    unfolding five_rounds_steps n code_rounds.simps
    using T [of 1] T [of 2] T [of 3] T [of 4]
    by (simp add: * numeral_eq_Suc)
qed

lemma all_rounds_code: "all_rounds block s = code_rounds block 80 s"
proof -
  have "five_rounds (T_0_15 block) 0 s = code_rounds block 5 s"
    using five_rounds_code [of "T_0_15 block" 0 block s] by (simp add: code_T_def)
  then show ?thesis
    unfolding all_rounds_def Let_def
    by (simp add: five_rounds_code code_T_def T_15_19_def)
qed

text \<open>Before round \<open>t\<close> the rolling array holds the last sixteen words of the schedule.\<close>

definition sched :: "byte list \<Rightarrow> nat \<Rightarrow> u32 list \<Rightarrow> bool" where
  "sched block t ws \<longleftrightarrow>
     length ws = 16 \<and> (\<forall>s. s < t \<longrightarrow> t \<le> s + 16 \<longrightarrow> ws ! (s mod 16) = fips_W block s)"

lemma SHA_MIX_W:
  assumes "sched block t ws" and "16 \<le> t"
  shows "SHA_MIX ws t = fips_W block t"
proof -
  have slot: "W_slot ws x = fips_W block s" if "x = s + 16" "s < t" "t \<le> x" for x s
    using assms(1) that by (simp add: sched_def W_slot_def)
  have "W_slot ws t = fips_W block (t - 16)" by (rule slot) (use assms(2) in auto)
  moreover have "W_slot ws (t + 13) = fips_W block (t - 3)" by (rule slot) (use assms(2) in auto)
  moreover have "W_slot ws (t + 8) = fips_W block (t - 8)" by (rule slot) (use assms(2) in auto)
  moreover have "W_slot ws (t + 2) = fips_W block (t - 14)" by (rule slot) (use assms(2) in auto)
  ultimately show ?thesis
    using assms(2) by (simp add: SHA_MIX_def SHA_ROL_word_rotl fips_W.simps [of block t])
qed

lemma sched_store:
  assumes "sched block t ws" and "x = fips_W block t"
  shows "sched block (Suc t) (ws[t mod 16 := x])"
  unfolding sched_def
proof (intro conjI allI impI)
  show "length (ws[t mod 16 := x]) = 16" using assms(1) by (simp add: sched_def)
  fix s assume s: "s < Suc t" "Suc t \<le> s + 16"
  show "ws[t mod 16 := x] ! (s mod 16) = fips_W block s"
  proof (cases "s = t")
    case True
    then show ?thesis using assms by (simp add: sched_def)
  next
    case False
    then have "0 < t - s" "t - s < 16" using s by auto
    then have "\<not> 16 dvd t - s" by (auto dest: dvd_imp_le)
    then have "t mod 16 \<noteq> s mod 16" using s by (simp add: mod_eq_dvd_iff_nat)
    then show ?thesis using assms(1) s False by (simp add: sched_def)
  qed
qed

lemma majority: "(b AND c) + (d AND (b XOR c)) = (b AND c) XOR (b AND d) XOR (c AND d)" for b c d :: u32
proof -
  have "(b AND c) AND (d AND (b XOR c)) = 0"
    by (rule bit_word_eqI) (auto simp: bit_simps)
  then have "(b AND c) + (d AND (b XOR c)) = (b AND c) OR (d AND (b XOR c))"
    by (rule disjunctive_add_eq_or)
  also have "\<dots> = (b AND c) XOR (b AND d) XOR (c AND d)"
    by (rule bit_word_eqI) (auto simp: bit_simps)
  finally show ?thesis .
qed

lemma choose: "((c XOR d) AND b) XOR d = (b AND c) XOR (NOT b AND d)" for b c d :: u32
  by (rule bit_word_eqI) (auto simp: bit_simps)

lemma round_sum: "e + (w + r + f + k) = r + f + e + k + w" for e w r f k :: u32
  by (simp add: ac_simps)

lemma round_step_fips:
  assumes "sched block t ws"
  shows "\<exists>ws'. round_step (code_T block t) t (r, ws) = (fips_step block t r, ws') \<and> sched block (Suc t) ws'"
proof -
  obtain a b c d e where r: "r = (a, b, c, d, e)" by (metis prod.collapse)
  define x where "x = (if t < 16 then SHA_SRC block t else SHA_MIX ws t)"
  have x: "x = fips_W block t"
    using SHA_MIX_W [OF assms]
    by (simp add: x_def SHA_SRC_def get_be32_word fips_W.simps [of block t])
  have "round_step (code_T block t) t (r, ws) = (fips_step block t r, ws[t mod 16 := x])"
    unfolding r x [symmetric] fips_step.simps
    by (auto simp: round_step_def code_T_def x_def fips_f_def fips_K_def choose majority
        SHA_ROL_word_rotl SHA_ROR_word_rotl round_sum)
  with sched_store [OF assms x] show ?thesis by blast
qed

lemma code_rounds_fips:
  assumes "length ws = 16"
  shows "\<exists>ws'. code_rounds block t (r, ws) = (fips_rounds block t r, ws') \<and> sched block t ws'"
proof (induction t)
  case 0
  then show ?case using assms by (simp add: sched_def)
next
  case (Suc t)
  then obtain ws' where "code_rounds block t (r, ws) = (fips_rounds block t r, ws')" "sched block t ws'"
    by blast
  with round_step_fips [of block t ws' "fips_rounds block t r"] show ?case by auto
qed

text \<open>
  The sixteen words of the array need no initial value: each is written before it is read.
\<close>

lemma all_rounds_fips:
  assumes "length ws = 16"
  shows "fst (all_rounds block (r, ws)) = fips_rounds block 80 r"
  using code_rounds_fips [OF assms, of block 80 r] by (auto simp: all_rounds_code)

definition regs_of :: "u32 list \<Rightarrow> regs" where
  "regs_of H = (H ! 0, H ! 1, H ! 2, H ! 3, H ! 4)"

lemma regs_of_block:
  "regs_of (ctx_H (blk_SHA1_Block ctx block)) = fips_compress (regs_of (ctx_H ctx)) block"
proof -
  obtain A B C D E ws where r: "all_rounds block (regs_of (ctx_H ctx), replicate 16 0) = ((A, B, C, D, E), ws)"
    by (metis prod.collapse)
  then have "fips_rounds block 80 (regs_of (ctx_H ctx)) = (A, B, C, D, E)"
    using all_rounds_fips [of "replicate 16 0" block "regs_of (ctx_H ctx)"] by simp
  with r show ?thesis
    by (simp add: blk_SHA1_Block_def Let_def fips_compress_def regs_of_def)
qed

lemma block_other [simp]:
  "ctx_size (blk_SHA1_Block ctx block) = ctx_size ctx"
  "ctx_W (blk_SHA1_Block ctx block) = ctx_W ctx"
  "length (ctx_H (blk_SHA1_Block ctx block)) = 5"
  by (auto simp: blk_SHA1_Block_def Let_def split: prod.split)

section \<open>Cutting the message\<close>

lemma fips_blocks_append:
  "64 dvd length xs \<Longrightarrow> fips_blocks h (xs @ ys) = fips_blocks (fips_blocks h xs) ys"
proof (induction h xs rule: fips_blocks.induct)
  case (1 h m)
  show ?case
  proof (cases "64 \<le> length m")
    case True
    moreover have "64 dvd length (drop 64 m)" using 1(2) by simp
    ultimately show ?thesis
      using 1(1) by (simp add: fips_blocks.simps [of h "m @ ys"] fips_blocks.simps [of h m])
  next
    case False
    then have "m = []" using 1(2) by (cases m) (auto dest: dvd_imp_le)
    then show ?thesis by (simp add: fips_blocks.simps [of h "[]"])
  qed
qed

lemma fips_blocks_short: "length m < 64 \<Longrightarrow> fips_blocks h m = h"
  by (simp add: fips_blocks.simps)

definition sha_iv :: regs where
  "sha_iv = (0x67452301, 0xefcdab89, 0x98badcfe, 0x10325476, 0xc3d2e1f0)"

text \<open>
  What the context keeps of the message \<open>m\<close> given to it so far: its length, the registers
  after its whole blocks \<open>p\<close>, and the rest \<open>q\<close> at the front of the buffer.
\<close>

definition ctx_of :: "byte list \<Rightarrow> blk_SHA_CTX \<Rightarrow> bool" where
  "ctx_of m ctx \<longleftrightarrow> ctx_size ctx = of_nat (length m) \<and> length (ctx_H ctx) = 5 \<and>
     length (ctx_W ctx) = 64 \<and>
     (\<exists>p q. m = p @ q \<and> 64 dvd length p \<and> length q < 64 \<and>
        regs_of (ctx_H ctx) = fips_blocks sha_iv p \<and> take (length q) (ctx_W ctx) = q)"

lemma ctx_of_init: "length (ctx_W ctx) = 64 \<Longrightarrow> ctx_of [] (blk_SHA1_Init ctx)"
  by (auto simp: ctx_of_def blk_SHA1_Init_def regs_of_def sha_iv_def fips_blocks_short)

lemma update_blocks_ctx_of:
  assumes "ctx_size ctx = of_nat (length (p @ data))" and "length (ctx_H ctx) = 5"
    and "length (ctx_W ctx) = 64" and "64 dvd length p"
    and "regs_of (ctx_H ctx) = fips_blocks sha_iv p"
  shows "ctx_of (p @ data) (update_blocks ctx data)"
  using assms
proof (induction ctx data arbitrary: p rule: update_blocks.induct)
  case (1 ctx data)
  show ?case
  proof (cases "64 \<le> length data")
    case True
    have "fips_blocks sha_iv (p @ take 64 data) =
        fips_compress (fips_blocks sha_iv p) (take 64 data)"
      using 1(5) True
      by (simp add: fips_blocks_append fips_blocks.simps [of _ "take 64 data"] fips_blocks_short)
    then have "ctx_of ((p @ take 64 data) @ drop 64 data)
        (update_blocks (blk_SHA1_Block ctx (take 64 data)) (drop 64 data))"
      using True 1(2-6) by (intro 1(1)) (simp_all add: regs_of_block)
    then show ?thesis using True by (simp add: update_blocks.simps [of ctx data])
  next
    case False
    then show ?thesis
      using 1(2-6) unfolding ctx_of_def
      by (intro conjI exI [of _ p] exI [of _ data]) (simp_all add: update_blocks.simps [of ctx data])
  qed
qed

lemma size_and_63: "unat ((of_nat n :: u64) AND 63) = n mod 64"
proof -
  have "(of_nat n :: u64) AND 63 = take_bit 6 (of_nat n)"
    by (simp add: take_bit_eq_mask mask_eq_exp_minus_1)
  then have "unat ((of_nat n :: u64) AND 63) = take_bit 6 (take_bit 64 n)"
    by (simp add: unsigned_take_bit_eq unsigned_of_nat)
  also have "\<dots> = n mod 64" by (simp add: take_bit_eq_mod mod_mod_cancel)
  finally show ?thesis .
qed

lemma update_ctx_of:
  assumes "ctx_of m ctx"
  shows "ctx_of (m @ data) (blk_SHA1_Update ctx data)"
proof -
  obtain p q where pq: "m = p @ q" "64 dvd length p" "length q < 64"
      "regs_of (ctx_H ctx) = fips_blocks sha_iv p" "take (length q) (ctx_W ctx) = q"
    and sz: "ctx_size ctx = of_nat (length m)"
    and len: "length (ctx_H ctx) = 5" "length (ctx_W ctx) = 64"
    using assms unfolding ctx_of_def by blast
  define ctx1 where "ctx1 = ctx\<lparr>ctx_size := ctx_size ctx + of_nat (length data)\<rparr>"
  have lenW: "unat (ctx_size ctx AND 63) = length q"
    using pq(1-3) sz size_and_63 [of "length m"] by (auto simp: mod_add_left_eq elim!: dvdE)
  have up: "blk_SHA1_Update ctx data =
     (if length q \<noteq> 0
      then let left = (if length data < 64 - length q then length data else 64 - length q);
               ctx2 = ctx1\<lparr>ctx_W := take (length q) (ctx_W ctx) @ take left data @
                                drop (length q + left) (ctx_W ctx)\<rparr>
           in if (length q + left) mod 64 \<noteq> 0 then ctx2
              else update_blocks (blk_SHA1_Block ctx2 (ctx_W ctx2)) (drop left data)
      else update_blocks ctx1 data)"
    by (simp add: blk_SHA1_Update_def Let_def lenW ctx1_def)
  consider "q = []" | "q \<noteq> []" "length data < 64 - length q" | "q \<noteq> []" "64 - length q \<le> length data"
    by linarith
  then show ?thesis
  proof cases
    case 1
    then have "blk_SHA1_Update ctx data = update_blocks ctx1 data" by (simp add: up)
    moreover have "ctx_of (p @ data) (update_blocks ctx1 data)"
      by (rule update_blocks_ctx_of) (use 1 pq sz len in \<open>simp_all add: ctx1_def\<close>)
    ultimately show ?thesis using 1 pq(1) by simp
  next
    case 2
    then have "(length q + length data) mod 64 \<noteq> 0" by simp
    then have "blk_SHA1_Update ctx data = ctx1\<lparr>ctx_W := take (length q) (ctx_W ctx) @ data @
        drop (length q + length data) (ctx_W ctx)\<rparr>"
      using 2 by (simp add: up Let_def)
    moreover have "m @ data = p @ (q @ data)" by (simp add: pq(1))
    ultimately show ?thesis
      using 2 pq(2-5) sz len unfolding ctx_of_def ctx1_def
      by (intro conjI exI [of _ p] exI [of _ "q @ data"]) (simp_all add: pq(1))
  next
    case 3
    let ?left = "64 - length q"
    define ctx2 where "ctx2 = ctx1\<lparr>ctx_W := q @ take ?left data\<rparr>"
    have "blk_SHA1_Update ctx data =
        update_blocks (blk_SHA1_Block ctx2 (q @ take ?left data)) (drop ?left data)"
      using 3 pq(3,5) len by (simp add: up Let_def ctx2_def)
    moreover have "ctx_of ((p @ q @ take ?left data) @ drop ?left data)
        (update_blocks (blk_SHA1_Block ctx2 (q @ take ?left data)) (drop ?left data))"
    proof (rule update_blocks_ctx_of)
      have "length (q @ take ?left data) = 64" using 3 pq(3) by simp
      then have "fips_blocks (fips_blocks sha_iv p) (q @ take ?left data) =
          fips_compress (fips_blocks sha_iv p) (q @ take ?left data)"
        by (simp add: fips_blocks.simps [of _ "q @ take ?left data"] fips_blocks_short)
      then show "regs_of (ctx_H (blk_SHA1_Block ctx2 (q @ take ?left data))) =
          fips_blocks sha_iv (p @ q @ take ?left data)"
        using pq(2,4) by (simp add: regs_of_block fips_blocks_append ctx2_def ctx1_def)
    qed (use 3 pq sz len in \<open>simp_all add: ctx2_def ctx1_def\<close>)
    ultimately show ?thesis by (simp add: pq(1))
  qed
qed

lemma foldl_update_ctx_of:
  "ctx_of m ctx \<Longrightarrow> ctx_of (m @ concat chunks) (foldl blk_SHA1_Update ctx chunks)"
proof (induction chunks arbitrary: m ctx)
  case (Cons c chunks)
  from Cons.IH [OF update_ctx_of [OF Cons.prems, of c]] show ?case by simp
qed simp

lemma be_bytes_4_mod: "be_bytes 4 (take_bit 32 n) = be_bytes 4 n"
proof -
  have "(of_nat (take_bit 32 n div 256 ^ (3 - i)) :: byte) = of_nat (n div 256 ^ (3 - i))" if "i < 4" for i
  proof -
    have e: "(256 :: nat) ^ (3 - i) = 2 ^ (8 * (3 - i))" by (simp add: power_mult)
    have "take_bit 8 (drop_bit (8 * (3 - i)) (take_bit 32 n)) = take_bit 8 (drop_bit (8 * (3 - i)) n)"
      by (rule bit_eqI) (use that in \<open>auto simp: bit_simps\<close>)
    then show ?thesis
      unfolding e drop_bit_eq_div [symmetric] by (simp add: word_of_nat_eq_iff)
  qed
  then show ?thesis by (simp add: be_bytes_def)
qed

lemma be_bytes_8: "be_bytes 8 n = be_bytes 4 (n div 2 ^ 32) @ be_bytes 4 n"
  by (simp add: be_bytes_def upt_rec div_mult2_eq [symmetric])

lemma padlen_bytes:
  "put_be32 (ucast (drop_bit 29 (of_nat n :: u64))) @ put_be32 (ucast (push_bit 3 (of_nat n :: u64)))
     = be_bytes 8 (8 * n)"
proof -
  have "unat (ucast (drop_bit 29 (of_nat n :: u64)) :: u32) =
      take_bit 32 (drop_bit 29 (take_bit 64 n))"
    by (simp add: unsigned_ucast_eq unat_drop_bit_eq unsigned_of_nat)
  also have "\<dots> = take_bit 32 (drop_bit 29 n)"
    by (rule bit_eqI) (auto simp: bit_simps)
  also have "drop_bit 29 n = 8 * n div 2 ^ 32"
    using div_mult_mult1 [of 8 n "2 ^ 29"] by (simp add: drop_bit_eq_div)
  finally have hi: "unat (ucast (drop_bit 29 (of_nat n :: u64)) :: u32) = take_bit 32 (8 * n div 2 ^ 32)" .
  have "push_bit 3 (of_nat n :: u64) = of_nat (8 * n)" by (simp add: push_bit_eq_mult)
  then have lo: "unat (ucast (push_bit 3 (of_nat n :: u64)) :: u32) = take_bit 32 (8 * n)"
    by (simp only: ) (simp add: unsigned_ucast_eq unsigned_of_nat del: of_nat_mult)
  show ?thesis
    unfolding put_be32_bytes hi lo be_bytes_4_mod be_bytes_8 ..
qed

lemma final_pad_length: "nat (1 + (63 AND (55 - int (n mod 64)))) = Suc ((119 - n mod 64) mod 64)"
proof -
  have "63 AND (55 - int (n mod 64)) = take_bit 6 (55 - int (n mod 64))"
    by (simp add: take_bit_eq_mask mask_eq_exp_minus_1 and.commute)
  also have "\<dots> = ((55 - int (n mod 64)) + 64) mod 64"
    unfolding take_bit_eq_mod mod_add_self2 by simp
  also have "(55 - int (n mod 64)) + 64 = int (119 - n mod 64)"
    using mod_less_divisor [of 64 n] by (simp del: mod_less_divisor)
  also have "int (119 - n mod 64) mod 64 = int ((119 - n mod 64) mod 64)"
    unfolding zmod_int by simp
  finally show ?thesis by (simp add: nat_add_distrib)
qed

lemma length_fips_pad: "64 dvd length (fips_pad m)"
proof -
  define d r where "d = length m div 64" and "r = length m mod 64"
  then have m: "length m = d * 64 + r" "r < 64" by auto
  have "(119 - r) mod 64 = (if r \<le> 55 then 55 - r else 119 - r)"
    using m(2) by (auto simp: mod_if)
  then have "length (fips_pad m) = (if r \<le> 55 then d + 1 else d + 2) * 64"
    using m(2) by (auto simp: fips_pad_def be_bytes_def r_def [symmetric] m(1))
  then show ?thesis by simp
qed

lemma ctx_of_whole:
  assumes "ctx_of m ctx" and "64 dvd length m"
  shows "regs_of (ctx_H ctx) = fips_blocks sha_iv m" and "length (ctx_H ctx) = 5"
proof -
  obtain p q where pq: "m = p @ q" "64 dvd length p" "length q < 64"
      "regs_of (ctx_H ctx) = fips_blocks sha_iv p"
    using assms(1) unfolding ctx_of_def by blast
  have "64 dvd length q" using assms(2) pq(1,2) by (simp add: dvd_add_right_iff)
  then have "q = []" using pq(3) by (cases q) (auto dest: dvd_imp_le)
  then show "regs_of (ctx_H ctx) = fips_blocks sha_iv m" using pq by simp
  show "length (ctx_H ctx) = 5" using assms(1) by (simp add: ctx_of_def)
qed

lemma final_ctx_of:
  assumes "ctx_of m ctx"
  shows "blk_SHA1_Final ctx = fips_sha1 m"
proof -
  have sz: "ctx_size ctx = of_nat (length m)" using assms by (simp add: ctx_of_def)
  let ?k = "(119 - length m mod 64) mod 64"
  have i: "uint (ctx_size ctx AND 63) = int (length m mod 64)"
    unfolding sz using size_and_63 [of "length m"] by (simp add: uint_nat)
  have pad: "take (Suc ?k) sha_pad = 0x80 # replicate ?k 0"
    by (simp add: sha_pad_def)
  have padlen: "put_be32 (ucast (drop_bit 29 (ctx_size ctx))) @ put_be32 (ucast (push_bit 3 (ctx_size ctx)))
      = be_bytes 8 (8 * length m)"
    unfolding sz by (rule padlen_bytes)
  define ctx' where "ctx' = blk_SHA1_Update (blk_SHA1_Update ctx (0x80 # replicate ?k 0)) (be_bytes 8 (8 * length m))"
  have final: "blk_SHA1_Final ctx = concat (map put_be32 (ctx_H ctx'))"
    unfolding blk_SHA1_Final_def Let_def i final_pad_length pad padlen ctx'_def ..
  have "ctx_of (fips_pad m) ctx'"
    using update_ctx_of [OF update_ctx_of [OF assms], of "0x80 # replicate ?k 0" "be_bytes 8 (8 * length m)"]
    by (simp add: fips_pad_def ctx'_def)
  moreover have "64 dvd length (fips_pad m)" by (rule length_fips_pad)
  ultimately have r: "regs_of (ctx_H ctx') = fips_blocks sha_iv (fips_pad m)" and "length (ctx_H ctx') = 5"
    by (rule ctx_of_whole)+
  then obtain a b c d e where H: "ctx_H ctx' = [a, b, c, d, e]"
    by (auto simp: length_Suc_conv numeral_eq_Suc)
  have "fips_blocks sha_iv (fips_pad m) = (a, b, c, d, e)" using r by (simp add: regs_of_def H)
  then show ?thesis
    unfolding final fips_sha1_def sha_iv_def [symmetric] by (simp add: H put_be32_bytes)
qed

section \<open>Properties\<close>

text \<open>
  C4: a message given to \<open>blk_SHA1_Update\<close> in pieces of any sizes hashes to
  what FIPS 180 prescribes for the whole message.
\<close>

theorem sha1_streaming:
  assumes "length (ctx_W ctx) = 64"
  shows "blk_SHA1_Final (foldl blk_SHA1_Update (blk_SHA1_Init ctx) chunks) = fips_sha1 (concat chunks)"
  using foldl_update_ctx_of [OF ctx_of_init [OF assms], of chunks] by (simp add: final_ctx_of)

lemma sha1_streaming_witness:
  "blk_SHA1_Final (foldl blk_SHA1_Update
      (blk_SHA1_Init \<lparr>ctx_size = 7, ctx_H = [], ctx_W = replicate 64 0\<rparr>) [[0x61], [0x62, 0x63]]) =
    fips_sha1 [0x61, 0x62, 0x63]"
  using sha1_streaming [of "\<lparr>ctx_size = 7, ctx_H = [], ctx_W = replicate 64 0\<rparr>" "[[0x61], [0x62, 0x63]]"]
  by simp

end
