(* ===== verification/Open_Address.thy ===== *)
theory Open_Address
  imports Git_Prelude
begin

text \<open>
  Hash tables with open addressing and linear probing, as \<^verbatim>\<open>object.c\<close> and \<^verbatim>\<open>decorate.c\<close> keep
  them: an array whose slots are empty or hold an entry; an entry sits in its home slot or
  in a later one, going around at the end, with no empty slot on the way. The loops of both
  files walk from a home slot to the first slot where they may stop; a walk over a table
  without such a slot never ends.
\<close>

section \<open>The walk\<close>

partial_function (option) probe :: "(nat \<Rightarrow> bool) \<Rightarrow> nat \<Rightarrow> nat \<Rightarrow> nat option" where
  "probe stop n j = (if stop j then Some j else probe stop n (if n \<le> j + 1 then 0 else j + 1))"

lemma probe_steps:
  assumes "\<And>i. i < k \<Longrightarrow> \<not> stop ((j + i) mod n)" and "stop ((j + k) mod n)" and "j < n"
  shows "probe stop n j = Some ((j + k) mod n)"
  using assms
proof (induction k arbitrary: j)
  case 0
  then show ?case by (simp add: probe.simps)
next
  case (Suc k)
  let ?j = "if n \<le> j + 1 then 0 else j + 1"
  have j: "?j = (j + 1) mod n"
    using Suc.prems(3) by (cases "n = Suc j") auto
  have *: "(?j + i) mod n = (j + Suc i) mod n" for i unfolding j by (simp add: mod_simps)
  have "probe stop n ?j = Some ((?j + k) mod n)"
  proof (rule Suc.IH)
    show "\<not> stop ((?j + i) mod n)" if "i < k" for i
      unfolding * using that by (intro Suc.prems(1)) simp
    show "stop ((?j + k) mod n)" unfolding * by (rule Suc.prems(2))
    show "?j < n" using Suc.prems(3) by auto
  qed
  moreover have "\<not> stop j" using Suc.prems(1) [of 0] Suc.prems(3) by simp
  ultimately show ?case unfolding * by (subst probe.simps) simp
qed

text \<open>The walk ends when there is a slot to stop at.\<close>

lemma probe_ends:
  assumes "j < n" and "m < n" and "stop m"
  obtains k where "probe stop n j = Some ((j + k) mod n)" and "stop ((j + k) mod n)"
    and "\<And>i. i < k \<Longrightarrow> \<not> stop ((j + i) mod n)"
proof -
  have "(j + (if j \<le> m then m - j else m + n - j)) mod n = m" using assms(1,2) by auto
  then have ex: "\<exists>k. stop ((j + k) mod n)" using assms(3) by metis
  define k where "k = (LEAST k. stop ((j + k) mod n))"
  have "stop ((j + k) mod n)" unfolding k_def by (rule LeastI_ex [OF ex])
  moreover have "\<not> stop ((j + i) mod n)" if "i < k" for i
    using not_less_Least that unfolding k_def by blast
  ultimately show thesis using that probe_steps [of k stop j n] assms(1) by blast
qed

lemma probe_stop: "probe stop n j = Some r \<Longrightarrow> j < n \<longrightarrow> r < n \<and> stop r"
proof (induct stop n j r rule: probe.raw_induct [rotated, consumes 1, case_names step])
  case (step f stop n j r)
  show ?case
  proof (cases "stop j")
    case True
    then show ?thesis using step(2) by simp
  next
    case False
    let ?j = "if n \<le> j + 1 then 0 else j + 1"
    have "f stop n ?j = Some r" using step(2) False by simp
    then have "?j < n \<longrightarrow> r < n \<and> stop r" by (rule step(1))
    then show ?thesis by auto
  qed
qed

text \<open>Without one it does not.\<close>

lemma probe_loops: "j < n \<Longrightarrow> (\<And>m. m < n \<Longrightarrow> \<not> stop m) \<Longrightarrow> probe stop n j = None"
  using probe_stop by (cases "probe stop n j") blast+

section \<open>Tables\<close>

definition occupied :: "'e option list \<Rightarrow> nat" where
  "occupied xs = length (filter (\<lambda>x. x \<noteq> None) xs)"

lemma occupied_replicate [simp]: "occupied (replicate n None) = 0"
  by (simp add: occupied_def)

lemma occupied_update:
  "j < length xs \<Longrightarrow> xs ! j = None \<Longrightarrow> occupied (xs[j := Some e]) = Suc (occupied xs)"
proof (induction xs arbitrary: j)
  case (Cons x xs)
  then show ?case by (cases j) (auto simp: occupied_def)
qed simp

lemma occupied_replace:
  "j < length xs \<Longrightarrow> xs ! j \<noteq> None \<Longrightarrow> occupied (xs[j := Some e]) = occupied xs"
proof (induction xs arbitrary: j)
  case (Cons x xs)
  then show ?case by (cases j) (auto simp: occupied_def)
qed simp

lemma empty_slot: "occupied xs < length xs \<Longrightarrow> \<exists>m < length xs. xs ! m = None"
proof (rule ccontr)
  assume o: "occupied xs < length xs" and "\<not> (\<exists>m < length xs. xs ! m = None)"
  then have "filter (\<lambda>x. x \<noteq> None) xs = xs" by (auto simp: filter_id_conv in_set_conv_nth)
  with o show False by (simp add: occupied_def)
qed

locale open_address =
  fixes key :: "'e \<Rightarrow> 'k" and home :: "'k \<Rightarrow> nat \<Rightarrow> nat"
  assumes home_less: "0 < n \<Longrightarrow> home k n < n"
begin

text \<open>An entry is reachable from its home slot, and no key stands twice in the table.\<close>

definition reach :: "'e option list \<Rightarrow> nat \<Rightarrow> 'k \<Rightarrow> bool" where
  "reach xs j k \<longleftrightarrow> (\<exists>d. j = (home k (length xs) + d) mod length xs \<and>
     (\<forall>i < d. xs ! ((home k (length xs) + i) mod length xs) \<noteq> None))"

definition table_ok :: "'e option list \<Rightarrow> bool" where
  "table_ok xs \<longleftrightarrow>
     (\<forall>j e. j < length xs \<longrightarrow> xs ! j = Some e \<longrightarrow> reach xs j (key e)) \<and>
     (\<forall>i j d e. i < length xs \<longrightarrow> j < length xs \<longrightarrow> xs ! i = Some d \<longrightarrow> xs ! j = Some e \<longrightarrow>
        key d = key e \<longrightarrow> i = j)"

definition entry :: "'e option list \<Rightarrow> 'k \<Rightarrow> 'e \<Rightarrow> bool" where
  "entry xs k e \<longleftrightarrow> Some e \<in> set xs \<and> key e = k"

lemma table_okD:
  assumes "table_ok xs"
  shows "j < length xs \<Longrightarrow> xs ! j = Some e \<Longrightarrow> reach xs j (key e)"
    and "i < length xs \<Longrightarrow> j < length xs \<Longrightarrow> xs ! i = Some d \<Longrightarrow> xs ! j = Some e \<Longrightarrow>
      key d = key e \<Longrightarrow> i = j"
  using assms unfolding table_ok_def by blast+

lemma entry_unique: "table_ok xs \<Longrightarrow> entry xs k d \<Longrightarrow> entry xs k e \<Longrightarrow> d = e"
  by (auto simp: entry_def in_set_conv_nth) (metis option.inject table_okD(2))

lemma table_ok_empty: "table_ok (replicate n None)"
  by (simp add: table_ok_def)

lemma entry_empty [simp]: "\<not> entry (replicate n None) k e"
  by (auto simp: entry_def)

lemma entry_swap_at [simp]:
  "i < length xs \<Longrightarrow> j < length xs \<Longrightarrow> entry (swap_at xs i j) k e = entry xs k e"
  by (simp add: entry_def set_swap_at)

text \<open>
  A walk from the home slot of a key that stops at empty slots and at the key finds the key's
  entry, or an empty slot when the table has none; either way the slot is reachable.
\<close>

lemma probe_key:
  assumes ok: "table_ok xs" and room: "occupied xs < length xs"
    and stop: "\<And>j. j < length xs \<Longrightarrow>
      stop j \<longleftrightarrow> (case xs ! j of None \<Rightarrow> True | Some e \<Rightarrow> key e = k)"
  obtains j where "probe stop (length xs) (home k (length xs)) = Some j" and "j < length xs"
    and "reach xs j k" and "\<And>e. entry xs k e \<longleftrightarrow> xs ! j = Some e"
proof -
  let ?n = "length xs" and ?h = "home k (length xs)"
  obtain m where m: "m < ?n" "xs ! m = None" using empty_slot [OF room] by blast
  have n: "0 < ?n" using room by linarith
  have "stop m" using stop [OF m(1)] m(2) by simp
  then obtain d where d: "probe stop ?n ?h = Some ((?h + d) mod ?n)" "stop ((?h + d) mod ?n)"
      "\<And>i. i < d \<Longrightarrow> \<not> stop ((?h + i) mod ?n)"
    using probe_ends [OF home_less [OF n] m(1), of stop k] by blast
  let ?j = "(?h + d) mod ?n"
  have jn: "?j < ?n" using n by simp
  have occ: "xs ! ((?h + i) mod ?n) \<noteq> None" if "i < d" for i
    using d(3) [OF that] stop [of "(?h + i) mod ?n"] n by (auto split: option.splits)
  have e: "entry xs k e \<longleftrightarrow> xs ! ?j = Some e" for e
  proof
    assume "xs ! ?j = Some e"
    then show "entry xs k e"
      using d(2) stop [OF jn] jn by (auto simp: entry_def in_set_conv_nth)
  next
    assume "entry xs k e"
    then obtain j' where j': "j' < ?n" "xs ! j' = Some e" "key e = k"
      by (auto simp: entry_def in_set_conv_nth)
    then have "reach xs j' k" using table_okD(1) [OF ok j'(1,2)] by simp
    then obtain d' where d': "j' = (?h + d') mod ?n" "\<forall>i < d'. xs ! ((?h + i) mod ?n) \<noteq> None"
      unfolding reach_def by blast
    have "stop j'" using stop [OF j'(1)] j'(2,3) by simp
    then have "\<not> d' < d" using d(3) d'(1) by blast
    then consider "d = d'" | "d < d'" by linarith
    then show "xs ! ?j = Some e"
    proof cases
      case 2
      then obtain f where f: "xs ! ?j = Some f" using d'(2) by blast
      then have "key f = k" using d(2) stop [OF jn] by simp
      then have "?j = j'" using table_okD(2) [OF ok jn j'(1) f j'(2)] j'(3) by simp
      then show ?thesis using j'(2) by simp
    qed (use d'(1) j'(2) in simp)
  qed
  show thesis
    by (rule that [OF d(1) jn _ e]) (use occ in \<open>auto simp: reach_def\<close>)
qed

text \<open>A walk to the first empty slot finds one that the key can have.\<close>

lemma probe_empty:
  assumes room: "occupied xs < length xs"
    and stop: "\<And>j. j < length xs \<Longrightarrow> stop j \<longleftrightarrow> xs ! j = None"
  obtains j where "probe stop (length xs) (home k (length xs)) = Some j" and "j < length xs"
    and "reach xs j k" and "xs ! j = None"
proof -
  let ?n = "length xs" and ?h = "home k (length xs)"
  obtain m where m: "m < ?n" "xs ! m = None" using empty_slot [OF room] by blast
  have n: "0 < ?n" using room by linarith
  have "stop m" using stop [OF m(1)] m(2) by simp
  then obtain d where d: "probe stop ?n ?h = Some ((?h + d) mod ?n)" "stop ((?h + d) mod ?n)"
      "\<And>i. i < d \<Longrightarrow> \<not> stop ((?h + i) mod ?n)"
    using probe_ends [OF home_less [OF n] m(1), of stop k] by blast
  show thesis
    by (rule that [OF d(1)]) (use d(2,3) stop n in \<open>auto simp: reach_def\<close>)
qed

text \<open>Filling slots keeps the others reachable.\<close>

lemma reach_mono:
  assumes "reach xs j k" and "length ys = length xs" and "j < length xs"
    and "\<And>i. i < length xs \<Longrightarrow> xs ! i \<noteq> None \<Longrightarrow> ys ! i \<noteq> None"
  shows "reach ys j k"
proof -
  obtain d where d: "j = (home k (length xs) + d) mod length xs"
      "\<forall>i < d. xs ! ((home k (length xs) + i) mod length xs) \<noteq> None"
    using assms(1) unfolding reach_def by blast
  have "0 < length xs" using assms(3) by linarith
  then show ?thesis
    unfolding reach_def assms(2) using d assms(4) by (intro exI [of _ d]) auto
qed

lemma table_ok_insert:
  assumes "table_ok xs" and "j < length xs" and "xs ! j = None" and "reach xs j (key e)"
    and "\<nexists>d. entry xs (key e) d"
  shows "table_ok (xs[j := Some e])"
  unfolding table_ok_def
proof (intro conjI allI impI)
  fix i d assume i: "i < length (xs[j := Some e])" "xs[j := Some e] ! i = Some d"
  have "reach xs i (key d)"
    using i assms(2,4) table_okD(1) [OF assms(1), of i d] by (cases "i = j") auto
  then show "reach (xs[j := Some e]) i (key d)"
    by (rule reach_mono) (use i assms(2) in \<open>auto simp: nth_list_update\<close>)
next
  fix i i' d d'
  assume i: "i < length (xs[j := Some e])" "i' < length (xs[j := Some e])"
    "xs[j := Some e] ! i = Some d" "xs[j := Some e] ! i' = Some d'" "key d = key d'"
  have "key f \<noteq> key e" if "m < length xs" "xs ! m = Some f" for m f
    using assms(5) that by (auto simp: entry_def in_set_conv_nth)
  then show "i = i'"
    using i assms(2) table_okD(2) [OF assms(1), of i i' d d']
    by (auto simp: nth_list_update split: if_splits)
qed

lemma entry_insert:
  assumes "j < length xs" and "xs ! j = None"
  shows "entry (xs[j := Some e]) k d \<longleftrightarrow> d = e \<and> key e = k \<or> entry xs k d"
proof -
  have "Some d \<in> set (xs[j := Some e]) \<longleftrightarrow> d = e \<or> Some d \<in> set xs"
  proof
    assume "d = e \<or> Some d \<in> set xs"
    then obtain i where "i < length xs" "xs[j := Some e] ! i = Some d"
      using assms by (auto simp: in_set_conv_nth) (metis nth_list_update_neq option.distinct(1))
    then show "Some d \<in> set (xs[j := Some e])" by (auto simp: in_set_conv_nth)
  qed (use set_update_subset_insert [of xs j "Some e"] in auto)
  then show ?thesis by (auto simp: entry_def)
qed

text \<open>An entry may be replaced by one with the same key.\<close>

lemma table_ok_replace:
  assumes "table_ok xs" and "j < length xs" and "xs ! j = Some d" and "key e = key d"
  shows "table_ok (xs[j := Some e])"
  unfolding table_ok_def
proof (intro conjI allI impI)
  fix i f assume i: "i < length (xs[j := Some e])" "xs[j := Some e] ! i = Some f"
  have "reach xs i (key f)"
    using i assms table_okD(1) [OF assms(1), of i] by (cases "i = j") auto
  then show "reach (xs[j := Some e]) i (key f)"
    by (rule reach_mono) (use i assms(2) in \<open>auto simp: nth_list_update\<close>)
next
  fix i i' f f'
  assume i: "i < length (xs[j := Some e])" "i' < length (xs[j := Some e])"
    "xs[j := Some e] ! i = Some f" "xs[j := Some e] ! i' = Some f'" "key f = key f'"
  then show "i = i'"
    using assms(2-4) table_okD(2) [OF assms(1)]
    by (auto simp: nth_list_update split: if_splits)
qed

lemma entry_replace:
  assumes "table_ok xs" and "j < length xs" and "xs ! j = Some d" and "key e = key d"
  shows "entry (xs[j := Some e]) k f \<longleftrightarrow> (if k = key e then f = e else entry xs k f)"
proof -
  have "Some f \<in> set (xs[j := Some e]) \<longleftrightarrow> f = e \<or> (\<exists>i < length xs. i \<noteq> j \<and> xs ! i = Some f)"
    using assms(2) by (auto simp: in_set_conv_nth nth_list_update split: if_splits)
  moreover have "i = j" if "i < length xs" "xs ! i = Some f" "key f = key e" for i
    using table_okD(2) [OF assms(1) that(1) assms(2) that(2) assms(3)] that(3) assms(4) by simp
  moreover have "i \<noteq> j" if "xs ! i = Some f" "key f \<noteq> key e" for i
    using that assms(3,4) by auto
  ultimately show ?thesis by (auto simp: entry_def in_set_conv_nth)
qed

text \<open>The entry found may move to its home slot, if what is there takes its place.\<close>

lemma table_ok_move_to_home:
  assumes ok: "table_ok xs" and j: "j < length xs" "xs ! j = Some e"
  shows "table_ok (swap_at xs j (home (key e) (length xs)))"
proof -
  let ?n = "length xs" and ?h = "home (key e) (length xs)"
  let ?ys = "swap_at xs j ?h"
  have h: "?h < ?n" by (rule home_less) (use j(1) in linarith)
  obtain d where d: "j = (?h + d) mod ?n" "\<forall>i < d. xs ! ((?h + i) mod ?n) \<noteq> None"
    using table_okD(1) [OF ok j] unfolding reach_def by blast
  have hs: "xs ! ?h \<noteq> None"
  proof (cases d)
    case 0
    then show ?thesis using d(1) h j(2) by simp
  next
    case (Suc d')
    then show ?thesis using d(2)[rule_format, of 0] h by simp
  qed
  have nth: "?ys ! i = (if i = ?h then xs ! j else if i = j then xs ! ?h else xs ! i)" if "i < ?n" for i
    using nth_swap_at [OF j(1) h that] .
  have occ: "?ys ! i \<noteq> None" if "i < ?n" "xs ! i \<noteq> None" for i
    using that hs j(2) by (simp add: nth)
  have reach_j: "reach xs j (key f)" if f: "xs ! ?h = Some f" for f
  proof -
    obtain c where c: "?h = (home (key f) ?n + c) mod ?n"
        "\<forall>i < c. xs ! ((home (key f) ?n + i) mod ?n) \<noteq> None"
      using table_okD(1) [OF ok h f] unfolding reach_def by blast
    have step: "(home (key f) ?n + (c + i)) mod ?n = (?h + i) mod ?n" for i
      using mod_add_left_eq [of "home (key f) ?n + c" ?n i] unfolding c(1) [symmetric]
      by (simp add: add.assoc)
    have "xs ! ((home (key f) ?n + i) mod ?n) \<noteq> None" if "i < c + d" for i
    proof (cases "i < c")
      case False
      then have "c + (i - c) = i" "i - c < d" using that by auto
      then show ?thesis using step [of "i - c"] d(2) by (simp del: Nat.add_diff_assoc)
    qed (use c(2) in simp)
    then show ?thesis
      unfolding reach_def using d(1) step [of d] by (intro exI [of _ "c + d"]) simp
  qed
  show ?thesis
    unfolding table_ok_def
  proof (intro conjI allI impI)
    fix i f assume i: "i < length ?ys" "?ys ! i = Some f"
    have "reach xs i (key f)"
    proof -
      consider "i = ?h" "f = e" | "i = j" "xs ! ?h = Some f" | "xs ! i = Some f"
        using i j(2) nth [of i] by (auto split: if_splits)
      then show ?thesis
      proof cases
        case 1
        then show ?thesis using h unfolding reach_def by (intro exI [of _ 0]) simp
      qed (use reach_j table_okD(1) [OF ok] i(1) in auto)
    qed
    then show "reach ?ys i (key f)"
      by (rule reach_mono) (use i(1) occ in auto)
  next
    fix i i' f f'
    assume i: "i < length ?ys" "i' < length ?ys" "?ys ! i = Some f" "?ys ! i' = Some f'" "key f = key f'"
    define \<sigma> where "\<sigma> i = (if i = ?h then j else if i = j then ?h else i)" for i
    have \<sigma>: "\<sigma> i < ?n" "?ys ! i = xs ! \<sigma> i" if "i < ?n" for i
      using that j(1) h nth [OF that] by (auto simp: \<sigma>_def)
    have "\<sigma> i = \<sigma> i'"
      using table_okD(2) [OF ok, of "\<sigma> i" "\<sigma> i'" f f'] \<sigma> i by simp
    then show "i = i'" by (auto simp: \<sigma>_def split: if_splits)
  qed
qed

end

end
