(* ===== verification/Object_Table.thy ===== *)
theory Object_Table
  imports Open_Address
begin

text \<open>
  The table of all objects a process has seen (\<^verbatim>\<open>object.c\<close>, \<^verbatim>\<open>alloc.c\<close>, \<^verbatim>\<open>blob.c\<close>, \<^verbatim>\<open>tree.c\<close>,
  \<^verbatim>\<open>commit.c\<close>, \<^verbatim>\<open>tag.c\<close>). An object is created once, is found by its name from then on, and keeps
  its type. The objects live in \<open>os_heap\<close>, a pointer is an index into it; \<open>obj_hash\<close> is the open
  hash table of pointers. A result \<open>None\<close> stands for a loop that never ends, which the
  theorems below exclude. Table sizes are kept as numbers; they fit an \<open>int\<close> while
  there are fewer than \<open>2 ^ 29\<close> objects.
\<close>

section \<open>Names and types of objects\<close>

fun hashcmp_from :: "nat \<Rightarrow> byte list \<Rightarrow> byte list \<Rightarrow> int" where
  "hashcmp_from 0 a b = 0"
| "hashcmp_from (Suc n) a b =
     (if hd a \<noteq> hd b then uint (hd a) - uint (hd b) else hashcmp_from n (tl a) (tl b))"

definition hashcmp :: "byte list \<Rightarrow> byte list \<Rightarrow> int" where
  "hashcmp sha1 sha2 = hashcmp_from 20 sha1 sha2"

text \<open>The copy of four bytes into an integer, on a machine with the low byte first.\<close>

definition sha1hash :: "byte list \<Rightarrow> u32" where
  "sha1hash sha1 = ucast (sha1 ! 0) OR push_bit 8 (ucast (sha1 ! 1)) OR
     push_bit 16 (ucast (sha1 ! 2)) OR push_bit 24 (ucast (sha1 ! 3))"

definition OBJ_BAD :: int where "OBJ_BAD = -1"
definition OBJ_NONE :: int where "OBJ_NONE = 0"
definition OBJ_COMMIT :: int where "OBJ_COMMIT = 1"
definition OBJ_TREE :: int where "OBJ_TREE = 2"
definition OBJ_BLOB :: int where "OBJ_BLOB = 3"
definition OBJ_TAG :: int where "OBJ_TAG = 4"

lemmas obj_types = OBJ_BAD_def OBJ_NONE_def OBJ_COMMIT_def OBJ_TREE_def OBJ_BLOB_def OBJ_TAG_def

definition object_type_strings :: "string option list" where
  "object_type_strings = [None, Some ''commit'', Some ''tree'', Some ''blob'', Some ''tag'']"

definition typename :: "int \<Rightarrow> string option" where
  "typename t = (if t < 0 \<or> int (length object_type_strings) \<le> t then None
                 else object_type_strings ! nat t)"

fun strncmp_eq :: "string \<Rightarrow> string \<Rightarrow> nat \<Rightarrow> bool" where
  "strncmp_eq s t 0 = True"
| "strncmp_eq s t (Suc n) =
     (peek s = peek t \<and> (peek s = NUL \<or> strncmp_eq (tl s) (tl t) n))"

datatype type_error = Invalid_type | Read_past_end

text \<open>
  \<open>str\<close> is a buffer that may hold NUL bytes before its end. The test for the end of the name
  in the table reads at the given length, which is past the name when the buffer holds the name,
  a NUL and more.
\<close>

fun type_loop :: "string \<Rightarrow> nat \<Rightarrow> int \<Rightarrow> string option list \<Rightarrow> type_error + int" where
  "type_loop str len i [] = Inl Invalid_type"
| "type_loop str len i (None # ts) = type_loop str len (i + 1) ts"
| "type_loop str len i (Some t # ts) =
     (if strncmp_eq str t len
      then if length t < len then Inl Read_past_end
           else if len = length t then Inr i else type_loop str len (i + 1) ts
      else type_loop str len (i + 1) ts)"

definition type_from_string_gently :: "string \<Rightarrow> int \<Rightarrow> bool \<Rightarrow> type_error + int" where
  "type_from_string_gently str len gentle =
     (let len = (if len < 0 then length (takeWhile (\<lambda>c. c \<noteq> NUL) str) else nat len)
      in case type_loop str len 1 (tl object_type_strings) of
           Inl Invalid_type \<Rightarrow> if gentle then Inr (- 1) else Inl Invalid_type
         | r \<Rightarrow> r)"

section \<open>The table\<close>

record object =
  o_parsed :: bool
  o_used :: bool
  o_type :: int
  o_flags :: "27 word"
  o_sha1 :: "byte list"
  o_index :: u32

record object_store =
  os_heap :: "object list"
  obj_hash :: "nat option list"
  nr_objs :: nat
  commit_count :: u32

definition hash_obj :: "byte list \<Rightarrow> nat \<Rightarrow> nat" where
  "hash_obj sha1 n = unat (sha1hash sha1 AND (of_nat n - 1))"

definition insert_obj_hash :: "object list \<Rightarrow> nat \<Rightarrow> nat option list \<Rightarrow> nat option list option" where
  "insert_obj_hash heap obj hash =
     map_option (\<lambda>j. hash[j := Some obj])
       (probe (\<lambda>j. hash ! j = None) (length hash) (hash_obj (o_sha1 (heap ! obj)) (length hash)))"

definition lookup_object :: "object_store \<Rightarrow> byte list \<Rightarrow> (object_store \<times> nat option) option" where
  "lookup_object s sha1 =
     (if obj_hash s = [] then Some (s, None)
      else let hash = obj_hash s;
               first = hash_obj sha1 (length hash)
           in case probe (\<lambda>i. case hash ! i of None \<Rightarrow> True
                             | Some p \<Rightarrow> hashcmp sha1 (o_sha1 (os_heap s ! p)) = 0)
                     (length hash) first of
                None \<Rightarrow> None
              | Some i \<Rightarrow>
                  if hash ! i \<noteq> None \<and> i \<noteq> first
                  then Some (s\<lparr>obj_hash := swap_at hash i first\<rparr>, hash ! i)
                  else Some (s, hash ! i))"

fun reinsert :: "object list \<Rightarrow> nat option list \<Rightarrow> nat option list \<Rightarrow> nat option list option" where
  "reinsert heap [] hash = Some hash"
| "reinsert heap (None # slots) hash = reinsert heap slots hash"
| "reinsert heap (Some obj # slots) hash =
     (case insert_obj_hash heap obj hash of
        None \<Rightarrow> None
      | Some hash' \<Rightarrow> reinsert heap slots hash')"

definition grow_object_hash :: "object_store \<Rightarrow> object_store option" where
  "grow_object_hash s =
     (let size = length (obj_hash s);
          new_hash_size = (if size < 32 then 32 else 2 * size)
      in map_option (\<lambda>h. s\<lparr>obj_hash := h\<rparr>)
           (reinsert (os_heap s) (obj_hash s) (replicate new_hash_size None)))"

definition create_object :: "object_store \<Rightarrow> byte list \<Rightarrow> nat \<Rightarrow> object_store option" where
  "create_object s sha1 obj =
     (let s = s\<lparr>os_heap := (os_heap s)[obj := (os_heap s ! obj)
                 \<lparr>o_parsed := False, o_used := False, o_flags := 0, o_sha1 := sha1\<rparr>]\<rparr>
      in case (if int (length (obj_hash s)) - 1 \<le> int (nr_objs s) * 2
               then grow_object_hash s else Some s) of
           None \<Rightarrow> None
         | Some s \<Rightarrow>
             (case insert_obj_hash (os_heap s) obj (obj_hash s) of
                None \<Rightarrow> None
              | Some h \<Rightarrow> Some (s\<lparr>obj_hash := h, nr_objs := nr_objs s + 1\<rparr>)))"

section \<open>Objects by type\<close>

definition alloc_node :: "object_store \<Rightarrow> int \<Rightarrow> object_store \<times> nat" where
  "alloc_node s type =
     (s\<lparr>os_heap := os_heap s @ [\<lparr>o_parsed = False, o_used = False, o_type = type, o_flags = 0,
        o_sha1 = replicate 20 0, o_index = 0\<rparr>]\<rparr>, length (os_heap s))"

definition alloc_blob_node :: "object_store \<Rightarrow> object_store \<times> nat" where
  "alloc_blob_node s = alloc_node s OBJ_BLOB"

definition alloc_tree_node :: "object_store \<Rightarrow> object_store \<times> nat" where
  "alloc_tree_node s = alloc_node s OBJ_TREE"

definition alloc_tag_node :: "object_store \<Rightarrow> object_store \<times> nat" where
  "alloc_tag_node s = alloc_node s OBJ_TAG"

definition alloc_object_node :: "object_store \<Rightarrow> object_store \<times> nat" where
  "alloc_object_node s = alloc_node s OBJ_NONE"

definition alloc_commit_index :: "object_store \<Rightarrow> object_store \<times> u32" where
  "alloc_commit_index s = (s\<lparr>commit_count := commit_count s + 1\<rparr>, commit_count s)"

definition set_index :: "nat \<Rightarrow> object_store \<times> u32 \<Rightarrow> object_store" where
  "set_index obj = (\<lambda>(s, i). s\<lparr>os_heap := (os_heap s)[obj := (os_heap s ! obj)\<lparr>o_index := i\<rparr>]\<rparr>)"

definition alloc_commit_node :: "object_store \<Rightarrow> object_store \<times> nat" where
  "alloc_commit_node s =
     (let (s, obj) = alloc_node s OBJ_COMMIT
      in (set_index obj (alloc_commit_index s), obj))"

definition object_as_type :: "object_store \<Rightarrow> nat \<Rightarrow> int \<Rightarrow> object_store \<times> nat option" where
  "object_as_type s obj type =
     (if o_type (os_heap s ! obj) = type then (s, Some obj)
      else if o_type (os_heap s ! obj) = OBJ_NONE
      then let s = (if type = OBJ_COMMIT then set_index obj (alloc_commit_index s) else s)
           in (s\<lparr>os_heap := (os_heap s)[obj := (os_heap s ! obj)\<lparr>o_type := type\<rparr>]\<rparr>, Some obj)
      else (s, None))"

text \<open>
  The five functions that look an object up and create it when it is missing differ in the
  allocator and in what they do with an object found.
\<close>

definition lookup_or_create ::
  "(object_store \<Rightarrow> object_store \<times> nat) \<Rightarrow> (object_store \<Rightarrow> nat \<Rightarrow> object_store \<times> nat option) \<Rightarrow>
     object_store \<Rightarrow> byte list \<Rightarrow> (object_store \<times> nat option) option" where
  "lookup_or_create alloc found s sha1 =
     (case lookup_object s sha1 of
        None \<Rightarrow> None
      | Some (s, Some obj) \<Rightarrow> Some (found s obj)
      | Some (s, None) \<Rightarrow>
          (let (s, obj) = alloc s
           in map_option (\<lambda>s. (s, Some obj)) (create_object s sha1 obj)))"

definition lookup_unknown_object :: "object_store \<Rightarrow> byte list \<Rightarrow> (object_store \<times> nat option) option" where
  "lookup_unknown_object = lookup_or_create alloc_object_node (\<lambda>s obj. (s, Some obj))"

definition lookup_blob :: "object_store \<Rightarrow> byte list \<Rightarrow> (object_store \<times> nat option) option" where
  "lookup_blob = lookup_or_create alloc_blob_node (\<lambda>s obj. object_as_type s obj OBJ_BLOB)"

definition lookup_tree :: "object_store \<Rightarrow> byte list \<Rightarrow> (object_store \<times> nat option) option" where
  "lookup_tree = lookup_or_create alloc_tree_node (\<lambda>s obj. object_as_type s obj OBJ_TREE)"

definition lookup_commit :: "object_store \<Rightarrow> byte list \<Rightarrow> (object_store \<times> nat option) option" where
  "lookup_commit = lookup_or_create alloc_commit_node (\<lambda>s obj. object_as_type s obj OBJ_COMMIT)"

definition lookup_tag :: "object_store \<Rightarrow> byte list \<Rightarrow> (object_store \<times> nat option) option" where
  "lookup_tag = lookup_or_create alloc_tag_node (\<lambda>s obj. object_as_type s obj OBJ_TAG)"

definition clear_object_flags :: "object_store \<Rightarrow> u32 \<Rightarrow> object_store" where
  "clear_object_flags s flags =
     s\<lparr>os_heap := fold (\<lambda>slot heap. case slot of None \<Rightarrow> heap
        | Some p \<Rightarrow> heap[p := (heap ! p)\<lparr>o_flags := o_flags (heap ! p) AND ucast (NOT flags)\<rparr>])
        (obj_hash s) (os_heap s)\<rparr>"

section \<open>Lemmas\<close>

lemma hashcmp_from_0:
  "length a = n \<Longrightarrow> length b = n \<Longrightarrow> hashcmp_from n a b = 0 \<longleftrightarrow> a = b"
proof (induction n arbitrary: a b)
  case (Suc n)
  then show ?case by (cases a; cases b) (auto simp: word_uint_eq_iff)
qed simp

lemma hashcmp_0: "length a = 20 \<Longrightarrow> length b = 20 \<Longrightarrow> hashcmp a b = 0 \<longleftrightarrow> a = b"
  by (simp add: hashcmp_def hashcmp_from_0)

lemma hash_obj_less:
  assumes "0 < n"
  shows "hash_obj k n < n"
proof -
  have "hash_obj k n \<le> unat (of_nat n - 1 :: u32)"
    unfolding hash_obj_def by (simp add: word_and_le1 flip: word_le_nat_alt)
  moreover have "unat (of_nat n - 1 :: u32) < n"
  proof -
    obtain m where m: "n = Suc m" using assms by (cases n) auto
    then have "unat (of_nat n - 1 :: u32) = take_bit 32 m" by (simp add: unsigned_of_nat)
    also have "\<dots> \<le> m" by (simp add: take_bit_eq_mod)
    finally show ?thesis using m by simp
  qed
  ultimately show ?thesis by linarith
qed

interpretation objs: open_address "\<lambda>p. o_sha1 (heap ! p)" hash_obj for heap :: "object list"
  by unfold_locales (rule hash_obj_less)

text \<open>
  The well-formed states: the slots point at distinct objects of the heap with names of
  20 bytes, and at most half of the slots are in use.
\<close>

definition heap_ok :: "object list \<Rightarrow> nat option list \<Rightarrow> bool" where
  "heap_ok heap hash \<longleftrightarrow> (\<forall>p. Some p \<in> set hash \<longrightarrow> p < length heap \<and> length (o_sha1 (heap ! p)) = 20)"

definition obj_wf :: "object_store \<Rightarrow> bool" where
  "obj_wf s \<longleftrightarrow> objs.table_ok (os_heap s) (obj_hash s) \<and> heap_ok (os_heap s) (obj_hash s) \<and>
     occupied (obj_hash s) = nr_objs s \<and> 2 * nr_objs s \<le> length (obj_hash s) \<and>
     (obj_hash s = [] \<or> 32 \<le> length (obj_hash s))"

definition known :: "object_store \<Rightarrow> byte list \<Rightarrow> nat \<Rightarrow> bool" where
  "known s sha1 p \<longleftrightarrow> Some p \<in> set (obj_hash s) \<and> o_sha1 (os_heap s ! p) = sha1"

definition no_objects :: object_store where
  "no_objects = \<lparr>os_heap = [], obj_hash = [], nr_objs = 0, commit_count = 0\<rparr>"

lemma obj_wf_no_objects: "obj_wf no_objects"
  using objs.table_ok_empty [of "[]" 0]
  by (simp add: obj_wf_def no_objects_def heap_ok_def occupied_def)

lemma known_entry: "known s k p \<longleftrightarrow> objs.entry (os_heap s) (obj_hash s) k p"
  by (simp add: known_def objs.entry_def)

lemma lookup_object_wf:
  assumes "obj_wf s" and "length sha1 = 20"
  shows "\<exists>s' r. lookup_object s sha1 = Some (s', r) \<and> obj_wf s' \<and> os_heap s' = os_heap s \<and>
    commit_count s' = commit_count s \<and> nr_objs s' = nr_objs s \<and>
    length (obj_hash s') = length (obj_hash s) \<and>
    (\<forall>k p. known s' k p \<longleftrightarrow> known s k p) \<and> (\<forall>p. known s sha1 p \<longleftrightarrow> r = Some p)"
proof (cases "obj_hash s = []")
  case True
  then show ?thesis using assms(1) by (auto simp: lookup_object_def known_def)
next
  case False
  let ?hash = "obj_hash s" and ?heap = "os_heap s"
  let ?n = "length ?hash"
  let ?stop = "\<lambda>i. case ?hash ! i of None \<Rightarrow> True | Some p \<Rightarrow> hashcmp sha1 (o_sha1 (?heap ! p)) = 0"
  have ok: "objs.table_ok ?heap ?hash" and heap: "heap_ok ?heap ?hash"
    and room: "occupied ?hash < ?n"
    using assms(1) False by (auto simp: obj_wf_def)
  have stop: "?stop i \<longleftrightarrow> (case ?hash ! i of None \<Rightarrow> True | Some p \<Rightarrow> o_sha1 (?heap ! p) = sha1)"
    if "i < ?n" for i
  proof (cases "?hash ! i")
    case (Some p)
    then have "length (o_sha1 (?heap ! p)) = 20"
      using heap nth_mem [OF that] by (simp add: heap_ok_def)
    then show ?thesis using Some assms(2) by (auto simp: hashcmp_0)
  qed simp
  obtain i where i: "probe ?stop ?n (hash_obj sha1 ?n) = Some i" "i < ?n"
      "\<And>p. objs.entry ?heap ?hash sha1 p \<longleftrightarrow> ?hash ! i = Some p"
    using objs.probe_key [OF ok room stop] by metis
  let ?first = "hash_obj sha1 ?n"
  have first: "?first < ?n" using False by (simp add: hash_obj_less)
  show ?thesis
  proof (cases "?hash ! i \<noteq> None \<and> i \<noteq> ?first")
    case True
    then obtain p where p: "?hash ! i = Some p" by blast
    then have "o_sha1 (?heap ! p) = sha1" using i(3) [of p] by (simp add: objs.entry_def)
    then have "objs.table_ok ?heap (swap_at ?hash i ?first)"
      using objs.table_ok_move_to_home [OF ok i(2) p] by simp
    moreover have "heap_ok ?heap (swap_at ?hash i ?first)"
      using heap i(2) first by (simp add: heap_ok_def set_swap_at)
    moreover have "occupied (swap_at ?hash i ?first) = occupied ?hash"
      using arg_cong [OF mset_swap_at [OF i(2) first], of "\<lambda>m. size (filter_mset (\<lambda>x. x \<noteq> None) m)"]
      by (simp add: occupied_def flip: mset_filter)
    ultimately have "obj_wf (s\<lparr>obj_hash := swap_at ?hash i ?first\<rparr>)"
      using assms(1) by (simp add: obj_wf_def flip: length_0_conv)
    moreover have "lookup_object s sha1 = Some (s\<lparr>obj_hash := swap_at ?hash i ?first\<rparr>, Some p)"
      using False i(1) True p by (simp add: lookup_object_def Let_def)
    ultimately show ?thesis
      using i(2,3) first p by (auto simp: known_entry objs.entry_swap_at)
  next
    case no: False
    have "lookup_object s sha1 = Some (s, ?hash ! i)"
      by (simp only: lookup_object_def Let_def i(1) False no if_False option.case)
    then show ?thesis using assms(1) i(3) by (simp add: known_entry)
  qed
qed

lemma insert_obj_hash_wf:
  assumes ok: "objs.table_ok heap hash" and room: "occupied hash < length hash"
    and new: "\<nexists>p. objs.entry heap hash (o_sha1 (heap ! obj)) p"
  obtains hash' where "insert_obj_hash heap obj hash = Some hash'" and "objs.table_ok heap hash'"
    and "length hash' = length hash" and "occupied hash' = Suc (occupied hash)"
    and "\<And>p. Some p \<in> set hash' \<longleftrightarrow> p = obj \<or> Some p \<in> set hash"
proof -
  obtain j where j: "probe (\<lambda>j. hash ! j = None) (length hash) (hash_obj (o_sha1 (heap ! obj)) (length hash)) = Some j"
      "j < length hash" "objs.reach hash j (o_sha1 (heap ! obj))" "hash ! j = None"
    by (rule objs.probe_empty [OF room, of "\<lambda>j. hash ! j = None" "o_sha1 (heap ! obj)"]) auto
  have "Some p \<in> set (hash[j := Some obj]) \<longleftrightarrow> p = obj \<or> Some p \<in> set hash" for p
    using objs.entry_insert [OF j(2,4), of heap obj "o_sha1 (heap ! p)" p]
    by (auto simp: objs.entry_def)
  moreover have "insert_obj_hash heap obj hash = Some (hash[j := Some obj])"
    by (simp add: insert_obj_hash_def j(1))
  ultimately show thesis
    using objs.table_ok_insert [OF ok j(2,4,3) new] occupied_update [OF j(2,4)]
    by (intro that [of "hash[j := Some obj]"]) (simp_all only: length_list_update)
qed

text \<open>Growing moves every entry into a table twice as large.\<close>

lemma reinsert_wf:
  assumes "objs.table_ok heap hash" and "occupied hash + occupied slots < length hash"
    and "\<And>i j p q. i < length slots \<Longrightarrow> j < length slots \<Longrightarrow> slots ! i = Some p \<Longrightarrow> slots ! j = Some q \<Longrightarrow>
      o_sha1 (heap ! p) = o_sha1 (heap ! q) \<Longrightarrow> i = j"
    and "\<And>p q. Some p \<in> set slots \<Longrightarrow> Some q \<in> set hash \<Longrightarrow> o_sha1 (heap ! p) \<noteq> o_sha1 (heap ! q)"
  shows "\<exists>hash'. reinsert heap slots hash = Some hash' \<and> objs.table_ok heap hash' \<and>
    length hash' = length hash \<and> occupied hash' = occupied hash + occupied slots \<and>
    set hash' - {None} = set hash \<union> set slots - {None}"
  using assms
proof (induction heap slots hash rule: reinsert.induct)
  case (2 heap slots hash)
  have "\<exists>hash'. reinsert heap slots hash = Some hash' \<and> objs.table_ok heap hash' \<and>
    length hash' = length hash \<and> occupied hash' = occupied hash + occupied slots \<and>
    set hash' - {None} = set hash \<union> set slots - {None}"
  proof (rule 2(1))
    show "i = j" if "i < length slots" "j < length slots" "slots ! i = Some p" "slots ! j = Some q"
      "o_sha1 (heap ! p) = o_sha1 (heap ! q)" for i j p q
      using 2(4) [of "Suc i" "Suc j" p q] that by simp
  qed (use 2(2,3,5) in \<open>auto simp: occupied_def\<close>)
  then show ?case by (simp add: occupied_def)
next
  case (3 heap obj slots hash)
  have "occupied (Some obj # slots) = Suc (occupied slots)" by (simp add: occupied_def)
  have "\<nexists>p. objs.entry heap hash (o_sha1 (heap ! obj)) p"
  proof
    assume "\<exists>p. objs.entry heap hash (o_sha1 (heap ! obj)) p"
    then obtain p where "Some p \<in> set hash" "o_sha1 (heap ! p) = o_sha1 (heap ! obj)"
      by (auto simp: objs.entry_def)
    then show False using 3(5) [of obj p] by simp
  qed
  then obtain hash1 where h1: "insert_obj_hash heap obj hash = Some hash1" "objs.table_ok heap hash1"
    "length hash1 = length hash" "occupied hash1 = Suc (occupied hash)"
    "\<And>p. Some p \<in> set hash1 \<longleftrightarrow> p = obj \<or> Some p \<in> set hash"
    using insert_obj_hash_wf [OF 3(2)] 3(3) by (metis add_lessD1)
  have "\<exists>hash'. reinsert heap slots hash1 = Some hash' \<and> objs.table_ok heap hash' \<and>
    length hash' = length hash1 \<and> occupied hash' = occupied hash1 + occupied slots \<and>
    set hash' - {None} = set hash1 \<union> set slots - {None}"
  proof (rule 3(1) [OF h1(1,2)])
    show "i = j" if "i < length slots" "j < length slots" "slots ! i = Some p" "slots ! j = Some q"
      "o_sha1 (heap ! p) = o_sha1 (heap ! q)" for i j p q
      using 3(4) [of "Suc i" "Suc j" p q] that by simp
    show "o_sha1 (heap ! p) \<noteq> o_sha1 (heap ! q)" if pq: "Some p \<in> set slots" "Some q \<in> set hash1" for p q
    proof (cases "q = obj")
      case True
      obtain i where i: "i < length slots" "slots ! i = Some p"
        using pq(1) by (auto simp: in_set_conv_nth)
      then show ?thesis using 3(4) [of "Suc i" 0 p obj] True by auto
    next
      case False
      then show ?thesis using 3(5) [of p q] pq h1(5) by simp
    qed
  qed (use 3(3) h1(3,4) in \<open>simp add: occupied_def\<close>)
  moreover have "set hash1 - {None} = set hash \<union> {Some obj} - {None}"
  proof (rule set_eqI)
    fix x
    show "x \<in> set hash1 - {None} \<longleftrightarrow> x \<in> set hash \<union> {Some obj} - {None}"
      using h1(5) by (cases x) auto
  qed
  ultimately show ?case using h1(1,3,4) by (auto simp: occupied_def)
qed (simp add: occupied_def)

lemma table_ok_heap:
  assumes "objs.table_ok heap hash" and "\<And>p. Some p \<in> set hash \<Longrightarrow> o_sha1 (heap' ! p) = o_sha1 (heap ! p)"
  shows "objs.table_ok heap' hash"
proof -
  have "o_sha1 (heap' ! p) = o_sha1 (heap ! p)" if "j < length hash" "hash ! j = Some p" for j p
    using assms(2) [of p] nth_mem [OF that(1)] that(2) by simp
  then show ?thesis
    using assms(1) unfolding objs.table_ok_def by (simp add: objs.reach_def)
qed

lemma grow_object_hash_wf:
  assumes "obj_wf s"
  shows "\<exists>h. grow_object_hash s = Some (s\<lparr>obj_hash := h\<rparr>) \<and> obj_wf (s\<lparr>obj_hash := h\<rparr>) \<and>
    2 * nr_objs s + 2 \<le> length h \<and> (\<forall>p. Some p \<in> set h \<longleftrightarrow> Some p \<in> set (obj_hash s))"
proof -
  let ?n = "if length (obj_hash s) < 32 then 32 else 2 * length (obj_hash s)"
  have ok: "objs.table_ok (os_heap s) (obj_hash s)" and nr: "occupied (obj_hash s) = nr_objs s"
    and half: "2 * nr_objs s \<le> length (obj_hash s)"
    using assms by (auto simp: obj_wf_def)
  have "\<exists>h. reinsert (os_heap s) (obj_hash s) (replicate ?n None) = Some h \<and>
      objs.table_ok (os_heap s) h \<and> length h = length (replicate ?n (None :: nat option)) \<and>
      occupied h = occupied (replicate ?n (None :: nat option)) + occupied (obj_hash s) \<and>
      set h - {None} = set (replicate ?n None) \<union> set (obj_hash s) - {None}"
  proof (rule reinsert_wf)
    show "occupied (replicate ?n (None :: nat option)) + occupied (obj_hash s) < length (replicate ?n (None :: nat option))"
      using half unfolding nr by auto
  qed (use objs.table_ok_empty objs.table_okD(2) [OF ok] in auto)
  then obtain h where h: "reinsert (os_heap s) (obj_hash s) (replicate ?n None) = Some h"
      "objs.table_ok (os_heap s) h" "length h = ?n" "occupied h = nr_objs s"
      "set h - {None} = set (replicate ?n None) \<union> set (obj_hash s) - {None}"
    by (auto simp: nr)
  have "Some p \<in> set h \<longleftrightarrow> Some p \<in> set h - {None}" for p by simp
  then have mem: "Some p \<in> set h \<longleftrightarrow> Some p \<in> set (obj_hash s)" for p
    unfolding h(5) by auto
  have "2 * nr_objs s + 2 \<le> length h" using half h(3) by auto
  moreover have "obj_wf (s\<lparr>obj_hash := h\<rparr>)"
    using assms h(2-4) half by (auto simp: obj_wf_def heap_ok_def mem)
  moreover have "grow_object_hash s = Some (s\<lparr>obj_hash := h\<rparr>)"
    using h(1) by (simp add: grow_object_hash_def Let_def)
  ultimately show ?thesis using mem by blast
qed

definition named :: "object \<Rightarrow> byte list \<Rightarrow> object" where
  "named ob sha1 = ob\<lparr>o_parsed := False, o_used := False, o_flags := 0, o_sha1 := sha1\<rparr>"

lemma create_object_wf:
  assumes wf: "obj_wf s" and len: "length sha1 = 20" and obj: "obj < length (os_heap s)"
    and fresh: "Some obj \<notin> set (obj_hash s)" and new: "\<nexists>p. known s sha1 p"
  shows "\<exists>h. create_object s sha1 obj = Some (s\<lparr>os_heap := (os_heap s)[obj := named (os_heap s ! obj) sha1],
      obj_hash := h, nr_objs := nr_objs s + 1\<rparr>) \<and>
    obj_wf (s\<lparr>os_heap := (os_heap s)[obj := named (os_heap s ! obj) sha1], obj_hash := h, nr_objs := nr_objs s + 1\<rparr>) \<and>
    (\<forall>p. Some p \<in> set h \<longleftrightarrow> p = obj \<or> Some p \<in> set (obj_hash s))"
proof -
  define heap where "heap = (os_heap s)[obj := named (os_heap s ! obj) sha1]"
  define s1 where "s1 = s\<lparr>os_heap := heap\<rparr>"
  have key: "heap ! p = os_heap s ! p" if "Some p \<in> set (obj_hash s)" for p
    using fresh that by (cases "p = obj") (auto simp: heap_def)
  have name: "o_sha1 (heap ! obj) = sha1" using obj by (simp add: heap_def named_def)
  have wf1: "obj_wf s1"
    using wf table_ok_heap [of "os_heap s" "obj_hash s" heap] key
    by (auto simp: obj_wf_def s1_def heap_ok_def heap_def [symmetric]) (simp add: heap_def)
  obtain h where h: "(if int (length (obj_hash s1)) - 1 \<le> int (nr_objs s1) * 2 then grow_object_hash s1 else Some s1)
        = Some (s1\<lparr>obj_hash := h\<rparr>)"
      "obj_wf (s1\<lparr>obj_hash := h\<rparr>)" "2 * nr_objs s + 2 \<le> length h"
      "\<And>p. Some p \<in> set h \<longleftrightarrow> Some p \<in> set (obj_hash s)"
  proof (cases "int (length (obj_hash s1)) - 1 \<le> int (nr_objs s1) * 2")
    case True
    then show thesis using grow_object_hash_wf [OF wf1] that by (auto simp: s1_def)
  next
    case False
    then show thesis using that [of "obj_hash s"] wf1 by (simp add: s1_def)
  qed
  have "objs.table_ok heap h" "occupied h = nr_objs s" "heap_ok heap h"
    using h(2) by (auto simp: obj_wf_def s1_def)
  moreover have "\<nexists>p. objs.entry heap h (o_sha1 (heap ! obj)) p"
  proof
    assume "\<exists>p. objs.entry heap h (o_sha1 (heap ! obj)) p"
    then obtain p where "Some p \<in> set (obj_hash s)" "o_sha1 (heap ! p) = sha1"
      unfolding objs.entry_def h(4) name by blast
    then show False using new key by (auto simp: known_def)
  qed
  ultimately obtain h' where h': "insert_obj_hash heap obj h = Some h'" "objs.table_ok heap h'"
      "length h' = length h" "occupied h' = Suc (nr_objs s)"
      "\<And>p. Some p \<in> set h' \<longleftrightarrow> p = obj \<or> Some p \<in> set h"
    using insert_obj_hash_wf [of heap h obj] h(3) by auto
  have create: "create_object s sha1 obj = Some (s\<lparr>os_heap := heap, obj_hash := h', nr_objs := nr_objs s + 1\<rparr>)"
  proof -
    have "create_object s sha1 obj =
       (case (if int (length (obj_hash s1)) - 1 \<le> int (nr_objs s1) * 2 then grow_object_hash s1 else Some s1) of
          None \<Rightarrow> None
        | Some s \<Rightarrow> (case insert_obj_hash (os_heap s) obj (obj_hash s) of None \<Rightarrow> None
            | Some h \<Rightarrow> Some (s\<lparr>obj_hash := h, nr_objs := nr_objs s + 1\<rparr>)))"
      by (simp only: create_object_def Let_def named_def s1_def heap_def)
    also have "\<dots> = Some (s\<lparr>os_heap := heap, obj_hash := h', nr_objs := nr_objs s + 1\<rparr>)"
      unfolding h(1) by (simp add: h'(1) s1_def)
    finally show ?thesis .
  qed
  have "heap_ok heap h'"
    unfolding heap_ok_def h'(5)
  proof (intro allI impI)
    fix p assume "p = obj \<or> Some p \<in> set h"
    then show "p < length heap \<and> length (o_sha1 (heap ! p)) = 20"
    proof
      assume "p = obj"
      then show ?thesis using len obj name by (simp only: heap_def length_list_update)
    qed (use \<open>heap_ok heap h\<close> in \<open>simp add: heap_ok_def\<close>)
  qed
  moreover have "32 \<le> length h'" using h(2,3) h'(3) by (auto simp: obj_wf_def)
  moreover have "2 * (nr_objs s + 1) \<le> length h'" using h(3) h'(3) by simp
  ultimately have "obj_wf (s\<lparr>os_heap := heap, obj_hash := h', nr_objs := nr_objs s + 1\<rparr>)"
    using h'(2,4) by (simp add: obj_wf_def)
  then show ?thesis using create h'(5) h(4) unfolding heap_def by blast
qed

section \<open>Looking up and creating\<close>

text \<open>What all allocators do: a new object behind the others, nothing else changed.\<close>

definition allocates :: "(object_store \<Rightarrow> object_store \<times> nat) \<Rightarrow> int \<Rightarrow> bool" where
  "allocates alloc type \<longleftrightarrow> (\<forall>s. \<exists>ob c. o_type ob = type \<and>
     alloc s = (s\<lparr>os_heap := os_heap s @ [ob], commit_count := c\<rparr>, length (os_heap s)))"

lemma allocates:
  "allocates alloc_blob_node OBJ_BLOB" "allocates alloc_tree_node OBJ_TREE"
  "allocates alloc_tag_node OBJ_TAG" "allocates alloc_object_node OBJ_NONE"
  "allocates alloc_commit_node OBJ_COMMIT"
proof -
  let ?o = "\<lambda>t i. \<lparr>o_parsed = False, o_used = False, o_type = t, o_flags = 0, o_sha1 = replicate 20 0, o_index = i\<rparr>"
  have *: "s\<lparr>os_heap := h\<rparr> = s\<lparr>os_heap := h, commit_count := commit_count s\<rparr>" for s :: object_store and h
    by simp
  show "allocates alloc_blob_node OBJ_BLOB" "allocates alloc_tree_node OBJ_TREE"
    "allocates alloc_tag_node OBJ_TAG" "allocates alloc_object_node OBJ_NONE"
    unfolding allocates_def alloc_blob_node_def alloc_tree_node_def alloc_tag_node_def
      alloc_object_node_def alloc_node_def by (metis * object.select_convs(3))+
  have "o_type (?o OBJ_COMMIT (commit_count s)) = OBJ_COMMIT \<and>
      alloc_commit_node s = (s\<lparr>os_heap := os_heap s @ [?o OBJ_COMMIT (commit_count s)],
        commit_count := commit_count s + 1\<rparr>, length (os_heap s))" for s
    by (simp add: alloc_commit_node_def alloc_node_def set_index_def alloc_commit_index_def)
  then show "allocates alloc_commit_node OBJ_COMMIT" unfolding allocates_def by blast
qed

text \<open>Changing fields other than the name leaves the table alone.\<close>

definition same_names :: "object_store \<Rightarrow> object_store \<Rightarrow> bool" where
  "same_names s s' \<longleftrightarrow> obj_hash s' = obj_hash s \<and> nr_objs s' = nr_objs s \<and>
     length (os_heap s) \<le> length (os_heap s') \<and>
     (\<forall>p < length (os_heap s). o_sha1 (os_heap s' ! p) = o_sha1 (os_heap s ! p))"

lemma same_names_wf:
  assumes "same_names s s'" and "obj_wf s"
  shows "obj_wf s'" and "known s' k p = known s k p"
proof -
  have hp: "p < length (os_heap s)" if "Some p \<in> set (obj_hash s)" for p
    using assms(2) that by (simp add: obj_wf_def heap_ok_def)
  then have "objs.table_ok (os_heap s') (obj_hash s)"
    using assms table_ok_heap [of "os_heap s" "obj_hash s" "os_heap s'"]
    by (simp add: same_names_def obj_wf_def)
  moreover have "heap_ok (os_heap s') (obj_hash s)"
    unfolding heap_ok_def
  proof (intro allI impI)
    fix p assume "Some p \<in> set (obj_hash s)"
    with hp [OF this] assms show "p < length (os_heap s') \<and> length (o_sha1 (os_heap s' ! p)) = 20"
      unfolding same_names_def obj_wf_def heap_ok_def by (metis order_less_le_trans)
  qed
  ultimately show "obj_wf s'" using assms unfolding same_names_def obj_wf_def by simp
  show "known s' k p = known s k p"
    using assms(1) hp [of p] by (auto simp: known_def same_names_def)
qed

lemma object_as_type_same_names:
  assumes "p < length (os_heap s)"
  shows "same_names s (fst (object_as_type s p type))"
  by (auto simp: object_as_type_def same_names_def set_index_def alloc_commit_index_def Let_def
      nth_list_update assms)

lemma object_as_type_types:
  assumes "p < length (os_heap s)"
  shows "q < length (os_heap s) \<Longrightarrow> o_type (os_heap s ! q) \<noteq> OBJ_NONE \<Longrightarrow>
      o_type (os_heap (fst (object_as_type s p type)) ! q) = o_type (os_heap s ! q)"
    and "case snd (object_as_type s p type) of
      None \<Rightarrow> o_type (os_heap s ! p) \<notin> {OBJ_NONE, type}
    | Some r \<Rightarrow> r = p \<and> o_type (os_heap s ! p) \<in> {OBJ_NONE, type} \<and>
        o_type (os_heap (fst (object_as_type s p type)) ! p) = type"
  using assms by (auto simp: object_as_type_def set_index_def alloc_commit_index_def Let_def nth_list_update)

lemma lookup_or_create_wf:
  assumes wf: "obj_wf s" and len: "length sha1 = 20" and al: "allocates alloc type"
  shows "(\<exists>s1 p. known s sha1 p \<and> p < length (os_heap s) \<and> os_heap s1 = os_heap s \<and> obj_wf s1 \<and>
      (\<forall>k q. known s1 k q = known s k q) \<and>
      lookup_or_create alloc found s sha1 = Some (found s1 p)) \<or>
    (\<exists>s' ob. (\<nexists>p. known s sha1 p) \<and> lookup_or_create alloc found s sha1 = Some (s', Some (length (os_heap s))) \<and>
      obj_wf s' \<and> os_heap s' = os_heap s @ [named ob sha1] \<and> o_type ob = type \<and>
      (\<forall>k q. known s' k q \<longleftrightarrow> k = sha1 \<and> q = length (os_heap s) \<or> known s k q))"
proof -
  obtain s1 r where l: "lookup_object s sha1 = Some (s1, r)" "obj_wf s1" "os_heap s1 = os_heap s"
      "\<forall>k p. known s1 k p \<longleftrightarrow> known s k p" "\<forall>p. known s sha1 p \<longleftrightarrow> r = Some p"
    using lookup_object_wf [OF wf len] by blast
  have mem: "p < length (os_heap s)" if "known s k p" for k p
    using that wf by (simp add: known_def obj_wf_def heap_ok_def)
  show ?thesis
  proof (cases r)
    case (Some p)
    then have "known s sha1 p" using l(5) by simp
    note mem [OF this]
    then show ?thesis using l Some by (auto simp: lookup_or_create_def)
  next
    case None
    obtain ob c where a: "o_type ob = type"
      "alloc s1 = (s1\<lparr>os_heap := os_heap s1 @ [ob], commit_count := c\<rparr>, length (os_heap s1))"
      using al unfolding allocates_def by blast
    let ?p = "length (os_heap s1)"
    define s2 where "s2 = s1\<lparr>os_heap := os_heap s1 @ [ob], commit_count := c\<rparr>"
    have sn: "same_names s1 s2" by (simp add: same_names_def s2_def nth_append)
    have wf2: "obj_wf s2" and k2: "\<And>k p. known s2 k p = known s1 k p"
      using same_names_wf [OF sn l(2)] by auto
    have fresh: "Some ?p \<notin> set (obj_hash s2)"
      using l(2) by (auto simp: s2_def obj_wf_def heap_ok_def)
    have hp: "(os_heap s2)[?p := named (os_heap s2 ! ?p) sha1] = os_heap s @ [named ob sha1]"
      by (simp add: s2_def l(3))
    obtain h where h: "create_object s2 sha1 ?p = Some (s2\<lparr>os_heap := os_heap s @ [named ob sha1],
          obj_hash := h, nr_objs := nr_objs s2 + 1\<rparr>)"
        "obj_wf (s2\<lparr>os_heap := os_heap s @ [named ob sha1], obj_hash := h, nr_objs := nr_objs s2 + 1\<rparr>)"
        "\<forall>p. Some p \<in> set h \<longleftrightarrow> p = ?p \<or> Some p \<in> set (obj_hash s2)"
      using create_object_wf [OF wf2 len _ fresh] k2 l(4,5) None unfolding hp
      by (auto simp: s2_def)
    have hs: "Some p \<in> set h \<longleftrightarrow> p = length (os_heap s) \<or> Some p \<in> set (obj_hash s1)" for p
      using h(3) l(3) by (simp add: s2_def)
    have old: "p < length (os_heap s)" if "Some p \<in> set (obj_hash s1)" for p
      using l(2,3) that by (simp add: obj_wf_def heap_ok_def)
    have kn: "known (s2\<lparr>os_heap := os_heap s @ [named ob sha1], obj_hash := h, nr_objs := nr_objs s2 + 1\<rparr>) k q \<longleftrightarrow>
        k = sha1 \<and> q = length (os_heap s) \<or> known s1 k q" for k q
      using old [of q] hs [of q] l(3) by (auto simp: known_def nth_append named_def)
    have "alloc s1 = (s2, ?p)" using a(2) by (simp only: s2_def)
    then have "lookup_or_create alloc found s sha1 = Some (s2\<lparr>os_heap := os_heap s @ [named ob sha1],
        obj_hash := h, nr_objs := nr_objs s2 + 1\<rparr>, Some (length (os_heap s)))"
      using h(1) l(1,3) None by (simp add: lookup_or_create_def)
    moreover have "\<nexists>p. known s sha1 p" using l(5) None by simp
    ultimately show ?thesis
      using h(2) a(1) kn l(4) by (intro disjI2 exI conjI) (assumption | simp)+
  qed
qed

section \<open>Properties\<close>

lemma known_unique: "obj_wf s \<Longrightarrow> known s k p \<Longrightarrow> known s k q \<Longrightarrow> q = p"
  unfolding known_entry by (metis obj_wf_def objs.entry_unique)

text \<open>
  C5: \<open>lookup_unknown_object\<close> always returns; it returns the object the
  table has under the name or enters a new one, and every other name keeps its object.
\<close>

theorem lookup_unknown_once:
  assumes "obj_wf s" and "length sha1 = 20"
  shows "\<exists>s' p. lookup_unknown_object s sha1 = Some (s', Some p) \<and> obj_wf s' \<and>
    o_sha1 (os_heap s' ! p) = sha1 \<and> (\<forall>q. known s sha1 q \<longrightarrow> q = p) \<and>
    (\<forall>k q. known s' k q \<longleftrightarrow> k = sha1 \<and> q = p \<or> known s k q)"
proof -
  note unique = known_unique [OF assms(1)]
  from lookup_or_create_wf [OF assms allocates(4), of "\<lambda>s obj. (s, Some obj)"]
  show ?thesis
  proof (elim disjE exE conjE)
    fix s1 p
    assume "known s sha1 p" "os_heap s1 = os_heap s" "obj_wf s1" "\<forall>k q. known s1 k q = known s k q"
      "lookup_or_create alloc_object_node (\<lambda>s obj. (s, Some obj)) s sha1 = Some (s1, Some p)"
    then show ?thesis
      using unique by (intro exI [of _ s1] exI [of _ p]) (auto simp: lookup_unknown_object_def known_def)
  next
    fix s' ob
    assume a: "\<nexists>p. known s sha1 p" "obj_wf s'" "os_heap s' = os_heap s @ [named ob sha1]"
      "lookup_or_create alloc_object_node (\<lambda>s obj. (s, Some obj)) s sha1 = Some (s', Some (length (os_heap s)))"
      "\<forall>k q. known s' k q \<longleftrightarrow> k = sha1 \<and> q = length (os_heap s) \<or> known s k q"
    then show ?thesis
      by (intro exI [of _ s'] exI [of _ "length (os_heap s)"]) (auto simp: lookup_unknown_object_def named_def)
  qed
qed

lemma lookup_unknown_once_witness:
  "\<exists>s' p. lookup_unknown_object no_objects (replicate 20 7) = Some (s', Some p) \<and> obj_wf s' \<and>
    o_sha1 (os_heap s' ! p) = replicate 20 7"
  using lookup_unknown_once [OF obj_wf_no_objects, of "replicate 20 7"] by auto

text \<open>
  C18: a lookup of a blob, tree, commit or tag always returns. When the table has an object of the name, it
  is this object that is returned, unless it has another type: then, and only then, the result is NULL. When there is
  none, a new object is entered and returned. The object returned is in the table under the name and has the type; no
  object that has a type ever loses it, and no other name is affected.
\<close>

theorem objects_keep_type:
  assumes "obj_wf s" and "length sha1 = 20"
    and "(lookup, type) \<in> {(lookup_blob, OBJ_BLOB), (lookup_tree, OBJ_TREE),
      (lookup_commit, OBJ_COMMIT), (lookup_tag, OBJ_TAG)}"
  shows "\<exists>s' r. lookup s sha1 = Some (s', r) \<and> obj_wf s' \<and>
    (\<forall>k q. k \<noteq> sha1 \<longrightarrow> known s' k q = known s k q) \<and>
    (\<forall>q < length (os_heap s). o_type (os_heap s ! q) \<noteq> OBJ_NONE \<longrightarrow>
       o_type (os_heap s' ! q) = o_type (os_heap s ! q)) \<and>
    (\<forall>q. known s sha1 q \<longrightarrow> known s' sha1 q \<and>
       r = (if o_type (os_heap s ! q) \<in> {OBJ_NONE, type} then Some q else None)) \<and>
    ((\<nexists>q. known s sha1 q) \<longrightarrow> r = Some (length (os_heap s))) \<and>
    (\<forall>p. r = Some p \<longrightarrow> known s' sha1 p \<and> o_type (os_heap s' ! p) = type)"
proof -
  obtain alloc where l: "lookup = lookup_or_create alloc (\<lambda>s obj. object_as_type s obj type)"
    and al: "allocates alloc type"
    using assms(3) allocates
    by (auto simp: lookup_blob_def lookup_tree_def lookup_commit_def lookup_tag_def)
  from lookup_or_create_wf [OF assms(1,2) al, of "\<lambda>s obj. object_as_type s obj type"]
  show ?thesis
  proof (elim disjE exE conjE)
    fix s1 p
    assume a: "known s sha1 p" "p < length (os_heap s)" "os_heap s1 = os_heap s" "obj_wf s1"
      "\<forall>k q. known s1 k q = known s k q"
      "lookup_or_create alloc (\<lambda>s obj. object_as_type s obj type) s sha1 = Some (object_as_type s1 p type)"
    obtain s' r where o: "object_as_type s1 p type = (s', r)" by (metis prod.collapse)
    have p: "p < length (os_heap s1)" using a(2,3) by simp
    have sn: "same_names s1 s'" using object_as_type_same_names [OF p, of type] o by simp
    note sn_wf = same_names_wf [OF sn a(4)]
    have run: "lookup s sha1 = Some (s', r)" using a(6) o l by simp
    have kept: "\<forall>q < length (os_heap s). o_type (os_heap s ! q) \<noteq> OBJ_NONE \<longrightarrow>
       o_type (os_heap s' ! q) = o_type (os_heap s ! q)"
      using object_as_type_types(1) [OF p, of _ type] o a(3) by simp
    have r: "r = (if o_type (os_heap s ! p) \<in> {OBJ_NONE, type} then Some p else None)"
      and got: "\<forall>q. r = Some q \<longrightarrow> q = p \<and> o_type (os_heap s' ! p) = type"
      using object_as_type_types(2) [OF p, of type] o a(3) by (auto split: option.splits)
    have known: "known s' k q = known s k q" for k q using sn_wf(2) a(5) by simp
    have only: "q = p" if "known s sha1 q" for q by (rule known_unique [OF assms(1) a(1) that])
    have others: "\<forall>k q. k \<noteq> sha1 \<longrightarrow> known s' k q = known s k q" using known by simp
    have result: "\<forall>q. known s sha1 q \<longrightarrow> known s' sha1 q \<and> r = (if o_type (os_heap s ! q) \<in> {OBJ_NONE, type} then Some q else None)"
    proof (intro allI impI)
      fix q assume q: "known s sha1 q"
      then have "q = p" by (rule only)
      then show "known s' sha1 q \<and> r = (if o_type (os_heap s ! q) \<in> {OBJ_NONE, type} then Some q else None)"
        using r q known by (simp only: simp_thms)
    qed
    have new: "(\<nexists>q. known s sha1 q) \<longrightarrow> r = Some (length (os_heap s))" using a(1) by blast
    have typed: "\<forall>x. r = Some x \<longrightarrow> known s' sha1 x \<and> o_type (os_heap s' ! x) = type"
      using got a(1) unfolding known by blast
    show ?thesis
      by (rule exI [of _ s'], rule exI [of _ r]) (intro conjI run sn_wf(1) others kept result new typed)
  next
    fix s' ob
    assume a: "\<nexists>p. known s sha1 p" "obj_wf s'" "os_heap s' = os_heap s @ [named ob sha1]" "o_type ob = type"
      "lookup_or_create alloc (\<lambda>s obj. object_as_type s obj type) s sha1 = Some (s', Some (length (os_heap s)))"
      "\<forall>k q. known s' k q \<longleftrightarrow> k = sha1 \<and> q = length (os_heap s) \<or> known s k q"
    then show ?thesis
      using l by (intro exI [of _ s'] exI [of _ "Some (length (os_heap s))"]) (auto simp: nth_append named_def)
  qed
qed

lemma objects_keep_type_witness:
  "\<exists>s' r. lookup_blob no_objects (replicate 20 7) = Some (s', Some r) \<and> obj_wf s' \<and>
     known s' (replicate 20 7) r \<and> o_type (os_heap s' ! r) = OBJ_BLOB"
proof -
  have "\<nexists>q. known no_objects (replicate 20 7) q" by (simp add: known_def no_objects_def)
  then show ?thesis
    using objects_keep_type [OF obj_wf_no_objects, of "replicate 20 7" lookup_blob OBJ_BLOB] by auto
qed

section \<open>Names of types\<close>

text \<open>The two tables of type names are inverse to each other on the four real types.\<close>

lemma type_of_typename:
  "typename t = Some str \<Longrightarrow> type_from_string_gently str (- 1) gentle = Inr t"
proof -
  assume a: "typename t = Some str"
  then have "0 \<le> t" "t < 5" by (auto simp: typename_def object_type_strings_def split: if_splits)
  then consider "t = 0" | "t = 1" | "t = 2" | "t = 3" | "t = 4" by linarith
  then show ?thesis
    using a by cases (auto simp: typename_def object_type_strings_def type_from_string_gently_def numeral_eq_Suc)
qed

text \<open>
  A header of a loose object that says \<open>blob\<close>, NUL and a space makes the look-up of the
  type read behind the string of the table.
\<close>

lemma type_read_past_end:
  "type_from_string_gently (''blob'' @ [NUL]) 5 True = Inl Read_past_end"
  by (simp add: type_from_string_gently_def object_type_strings_def numeral_eq_Suc)

end
