(* ===== verification/Key_Table.thy ===== *)
theory Key_Table
  imports Git_Prelude
begin

text \<open>
  The contract of the associative containers (\<^verbatim>\<open>string-list.c\<close> on sorted lists, \<^verbatim>\<open>hashmap.c\<close>,
  \<^verbatim>\<open>decorate.c\<close>): after an update the key has the new value and no other key has changed, and the
  container stays well-formed. What clients do with a table is proved once from it.
\<close>

locale key_table =
  fixes empty :: 's
    and invar :: "'s \<Rightarrow> bool"
    and lookup :: "'s \<Rightarrow> 'k \<Rightarrow> 'v option"
    and update :: "'s \<Rightarrow> 'k \<Rightarrow> 'v \<Rightarrow> 's"
    and valid :: "'k \<Rightarrow> bool"
  assumes invar_empty: "invar empty"
    and lookup_empty: "valid k \<Longrightarrow> lookup empty k = None"
    and invar_update: "invar s \<Longrightarrow> valid k \<Longrightarrow> invar (update s k v)"
    and lookup_update: "invar s \<Longrightarrow> valid k \<Longrightarrow> valid k' \<Longrightarrow>
      lookup (update s k v) k' = (if k' = k then Some v else lookup s k')"
begin

lemma invar_updates:
  "invar s \<Longrightarrow> \<forall>(k, v) \<in> set kvs. valid k \<Longrightarrow> invar (foldl (\<lambda>s (k, v). update s k v) s kvs)"
  by (induction kvs arbitrary: s) (auto simp: invar_update)

lemma lookup_updates:
  "invar s \<Longrightarrow> \<forall>(k, v) \<in> set kvs. valid k \<Longrightarrow> valid k' \<Longrightarrow>
     lookup (foldl (\<lambda>s (k, v). update s k v) s kvs) k' =
       (case map_of (rev kvs) k' of None \<Rightarrow> lookup s k' | Some v \<Rightarrow> Some v)"
proof (induction kvs arbitrary: s)
  case (Cons kv kvs)
  then show ?case
    by (cases kv) (auto simp: invar_update lookup_update map_add_def split: option.splits)
qed simp

text \<open>A table filled from a list holds, for each key, the value that was stored last.\<close>

lemma lookup_filled:
  "\<forall>(k, v) \<in> set kvs. valid k \<Longrightarrow> valid k' \<Longrightarrow>
     lookup (foldl (\<lambda>s (k, v). update s k v) empty kvs) k' = map_of (rev kvs) k'"
  using lookup_updates [OF invar_empty] by (simp add: lookup_empty split: option.splits)

lemma update_commute:
  "invar s \<Longrightarrow> valid k1 \<Longrightarrow> valid k2 \<Longrightarrow> valid k \<Longrightarrow> k1 \<noteq> k2 \<Longrightarrow>
     lookup (update (update s k1 v1) k2 v2) k = lookup (update (update s k2 v2) k1 v1) k"
  by (simp add: invar_update lookup_update)

end

end
