(* ===== verification/Decorate.thy ===== *)
theory Decorate
  imports Object_Table Key_Table
begin

text \<open>
  Decorations (\<^verbatim>\<open>decorate.c\<close>): a table that attaches a pointer to objects, with open
  addressing. An object is a pointer, its home slot comes from its name, which
  \<open>sha1_of\<close> gives; a decoration is a pointer, \<open>None\<close> for NULL.
\<close>

record 'v decoration =
  dec_size :: nat
  dec_nr :: nat
  dec_hash :: "(nat \<times> 'v option) option list"

definition hash_obj :: "(nat \<Rightarrow> byte list) \<Rightarrow> nat \<Rightarrow> nat \<Rightarrow> nat" where
  "hash_obj sha1_of obj n = unat (sha1hash (sha1_of obj)) mod n"

text \<open>A slot with a NULL base is \<open>None\<close>.\<close>

definition insert_decoration ::
  "(nat \<Rightarrow> byte list) \<Rightarrow> 'v decoration \<Rightarrow> nat \<Rightarrow> 'v option \<Rightarrow> ('v decoration \<times> 'v option) option" where
  "insert_decoration sha1_of n base decor =
     (let hash = dec_hash n
      in case probe (\<lambda>j. case hash ! j of None \<Rightarrow> True | Some (b, d) \<Rightarrow> b = base)
                (dec_size n) (hash_obj sha1_of base (dec_size n)) of
           None \<Rightarrow> None
         | Some j \<Rightarrow>
             (case hash ! j of
                Some (b, old) \<Rightarrow> Some (n\<lparr>dec_hash := hash[j := Some (b, decor)]\<rparr>, old)
              | None \<Rightarrow> Some (n\<lparr>dec_hash := hash[j := Some (base, decor)], dec_nr := dec_nr n + 1\<rparr>, None)))"

fun reinsert_decorations ::
  "(nat \<Rightarrow> byte list) \<Rightarrow> (nat \<times> 'v option) option list \<Rightarrow> 'v decoration \<Rightarrow> 'v decoration option" where
  "reinsert_decorations sha1_of [] n = Some n"
| "reinsert_decorations sha1_of (None # slots) n = reinsert_decorations sha1_of slots n"
| "reinsert_decorations sha1_of (Some (base, None) # slots) n = reinsert_decorations sha1_of slots n"
| "reinsert_decorations sha1_of (Some (base, Some d) # slots) n =
     (case insert_decoration sha1_of n base (Some d) of
        None \<Rightarrow> None
      | Some (n, old) \<Rightarrow> reinsert_decorations sha1_of slots n)"

definition grow_decoration :: "(nat \<Rightarrow> byte list) \<Rightarrow> 'v decoration \<Rightarrow> 'v decoration option" where
  "grow_decoration sha1_of n =
     (let size = (dec_size n + 1000) * 3 div 2
      in reinsert_decorations sha1_of (dec_hash n)
           (n\<lparr>dec_size := size, dec_hash := replicate size None, dec_nr := 0\<rparr>))"

definition add_decoration ::
  "(nat \<Rightarrow> byte list) \<Rightarrow> 'v decoration \<Rightarrow> nat \<Rightarrow> 'v option \<Rightarrow> ('v decoration \<times> 'v option) option" where
  "add_decoration sha1_of n obj decor =
     (case (if dec_size n * 2 div 3 < dec_nr n + 1 then grow_decoration sha1_of n else Some n) of
        None \<Rightarrow> None
      | Some n \<Rightarrow> insert_decoration sha1_of n obj decor)"

definition lookup_decoration :: "(nat \<Rightarrow> byte list) \<Rightarrow> 'v decoration \<Rightarrow> nat \<Rightarrow> 'v option option" where
  "lookup_decoration sha1_of n obj =
     (if dec_size n = 0 then Some None
      else let hash = dec_hash n
           in case probe (\<lambda>j. case hash ! j of None \<Rightarrow> True | Some (b, d) \<Rightarrow> b = obj)
                     (dec_size n) (hash_obj sha1_of obj (dec_size n)) of
                None \<Rightarrow> None
              | Some j \<Rightarrow> (case hash ! j of None \<Rightarrow> Some None | Some (b, d) \<Rightarrow> Some d))"


section \<open>Lemmas\<close>

interpretation decs: open_address fst "hash_obj sha1_of" for sha1_of :: "nat \<Rightarrow> byte list"
  by unfold_locales (simp add: hash_obj_def)

definition dec_ok :: "(nat \<Rightarrow> byte list) \<Rightarrow> 'v decoration \<Rightarrow> bool" where
  "dec_ok sha1_of n \<longleftrightarrow> decs.table_ok sha1_of (dec_hash n) \<and> length (dec_hash n) = dec_size n \<and>
     occupied (dec_hash n) = dec_nr n"

definition dec_wf :: "(nat \<Rightarrow> byte list) \<Rightarrow> 'v decoration \<Rightarrow> bool" where
  "dec_wf sha1_of n \<longleftrightarrow> dec_ok sha1_of n \<and> dec_nr n \<le> dec_size n * 2 div 3"

definition decorated :: "'v decoration \<Rightarrow> nat \<Rightarrow> 'v option \<Rightarrow> bool" where
  "decorated n k d \<longleftrightarrow> Some (k, d) \<in> set (dec_hash n)"

lemma decorated_entry: "decorated n k d \<longleftrightarrow> decs.entry (dec_hash n) k (k, d)"
  by (simp add: decorated_def decs.entry_def)

lemma probe_decoration:
  assumes "dec_ok sha1_of n" and "dec_nr n < dec_size n"
  obtains j where "probe (\<lambda>j. case dec_hash n ! j of None \<Rightarrow> True | Some (b, d) \<Rightarrow> b = obj)
      (dec_size n) (hash_obj sha1_of obj (dec_size n)) = Some j"
    and "j < length (dec_hash n)" and "decs.reach sha1_of (dec_hash n) j obj"
    and "\<And>d. decorated n obj d \<longleftrightarrow> dec_hash n ! j = Some (obj, d)"
    and "dec_hash n ! j = None \<or> (\<exists>d. dec_hash n ! j = Some (obj, d))"
proof -
  let ?stop = "\<lambda>j. case dec_hash n ! j of None \<Rightarrow> True | Some (b, d) \<Rightarrow> b = obj"
  have ok: "decs.table_ok sha1_of (dec_hash n)" "occupied (dec_hash n) < length (dec_hash n)"
    and len: "length (dec_hash n) = dec_size n"
    using assms by (auto simp: dec_ok_def)
  obtain j where j: "probe ?stop (length (dec_hash n)) (hash_obj sha1_of obj (length (dec_hash n))) = Some j"
      "j < length (dec_hash n)" "decs.reach sha1_of (dec_hash n) j obj"
      "\<And>e. decs.entry (dec_hash n) obj e \<longleftrightarrow> dec_hash n ! j = Some e"
    by (rule decs.probe_key [OF ok, of ?stop obj]) (auto split: option.splits)
  moreover have "dec_hash n ! j = None \<or> (\<exists>d. dec_hash n ! j = Some (obj, d))"
  proof (cases "dec_hash n ! j")
    case (Some e)
    then have "decs.entry (dec_hash n) obj e" using j(4) by simp
    then have "fst e = obj" by (simp add: decs.entry_def)
    then show ?thesis using Some by (cases e) auto
  qed simp
  ultimately show thesis using that len by (simp add: decorated_entry)
qed

lemma insert_decoration_ok:
  assumes "dec_ok sha1_of n" and "dec_nr n < dec_size n"
  shows "\<exists>n' old. insert_decoration sha1_of n base d = Some (n', old) \<and> dec_ok sha1_of n' \<and>
    dec_size n' = dec_size n \<and> dec_nr n' \<le> dec_nr n + 1 \<and>
    (\<forall>k e. decorated n' k e \<longleftrightarrow> (if k = base then e = d else decorated n k e)) \<and>
    (\<forall>v. old = Some v \<longleftrightarrow> decorated n base (Some v))"
proof -
  obtain j where j: "probe (\<lambda>j. case dec_hash n ! j of None \<Rightarrow> True | Some (b, d) \<Rightarrow> b = base)
      (dec_size n) (hash_obj sha1_of base (dec_size n)) = Some j"
      "j < length (dec_hash n)" "decs.reach sha1_of (dec_hash n) j base"
      "\<And>d. decorated n base d \<longleftrightarrow> dec_hash n ! j = Some (base, d)"
      "dec_hash n ! j = None \<or> (\<exists>d. dec_hash n ! j = Some (base, d))"
    using probe_decoration [OF assms] by metis
  have ok: "decs.table_ok sha1_of (dec_hash n)" "length (dec_hash n) = dec_size n"
      "occupied (dec_hash n) = dec_nr n"
    using assms(1) by (auto simp: dec_ok_def)
  from j(5) show ?thesis
  proof (elim disjE exE)
    assume no: "dec_hash n ! j = None"
    let ?n = "n\<lparr>dec_hash := (dec_hash n)[j := Some (base, d)], dec_nr := dec_nr n + 1\<rparr>"
    have r: "insert_decoration sha1_of n base d = Some (?n, None)"
      by (simp add: insert_decoration_def j(1) no)
    have none: "\<nexists>e. decs.entry (dec_hash n) (fst (base, d)) e"
      using j(4) no by (auto simp: decs.entry_def decorated_def)
    have ins: "decs.table_ok sha1_of ((dec_hash n)[j := Some (base, d)])"
      by (rule decs.table_ok_insert [OF ok(1) j(2) no _ none]) (simp add: j(3))
    have "dec_ok sha1_of ?n"
      using ins ok(2,3) occupied_update [OF j(2) no, of "(base, d)"] by (simp add: dec_ok_def)
    moreover have "decorated ?n k e \<longleftrightarrow> (if k = base then e = d else decorated n k e)" for k e
      using decs.entry_insert [OF j(2) no, of "(base, d)" k "(k, e)"] j(4) no
      by (auto simp: decorated_entry)
    ultimately show ?thesis using r j(4) no by auto
  next
    fix c assume yes: "dec_hash n ! j = Some (base, c)"
    let ?n = "n\<lparr>dec_hash := (dec_hash n)[j := Some (base, d)]\<rparr>"
    have r: "insert_decoration sha1_of n base d = Some (?n, c)"
      by (simp add: insert_decoration_def j(1) yes)
    have "dec_ok sha1_of ?n"
      using decs.table_ok_replace [OF ok(1) j(2) yes, of "(base, d)"] ok(2,3)
        occupied_replace [of j "dec_hash n" "(base, d)"] j(2) yes
      by (simp add: dec_ok_def)
    moreover have "decorated ?n k e \<longleftrightarrow> (if k = base then e = d else decorated n k e)" for k e
      using decs.entry_replace [OF ok(1) j(2) yes, of "(base, d)" k "(k, e)"]
      by (auto simp: decorated_entry)
    ultimately show ?thesis using r j(4) yes by auto
  qed
qed

lemma reinsert_decorations_ok:
  assumes "dec_ok sha1_of n" and "dec_nr n + occupied slots < dec_size n"
    and "\<And>i j p q. i < length slots \<Longrightarrow> j < length slots \<Longrightarrow> slots ! i = Some p \<Longrightarrow> slots ! j = Some q \<Longrightarrow>
      fst p = fst q \<Longrightarrow> i = j"
    and "\<And>k d e. Some (k, d) \<in> set slots \<Longrightarrow> \<not> decorated n k e"
  shows "\<exists>n'. reinsert_decorations sha1_of slots n = Some n' \<and> dec_ok sha1_of n' \<and>
    dec_size n' = dec_size n \<and> dec_nr n' \<le> dec_nr n + occupied slots \<and>
    (\<forall>k v. decorated n' k (Some v) \<longleftrightarrow> Some (k, Some v) \<in> set slots \<or> decorated n k (Some v))"
  using assms
proof (induction sha1_of slots n rule: reinsert_decorations.induct)
  case (2 sha1_of slots n)
  have "i = j" if "i < length slots" "j < length slots" "slots ! i = Some p" "slots ! j = Some q"
      "fst p = fst q" for i j p q
    using 2(4) [of "Suc i" "Suc j" p q] that by simp
  moreover have "\<not> decorated n k e" if "Some (k, d) \<in> set slots" for k d e
    using 2(5) [of k d e] that by simp
  ultimately show ?case using 2(1-3) by (simp add: occupied_def)
next
  case (3 sha1_of base slots n)
  have "i = j" if "i < length slots" "j < length slots" "slots ! i = Some p" "slots ! j = Some q"
      "fst p = fst q" for i j p q
    using 3(4) [of "Suc i" "Suc j" p q] that by simp
  moreover have "\<not> decorated n k e" if "Some (k, d) \<in> set slots" for k d e
    using 3(5) [of k d e] that by simp
  moreover have "dec_nr n + occupied slots < dec_size n" using 3(3) by (simp add: occupied_def)
  ultimately obtain n' where "reinsert_decorations sha1_of slots n = Some n'" "dec_ok sha1_of n'"
    "dec_size n' = dec_size n" "dec_nr n' \<le> dec_nr n + occupied slots"
    "\<forall>k v. decorated n' k (Some v) \<longleftrightarrow> Some (k, Some v) \<in> set slots \<or> decorated n k (Some v)"
    using 3(1) [OF 3(2)] by blast
  then show ?case by (auto simp: occupied_def)
next
  case (4 sha1_of base d slots n)
  have occ: "occupied (Some (base, Some d) # slots) = Suc (occupied slots)" by (simp add: occupied_def)
  obtain n1 old where n1: "insert_decoration sha1_of n base (Some d) = Some (n1, old)" "dec_ok sha1_of n1"
    "dec_size n1 = dec_size n" "dec_nr n1 \<le> dec_nr n + 1"
    "\<And>k e. decorated n1 k e \<longleftrightarrow> (if k = base then e = Some d else decorated n k e)"
    using insert_decoration_ok [OF 4(2), of base "Some d"] 4(3) unfolding occ by auto
  have new: "k \<noteq> base" if kd: "Some (k, e) \<in> set slots" for k e
  proof
    assume "k = base"
    with kd obtain i where "i < length slots" "slots ! i = Some (base, e)" by (auto simp: in_set_conv_nth)
    then show False using 4(4) [of "Suc i" 0 "(base, e)" "(base, Some d)"] by simp
  qed
  have "i = j" if "i < length slots" "j < length slots" "slots ! i = Some p" "slots ! j = Some q"
      "fst p = fst q" for i j p q
    using 4(4) [of "Suc i" "Suc j" p q] that by simp
  moreover have "\<not> decorated n1 k e" if "Some (k, d) \<in> set slots" for k d e
    using 4(5) [of k d e] that new [OF that] n1(5) by simp
  moreover have "dec_nr n1 + occupied slots < dec_size n1" using 4(3) n1(3,4) unfolding occ by simp
  ultimately obtain n' where n': "reinsert_decorations sha1_of slots n1 = Some n'" "dec_ok sha1_of n'"
    "dec_size n' = dec_size n1" "dec_nr n' \<le> dec_nr n1 + occupied slots"
    "\<forall>k v. decorated n' k (Some v) \<longleftrightarrow> Some (k, Some v) \<in> set slots \<or> decorated n1 k (Some v)"
    using 4(1) [OF n1(1) refl n1(2)] by blast
  have "decorated n' k (Some v) \<longleftrightarrow>
      Some (k, Some v) \<in> set (Some (base, Some d) # slots) \<or> decorated n k (Some v)" for k v
    using n'(5) n1(5) 4(5) [of base "Some d"] by auto
  then show ?case using n' n1(1,3,4) by (auto simp: occ)
qed (simp add: occupied_def)

lemma add_decoration_wf:
  assumes "dec_wf sha1_of n"
  shows "\<exists>n' old. add_decoration sha1_of n obj d = Some (n', old) \<and> dec_wf sha1_of n' \<and>
    (\<forall>k v. decorated n' k (Some v) \<longleftrightarrow> (if k = obj then d = Some v else decorated n k (Some v))) \<and>
    (\<forall>v. old = Some v \<longleftrightarrow> decorated n obj (Some v))"
proof -
  have ok: "dec_ok sha1_of n" and room: "dec_nr n \<le> dec_size n * 2 div 3"
    using assms by (auto simp: dec_wf_def)
  obtain n1 where n1: "(if dec_size n * 2 div 3 < dec_nr n + 1 then grow_decoration sha1_of n else Some n) = Some n1"
      "dec_ok sha1_of n1" "dec_nr n1 + 1 \<le> dec_size n1 * 2 div 3"
      "\<And>k v. decorated n1 k (Some v) = decorated n k (Some v)"
  proof (cases "dec_size n * 2 div 3 < dec_nr n + 1")
    case True
    let ?size = "(dec_size n + 1000) * 3 div 2"
    let ?n = "n\<lparr>dec_size := ?size, dec_hash := replicate ?size None, dec_nr := 0\<rparr>"
    have old: "decs.table_ok sha1_of (dec_hash n)" "occupied (dec_hash n) = dec_nr n"
      using ok by (auto simp: dec_ok_def)
    have "\<exists>n'. reinsert_decorations sha1_of (dec_hash n) ?n = Some n' \<and> dec_ok sha1_of n' \<and>
      dec_size n' = dec_size ?n \<and> dec_nr n' \<le> dec_nr ?n + occupied (dec_hash n) \<and>
      (\<forall>k v. decorated n' k (Some v) \<longleftrightarrow> Some (k, Some v) \<in> set (dec_hash n) \<or> decorated ?n k (Some v))"
    proof (rule reinsert_decorations_ok)
      show "dec_ok sha1_of ?n" by (simp add: dec_ok_def decs.table_ok_empty)
      show "dec_nr ?n + occupied (dec_hash n) < dec_size ?n" using room old(2) by simp
      show "i = j" if "i < length (dec_hash n)" "j < length (dec_hash n)" "dec_hash n ! i = Some p"
        "dec_hash n ! j = Some q" "fst p = fst q" for i j p q
        using decs.table_okD(2) [OF old(1) that] .
    qed (simp add: decorated_def)
    then obtain n' where n': "reinsert_decorations sha1_of (dec_hash n) ?n = Some n'" "dec_ok sha1_of n'"
        "dec_size n' = ?size" "dec_nr n' \<le> dec_nr n"
        "\<forall>k v. decorated n' k (Some v) \<longleftrightarrow> Some (k, Some v) \<in> set (dec_hash n)"
      using old(2) by (auto simp: decorated_def)
    show thesis
    proof (rule that)
      show "(if dec_size n * 2 div 3 < dec_nr n + 1 then grow_decoration sha1_of n else Some n) = Some n'"
        using True n'(1) by (simp add: grow_decoration_def Let_def)
      show "dec_nr n' + 1 \<le> dec_size n' * 2 div 3" using n'(3,4) room by simp
    qed (use n'(2,5) in \<open>auto simp: decorated_def\<close>)
  next
    case False
    then show thesis using that [of n] ok by simp
  qed
  have "dec_nr n1 < dec_size n1" using n1(3) by linarith
  from insert_decoration_ok [OF n1(2) this, of obj d]
  obtain n' old where n': "insert_decoration sha1_of n1 obj d = Some (n', old)" "dec_ok sha1_of n'"
    "dec_size n' = dec_size n1" "dec_nr n' \<le> dec_nr n1 + 1"
    "\<forall>k e. decorated n' k e \<longleftrightarrow> (if k = obj then e = d else decorated n1 k e)"
    "\<forall>v. old = Some v \<longleftrightarrow> decorated n1 obj (Some v)"
    by blast
  have "dec_wf sha1_of n'" using n'(2-4) n1(3) by (simp add: dec_wf_def)
  moreover have "add_decoration sha1_of n obj d = Some (n', old)"
    unfolding add_decoration_def n1(1) by (simp add: n'(1))
  ultimately show ?thesis using n'(5,6) n1(4) by (auto split: if_splits)
qed

lemma lookup_decoration_wf:
  assumes "dec_wf sha1_of n"
  shows "\<exists>r. lookup_decoration sha1_of n obj = Some r \<and> (\<forall>v. r = Some v \<longleftrightarrow> decorated n obj (Some v))"
proof (cases "dec_size n = 0")
  case True
  then show ?thesis using assms by (simp add: lookup_decoration_def dec_wf_def dec_ok_def decorated_def)
next
  case False
  then have "dec_nr n < dec_size n" using assms by (auto simp: dec_wf_def)
  moreover have "dec_ok sha1_of n" using assms by (simp add: dec_wf_def)
  ultimately obtain j where j: "probe (\<lambda>j. case dec_hash n ! j of None \<Rightarrow> True | Some (b, d) \<Rightarrow> b = obj)
      (dec_size n) (hash_obj sha1_of obj (dec_size n)) = Some j"
      "\<And>d. decorated n obj d \<longleftrightarrow> dec_hash n ! j = Some (obj, d)"
      "dec_hash n ! j = None \<or> (\<exists>d. dec_hash n ! j = Some (obj, d))"
    using probe_decoration [of sha1_of n obj] by metis
  from j(3) show ?thesis
    using False j(1,2) by (auto simp: lookup_decoration_def)
qed

section \<open>Decorations as a table\<close>

definition no_decorations :: "'v decoration" where
  "no_decorations = \<lparr>dec_size = 0, dec_nr = 0, dec_hash = []\<rparr>"

definition dec_get :: "(nat \<Rightarrow> byte list) \<Rightarrow> 'v decoration \<Rightarrow> nat \<Rightarrow> 'v option" where
  "dec_get sha1_of n obj = (case lookup_decoration sha1_of n obj of Some r \<Rightarrow> r | None \<Rightarrow> None)"

definition dec_set :: "(nat \<Rightarrow> byte list) \<Rightarrow> 'v decoration \<Rightarrow> nat \<Rightarrow> 'v \<Rightarrow> 'v decoration" where
  "dec_set sha1_of n obj v = (case add_decoration sha1_of n obj (Some v) of Some (n', old) \<Rightarrow> n' | None \<Rightarrow> n)"

lemma dec_get_iff: "dec_wf sha1_of n \<Longrightarrow> dec_get sha1_of n obj = Some v \<longleftrightarrow> decorated n obj (Some v)"
proof -
  assume "dec_wf sha1_of n"
  from lookup_decoration_wf [OF this, of obj]
  obtain r where "lookup_decoration sha1_of n obj = Some r" "\<And>v. r = Some v \<longleftrightarrow> decorated n obj (Some v)"
    by blast
  then show ?thesis by (simp only: dec_get_def option.case)
qed

interpretation decorations: key_table no_decorations "dec_wf sha1_of" "dec_get sha1_of" "dec_set sha1_of" "\<lambda>_. True"
  for sha1_of
proof (unfold_locales, goal_cases)
  case 1
  then show ?case
    using decs.table_ok_empty [of sha1_of 0]
    by (simp add: dec_wf_def dec_ok_def no_decorations_def occupied_def)
next
  case (2 k)
  then show ?case by (simp add: dec_get_def lookup_decoration_def no_decorations_def)
next
  case (3 s k v)
  then show ?case using add_decoration_wf [OF 3(1), of k "Some v"] by (auto simp: dec_set_def)
next
  case (4 s k k' v)
  obtain n' old where n': "add_decoration sha1_of s k (Some v) = Some (n', old)" "dec_wf sha1_of n'"
    "\<forall>k' w. decorated n' k' (Some w) \<longleftrightarrow> (if k' = k then Some v = Some w else decorated s k' (Some w))"
    using add_decoration_wf [OF 4(1), of k "Some v"] by blast
  have "dec_get sha1_of n' k' = Some w \<longleftrightarrow> (if k' = k then Some v else dec_get sha1_of s k') = Some w" for w
    using n'(2,3) 4(1) by (auto simp: dec_get_iff)
  then have "dec_get sha1_of n' k' = (if k' = k then Some v else dec_get sha1_of s k')"
    by (metis option.exhaust)
  then show ?case by (simp add: dec_set_def n'(1))
qed

fun add_decorations ::
  "(nat \<Rightarrow> byte list) \<Rightarrow> 'v decoration \<Rightarrow> (nat \<times> 'v) list \<Rightarrow> 'v decoration option" where
  "add_decorations sha1_of n [] = Some n"
| "add_decorations sha1_of n ((obj, v) # kvs) =
     (case add_decoration sha1_of n obj (Some v) of
        None \<Rightarrow> None
      | Some (n', old) \<Rightarrow> add_decorations sha1_of n' kvs)"

lemma add_decorations_set:
  "dec_wf sha1_of n \<Longrightarrow> add_decorations sha1_of n kvs = Some (foldl (\<lambda>n (obj, v). dec_set sha1_of n obj v) n kvs)"
proof (induction sha1_of n kvs rule: add_decorations.induct)
  case (2 sha1_of n obj v kvs)
  obtain n' old where n': "add_decoration sha1_of n obj (Some v) = Some (n', old)" "dec_wf sha1_of n'"
    using add_decoration_wf [OF 2(2), of obj "Some v"] by blast
  then show ?case using 2(1) [OF n'(1) refl n'(2)] by (simp add: dec_set_def)
qed simp

text \<open>
  C16: adding any decorations to an empty table always returns, growth
  included, and then a look-up returns the decoration the object got last.
\<close>

theorem decorations_are_map:
  "\<exists>n. add_decorations sha1_of no_decorations kvs = Some n \<and>
     (\<forall>obj. lookup_decoration sha1_of n obj = Some (map_of (rev kvs) obj))"
proof -
  let ?n = "foldl (\<lambda>n (obj, v). dec_set sha1_of n obj v) no_decorations kvs"
  have wf: "dec_wf sha1_of ?n"
    by (rule decorations.invar_updates [OF decorations.invar_empty]) simp
  have "lookup_decoration sha1_of ?n obj = Some (map_of (rev kvs) obj)" for obj
  proof -
    obtain r where r: "lookup_decoration sha1_of ?n obj = Some r"
      using lookup_decoration_wf [OF wf] by blast
    have "dec_get sha1_of ?n obj = map_of (rev kvs) obj"
      by (rule decorations.lookup_filled) simp_all
    then show ?thesis using r by (simp add: dec_get_def)
  qed
  then show ?thesis using add_decorations_set [OF decorations.invar_empty] by blast
qed

end
