(* ===== verification/Object_Array.thy ===== *)
theory Object_Array
  imports Object_Table
begin

text \<open>
  The growing arrays of objects of \<^verbatim>\<open>object.c\<close>: appending, filtering in place and dropping
  entries whose name has been seen. \<open>oa_objects\<close> is the allocated memory, of which the first
  \<open>oa_nr\<close> entries are in use. A NULL name handed to \<open>strcmp\<close> is a result \<open>None\<close>.
\<close>

record object_array_entry =
  oae_item :: "nat option"
  oae_name :: "string option"
  oae_path :: "string option"
  oae_mode :: u32

record object_array =
  oa_nr :: nat
  oa_alloc :: nat
  oa_objects :: "object_array_entry list"

definition OBJECT_ARRAY_INIT :: object_array where
  "OBJECT_ARRAY_INIT = \<lparr>oa_nr = 0, oa_alloc = 0, oa_objects = []\<rparr>"

definition S_IFINVALID :: u32 where
  "S_IFINVALID = 0x3000"

text \<open>The memory a reallocation adds holds any entries; \<open>junk\<close> stands for them.\<close>

definition add_object_array_with_path ::
  "object_array_entry \<Rightarrow> nat option \<Rightarrow> string option \<Rightarrow> object_array \<Rightarrow> u32 \<Rightarrow> string option \<Rightarrow> object_array" where
  "add_object_array_with_path junk obj name array mode path =
     (let nr = oa_nr array;
          alloc = oa_alloc array;
          array = (if alloc \<le> nr
                   then array\<lparr>oa_alloc := (alloc + 32) * 2,
                        oa_objects := oa_objects array @ replicate ((alloc + 32) * 2 - alloc) junk\<rparr>
                   else array)
      in array\<lparr>oa_objects := (oa_objects array)
                 [nr := \<lparr>oae_item = obj, oae_name = name, oae_path = path, oae_mode = mode\<rparr>],
               oa_nr := nr + 1\<rparr>)"

definition add_object_array ::
  "object_array_entry \<Rightarrow> nat option \<Rightarrow> string option \<Rightarrow> object_array \<Rightarrow> object_array" where
  "add_object_array junk obj name array =
     add_object_array_with_path junk obj name array S_IFINVALID None"

function filter_loop ::
  "(object_array_entry \<Rightarrow> bool) \<Rightarrow> nat \<Rightarrow> nat \<Rightarrow> nat \<Rightarrow> object_array_entry list \<Rightarrow> nat \<times> object_array_entry list" where
  "filter_loop want nr src dst objects =
     (if src < nr
      then if want (objects ! src)
           then filter_loop want nr (src + 1) (dst + 1)
                  (if src \<noteq> dst then objects[dst := objects ! src] else objects)
           else filter_loop want nr (src + 1) dst objects
      else (dst, objects))"
  by pat_completeness auto

termination by (relation "measure (\<lambda>(want, nr, src, dst, objects). nr - src)") auto

declare filter_loop.simps [simp del]

definition object_array_filter :: "object_array \<Rightarrow> (object_array_entry \<Rightarrow> bool) \<Rightarrow> object_array" where
  "object_array_filter array want =
     (let (dst, objects) = filter_loop want (oa_nr array) 0 0 (oa_objects array)
      in array\<lparr>oa_objects := objects, oa_nr := dst\<rparr>)"

definition object_array_clear :: "object_array \<Rightarrow> object_array" where
  "object_array_clear array = array\<lparr>oa_objects := [], oa_nr := 0, oa_alloc := 0\<rparr>"

function contains_name_loop :: "object_array_entry list \<Rightarrow> nat \<Rightarrow> nat \<Rightarrow> string option \<Rightarrow> bool option" where
  "contains_name_loop objects nr i name =
     (if i < nr
      then case (oae_name (objects ! i), name) of
             (Some n, Some m) \<Rightarrow> if n = m then Some True else contains_name_loop objects nr (i + 1) name
           | _ \<Rightarrow> None
      else Some False)"
  by pat_completeness auto

termination by (relation "measure (\<lambda>(objects, nr, i, name). nr - i)") auto

declare contains_name_loop.simps [simp del]

definition contains_name :: "object_array_entry list \<Rightarrow> nat \<Rightarrow> string option \<Rightarrow> bool option" where
  "contains_name objects nr name = contains_name_loop objects nr 0 name"

function remove_duplicates_loop ::
  "nat \<Rightarrow> nat \<Rightarrow> nat \<Rightarrow> object_array_entry list \<Rightarrow> (nat \<times> object_array_entry list) option" where
  "remove_duplicates_loop nr src dst objects =
     (if src < nr
      then case contains_name objects dst (oae_name (objects ! src)) of
             None \<Rightarrow> None
           | Some True \<Rightarrow> remove_duplicates_loop nr (src + 1) dst objects
           | Some False \<Rightarrow> remove_duplicates_loop nr (src + 1) (dst + 1)
               (if src \<noteq> dst then objects[dst := objects ! src] else objects)
      else Some (dst, objects))"
  by pat_completeness auto

termination by (relation "measure (\<lambda>(nr, src, dst, objects). nr - src)") auto

declare remove_duplicates_loop.simps [simp del]

definition object_array_remove_duplicates :: "object_array \<Rightarrow> object_array option" where
  "object_array_remove_duplicates array =
     map_option (\<lambda>(dst, objects). array\<lparr>oa_objects := objects, oa_nr := dst\<rparr>)
       (remove_duplicates_loop (oa_nr array) 0 0 (oa_objects array))"

text \<open>Lists of objects: the newest entry is at the front.\<close>

definition object_list_insert :: "nat \<Rightarrow> nat list \<Rightarrow> nat list" where
  "object_list_insert item list = item # list"

fun object_list_contains :: "nat list \<Rightarrow> nat \<Rightarrow> bool" where
  "object_list_contains [] obj = False"
| "object_list_contains (item # list) obj = (if item = obj then True else object_list_contains list obj)"

section \<open>Lemmas\<close>

definition oa_ok :: "object_array \<Rightarrow> bool" where
  "oa_ok array \<longleftrightarrow> length (oa_objects array) = oa_alloc array \<and> oa_nr array \<le> oa_alloc array"

definition entries :: "object_array \<Rightarrow> object_array_entry list" where
  "entries array = take (oa_nr array) (oa_objects array)"

lemma add_object_array_with_path_entries:
  assumes "oa_ok array"
  shows "oa_ok (add_object_array_with_path junk obj name array mode path)"
    and "entries (add_object_array_with_path junk obj name array mode path) =
      entries array @ [\<lparr>oae_item = obj, oae_name = name, oae_path = path, oae_mode = mode\<rparr>]"
  using assms
  by (auto simp: add_object_array_with_path_def Let_def oa_ok_def entries_def take_Suc_conv_app_nth
      take_update_swap list_update_append nth_append split: if_splits)

text \<open>
  An in-place loop copies kept entries to the front; what is still to be read lies at or behind
  the write position.
\<close>

lemma take_Suc_update: "dst < length xs \<Longrightarrow> take (Suc dst) (xs[dst := x]) = take dst xs @ [x]"
  by (simp add: take_Suc_conv_app_nth)

lemma filter_loop_spec:
  assumes "dst \<le> src" and "src \<le> nr" and "nr \<le> length objects"
    and "filter_loop want nr src dst objects = (dst', objects')"
  shows "length objects' = length objects \<and> dst' \<le> nr \<and>
    take dst' objects' = take dst objects @ filter want (drop src (take nr objects))"
  using assms
proof (induction want nr src dst objects rule: filter_loop.induct)
  case (1 want nr src dst objects)
  show ?case
  proof (cases "src < nr")
    case True
    let ?x = "objects ! src"
    have d: "drop src (take nr objects) = ?x # drop (Suc src) (take nr objects)"
      using True 1(5) by (simp add: Cons_nth_drop_Suc [symmetric])
    show ?thesis
    proof (cases "want ?x")
      case want: True
      let ?o = "if src \<noteq> dst then objects[dst := ?x] else objects"
      have len: "length ?o = length objects" by simp
      have "filter_loop want nr (src + 1) (dst + 1) ?o = (dst', objects')"
        using 1(6) True want by (subst (asm) filter_loop.simps) simp
      then have "length objects' = length ?o \<and> dst' \<le> nr \<and>
          take dst' objects' = take (dst + 1) ?o @ filter want (drop (src + 1) (take nr ?o))"
        using 1(1) [OF True want] 1(3-5) True len by simp
      moreover have "take (dst + 1) ?o = take dst objects @ [?x]"
        using 1(3,5) True take_Suc_update [of dst objects ?x] by (auto simp: take_Suc_conv_app_nth)
      moreover have "drop (src + 1) (take nr ?o) = drop (Suc src) (take nr objects)"
        using 1(3) by (simp add: drop_take)
      ultimately show ?thesis using d want len by simp
    next
      case no: False
      then have "filter_loop want nr (src + 1) dst objects = (dst', objects')"
        using 1(6) True by (subst (asm) filter_loop.simps) simp
      then show ?thesis using 1(2) [OF True no] 1(3-5) True d no by simp
    qed
  next
    case False
    then have "filter_loop want nr src dst objects = (dst, objects)" by (subst filter_loop.simps) simp
    then show ?thesis using False 1(3-6) by auto
  qed
qed

lemma contains_name_spec:
  assumes "\<forall>e \<in> set (take nr objects). oae_name e \<noteq> None" and "nr \<le> length objects"
  shows "contains_name objects nr (Some m) = Some (Some m \<in> oae_name ` set (take nr objects))"
proof -
  have "contains_name_loop objects nr i (Some m) = Some (Some m \<in> oae_name ` set (drop i (take nr objects)))"
    if "i \<le> nr" for i
    using that
  proof (induction "nr - i" arbitrary: i)
    case 0
    then have "contains_name_loop objects nr i (Some m) = Some False"
      by (subst contains_name_loop.simps) simp
    then show ?case using 0 by simp
  next
    case (Suc k)
    then have i: "i < nr" by simp
    have d: "drop i (take nr objects) = objects ! i # drop (Suc i) (take nr objects)"
      using i assms(2) by (simp add: Cons_nth_drop_Suc [symmetric])
    then have "objects ! i \<in> set (take nr objects)" by (metis in_set_dropD list.set_intros(1))
    then obtain n where n: "oae_name (objects ! i) = Some n" using assms(1) by auto
    have "contains_name_loop objects nr (i + 1) (Some m) = Some (Some m \<in> oae_name ` set (drop (i + 1) (take nr objects)))"
      by (rule Suc.hyps(1)) (use Suc.hyps(2) i in auto)
    then show ?case
      unfolding d by (simp add: contains_name_loop.simps [of objects nr i] i n)
  qed
  from this [of 0] show ?thesis by (simp add: contains_name_def)
qed

text \<open>The reference: an entry is dropped when its name is among the names before it.\<close>

fun first_names :: "string option set \<Rightarrow> object_array_entry list \<Rightarrow> object_array_entry list" where
  "first_names seen [] = []"
| "first_names seen (e # es) =
     (if oae_name e \<in> seen then first_names seen es
      else e # first_names (insert (oae_name e) seen) es)"

lemma first_names_facts:
  "distinct (map oae_name (first_names seen es))"
  "oae_name ` set (first_names seen es) = oae_name ` set es - seen"
  by (induction es arbitrary: seen) auto

lemma remove_duplicates_loop_spec:
  assumes "dst \<le> src" and "src \<le> nr" and "nr \<le> length objects"
    and "\<forall>e \<in> set (take dst objects) \<union> set (drop src (take nr objects)). oae_name e \<noteq> None"
  shows "\<exists>dst' objects'. remove_duplicates_loop nr src dst objects = Some (dst', objects') \<and>
    length objects' = length objects \<and> dst' \<le> nr \<and>
    take dst' objects' = take dst objects @
      first_names (oae_name ` set (take dst objects)) (drop src (take nr objects))"
  using assms
proof (induction nr src dst objects rule: remove_duplicates_loop.induct)
  case (1 nr src dst objects)
  show ?case
  proof (cases "src < nr")
    case True
    let ?x = "objects ! src"
    have d: "drop src (take nr objects) = ?x # drop (Suc src) (take nr objects)"
      using True 1(5) by (simp add: Cons_nth_drop_Suc [symmetric])
    obtain m where m: "oae_name ?x = Some m" using 1(6) unfolding d by auto
    have c: "contains_name objects dst (oae_name ?x) = Some (Some m \<in> oae_name ` set (take dst objects))"
      unfolding m by (rule contains_name_spec) (use 1(3-6) in auto)
    show ?thesis
    proof (cases "Some m \<in> oae_name ` set (take dst objects)")
      case seen: True
      then have c': "contains_name objects dst (oae_name ?x) = Some True" using c by simp
      have "\<exists>dst' objects'. remove_duplicates_loop nr (src + 1) dst objects = Some (dst', objects') \<and>
          length objects' = length objects \<and> dst' \<le> nr \<and>
          take dst' objects' = take dst objects @
            first_names (oae_name ` set (take dst objects)) (drop (src + 1) (take nr objects))"
        by (rule 1(1) [OF True c']) (use 1(3-6) True d in auto)
      then show ?thesis
        using True c' seen m by (subst remove_duplicates_loop.simps) (simp add: d)
    next
      case new: False
      then have c': "contains_name objects dst (oae_name ?x) = Some False" using c by simp
      let ?o = "if src \<noteq> dst then objects[dst := ?x] else objects"
      have len: "length ?o = length objects" by simp
      have t: "take (dst + 1) ?o = take dst objects @ [?x]"
        using 1(3,5) True take_Suc_update [of dst objects ?x] by (auto simp: take_Suc_conv_app_nth)
      have r: "drop (src + 1) (take nr ?o) = drop (Suc src) (take nr objects)"
        using 1(3) by (simp add: drop_take)
      have "\<exists>dst' objects'. remove_duplicates_loop nr (src + 1) (dst + 1) ?o = Some (dst', objects') \<and>
          length objects' = length ?o \<and> dst' \<le> nr \<and>
          take dst' objects' = take (dst + 1) ?o @
            first_names (oae_name ` set (take (dst + 1) ?o)) (drop (src + 1) (take nr ?o))"
        by (rule 1(2) [OF True c']) (use 1(3-6) True d t r len in auto)
      then show ?thesis
        using True c' new m unfolding t r len
        by (subst remove_duplicates_loop.simps) (simp add: d)
    qed
  next
    case False
    then have "remove_duplicates_loop nr src dst objects = Some (dst, objects)"
      by (subst remove_duplicates_loop.simps) simp
    then show ?thesis using False 1(3,4) by auto
  qed
qed

text \<open>
  Lemma object_array_spec: \<open>object_array_filter\<close> keeps the wanted entries in order, and
  \<open>object_array_remove_duplicates\<close> keeps, of entries that all have names, the first of each name.
\<close>

theorem object_array_spec:
  assumes "oa_ok array" and "\<forall>e \<in> set (entries array). oae_name e \<noteq> None"
  shows "entries (object_array_filter array want) = filter want (entries array) \<and>
    (\<exists>array'. object_array_remove_duplicates array = Some array' \<and> oa_ok array' \<and>
       entries array' = first_names {} (entries array) \<and>
       distinct (map oae_name (entries array')) \<and>
       oae_name ` set (entries array') = oae_name ` set (entries array))"
proof
  have nr: "oa_nr array \<le> length (oa_objects array)" using assms(1) by (simp add: oa_ok_def)
  obtain dst objects where f: "filter_loop want (oa_nr array) 0 0 (oa_objects array) = (dst, objects)"
    by (metis prod.collapse)
  show "entries (object_array_filter array want) = filter want (entries array)"
    using filter_loop_spec [OF _ _ nr f] by (simp add: object_array_filter_def f entries_def)
  show "\<exists>array'. object_array_remove_duplicates array = Some array' \<and> oa_ok array' \<and>
        entries array' = first_names {} (entries array) \<and>
        distinct (map oae_name (entries array')) \<and>
        oae_name ` set (entries array') = oae_name ` set (entries array)"
    using remove_duplicates_loop_spec [OF _ _ nr, of 0 0] assms
    by (auto simp: object_array_remove_duplicates_def entries_def oa_ok_def first_names_facts)
qed

lemma object_array_spec_witness:
  "\<exists>array'. object_array_remove_duplicates \<lparr>oa_nr = 2, oa_alloc = 2, oa_objects =
      replicate 2 \<lparr>oae_item = None, oae_name = Some ''a'', oae_path = None, oae_mode = 0\<rparr>\<rparr> = Some array' \<and>
      entries array' = [\<lparr>oae_item = None, oae_name = Some ''a'', oae_path = None, oae_mode = 0\<rparr>]"
  using object_array_spec [of "\<lparr>oa_nr = 2, oa_alloc = 2, oa_objects =
      replicate 2 \<lparr>oae_item = None, oae_name = Some ''a'', oae_path = None, oae_mode = 0\<rparr>\<rparr>"]
  by (auto simp: oa_ok_def entries_def numeral_eq_Suc)

end
