(* ===== verification/Compare.thy ===== *)
theory Compare
  imports Git_Prelude
begin

text \<open>
  The contract of the comparison callbacks that the ordered containers take
  (\<open>prio_queue_compare_fn\<close> in \<^verbatim>\<open>prio-queue.h\<close>, \<open>compare_strings_fn\<close> in
  \<^verbatim>\<open>string-list.h\<close>, the \<open>compare_fn\<close> of \<^verbatim>\<open>mergesort.h\<close>): the sign of the result
  orders its two arguments. The clients' lemmas are proved once from this contract; the
  comparison functions of the code discharge it.
\<close>

section \<open>The contract\<close>

locale cmp_order =
  fixes cmp :: "'a \<Rightarrow> 'a \<Rightarrow> int"
  assumes cmp_swap: "cmp x y < 0 \<longleftrightarrow> 0 < cmp y x"
    and cmp_trans: "cmp x y \<le> 0 \<Longrightarrow> cmp y z \<le> 0 \<Longrightarrow> cmp x z \<le> 0"
begin

lemma cmp_refl [simp]: "cmp x x = 0"
  using cmp_swap [of x x] by linarith

lemma cmp_total: "cmp x y \<le> 0 \<or> cmp y x \<le> 0"
  using cmp_swap [of y x] by linarith

lemma cmp_le_swap: "\<not> cmp x y \<le> 0 \<Longrightarrow> cmp y x \<le> 0"
  using cmp_total by blast

lemma cmp_zero_swap: "cmp x y = 0 \<longleftrightarrow> cmp y x = 0"
  using cmp_swap [of x y] cmp_swap [of y x] by linarith

lemma cmp_less_le_trans: "cmp x y < 0 \<Longrightarrow> cmp y z \<le> 0 \<Longrightarrow> cmp x z < 0"
proof (rule ccontr)
  assume xy: "cmp x y < 0" and yz: "cmp y z \<le> 0" and "\<not> cmp x z < 0"
  then have "cmp z x \<le> 0" using cmp_swap [of x z] by linarith
  with yz have "cmp y x \<le> 0" by (rule cmp_trans)
  with xy show False using cmp_swap [of x y] by linarith
qed

lemma cmp_le_less_trans: "cmp x y \<le> 0 \<Longrightarrow> cmp y z < 0 \<Longrightarrow> cmp x z < 0"
proof (rule ccontr)
  assume xy: "cmp x y \<le> 0" and yz: "cmp y z < 0" and "\<not> cmp x z < 0"
  then have "cmp z x \<le> 0" using cmp_swap [of x z] by linarith
  then have "cmp z y \<le> 0" using xy by (rule cmp_trans)
  with yz show False using cmp_swap [of y z] by linarith
qed

lemma cmp_less_trans: "cmp x y < 0 \<Longrightarrow> cmp y z < 0 \<Longrightarrow> cmp x z < 0"
  using cmp_less_le_trans by force

lemma cmp_eq_trans: "cmp x y = 0 \<Longrightarrow> cmp y z = 0 \<Longrightarrow> cmp x z = 0"
  using cmp_trans [of x y z] cmp_trans [of z y x] cmp_zero_swap cmp_swap [of x z]
  by (metis leD less_linear order_refl)

lemma cmp_eq_left: "cmp x y = 0 \<Longrightarrow> cmp x z < 0 \<longleftrightarrow> cmp y z < 0"
  by (metis cmp_le_less_trans cmp_zero_swap order_refl)

text \<open>Strictly increasing arrays: what the sorted containers keep.\<close>

lemma strict_sorted_nth:
  "sorted_wrt (\<lambda>x y. cmp x y < 0) xs \<Longrightarrow> i < j \<Longrightarrow> j < length xs \<Longrightarrow> cmp (xs ! i) (xs ! j) < 0"
  by (rule sorted_wrt_nth_less)

lemma strict_sorted_nth_le:
  "sorted_wrt (\<lambda>x y. cmp x y < 0) xs \<Longrightarrow> i \<le> j \<Longrightarrow> j < length xs \<Longrightarrow> cmp (xs ! i) (xs ! j) \<le> 0"
  using strict_sorted_nth [of xs i j] by (cases "i = j") auto

end

lemma cmp_order_by: "cmp_order cmp \<Longrightarrow> cmp_order (\<lambda>x y. cmp (f x) (f y))"
  unfolding cmp_order_def by blast

text \<open>Comparison functions that return 0 on equal arguments only.\<close>

locale cmp_strict = cmp_order +
  assumes cmp_zero: "cmp x y = 0 \<Longrightarrow> x = y"
begin

lemma cmp_zero_iff [simp]: "cmp x y = 0 \<longleftrightarrow> x = y"
  using cmp_zero by auto

lemma strict_sorted_distinct: "sorted_wrt (\<lambda>x y. cmp x y < 0) xs \<Longrightarrow> distinct xs"
  by (induction xs) (auto simp: less_le)

end

section \<open>strcmp and memcmp\<close>

text \<open>
  \<open>strcmp\<close> of the C library compares the bytes as \<open>unsigned char\<close> up to the first
  difference, the terminating NUL below every other byte. C fixes the sign of the result only,
  and its callers look at nothing else; the model returns \<open>-1\<close>, \<open>0\<close> or \<open>1\<close>.
\<close>

fun strcmp :: "string \<Rightarrow> string \<Rightarrow> int" where
  "strcmp [] [] = 0"
| "strcmp [] (d # t) = -1"
| "strcmp (c # s) [] = 1"
| "strcmp (c # s) (d # t) = (if c = d then strcmp s t else if char_code c < char_code d then -1 else 1)"

text \<open>
  \<open>memcmp\<close> compares two blocks of one length as \<open>unsigned char\<close>s. The code calls it with
  one length for both blocks; the equations for blocks of different lengths are never reached
  from it and put the shorter block first, which keeps the comparison an order on all lists.
\<close>

fun memcmp :: "byte list \<Rightarrow> byte list \<Rightarrow> int" where
  "memcmp [] [] = 0"
| "memcmp [] (b # bs) = -1"
| "memcmp (a # as) [] = 1"
| "memcmp (a # as) (b # bs) = (if a = b then memcmp as bs else uint a - uint b)"

lemma char_code_less_or_greater: "c \<noteq> d \<Longrightarrow> char_code c < char_code d \<or> char_code d < char_code c"
  using char_code_inject [of c d] by linarith

lemma strcmp_swap: "strcmp s t = - strcmp t s"
  by (induction s t rule: strcmp.induct) (auto dest: char_code_less_or_greater)

lemma strcmp_zero: "strcmp s t = 0 \<longleftrightarrow> s = t"
  by (induction s t rule: strcmp.induct) auto

lemma strcmp_trans: "strcmp s t \<le> 0 \<Longrightarrow> strcmp t u \<le> 0 \<Longrightarrow> strcmp s u \<le> 0"
proof (induction s t arbitrary: u rule: strcmp.induct)
  case (2 d t)
  then show ?case by (cases u) auto
next
  case (4 c s d t)
  then show ?case by (cases u) (auto split: if_splits)
qed auto

interpretation strcmp: cmp_strict strcmp
proof unfold_locales
  show "strcmp x y < 0 \<longleftrightarrow> 0 < strcmp y x" for x y
    using strcmp_swap [of x y] by linarith
  show "strcmp x z \<le> 0" if "strcmp x y \<le> 0" "strcmp y z \<le> 0" for x y z
    using that by (rule strcmp_trans)
  show "x = y" if "strcmp x y = 0" for x y
    using that by (simp add: strcmp_zero)
qed

lemma memcmp_swap: "memcmp s t < 0 \<longleftrightarrow> 0 < memcmp t s"
  by (induction s t rule: memcmp.induct) auto

lemma memcmp_zero: "memcmp s t = 0 \<longleftrightarrow> s = t"
  by (induction s t rule: memcmp.induct) (auto simp: word_uint_eq_iff)

lemma memcmp_trans: "memcmp s t \<le> 0 \<Longrightarrow> memcmp t u \<le> 0 \<Longrightarrow> memcmp s u \<le> 0"
proof (induction s t arbitrary: u rule: memcmp.induct)
  case (2 b bs)
  then show ?case by (cases u) auto
next
  case (4 a as b bs)
  then show ?case by (cases u) (auto split: if_splits simp: word_uint_eq_iff)
qed auto

interpretation memcmp: cmp_strict memcmp
proof unfold_locales
  show "memcmp x y < 0 \<longleftrightarrow> 0 < memcmp y x" for x y by (rule memcmp_swap)
  show "memcmp x z \<le> 0" if "memcmp x y \<le> 0" "memcmp y z \<le> 0" for x y z
    using that by (rule memcmp_trans)
  show "x = y" if "memcmp x y = 0" for x y
    using that by (simp add: memcmp_zero)
qed

lemma memcmp_append_same [simp]: "memcmp (us @ s) (us @ t) = memcmp s t"
  by (induction us) auto

end
