(* ===== verification/Qsort.thy ===== *)
theory Qsort
  imports Compare
begin

text \<open>
  \<^verbatim>\<open>compat/qsort.c\<close>: the merge sort that stands in for \<open>qsort\<close>. The array is a list; the
  temporary array, on the stack or from \<open>malloc\<close>, only ever receives what is then copied back.
\<close>

text \<open>
  The merging loop with what follows it: of equal elements the one from the first half goes first,
  a rest of the first half is copied behind, a rest of the second half already is in its place.
\<close>

fun merge_halves :: "('a \<Rightarrow> 'a \<Rightarrow> int) \<Rightarrow> 'a list \<Rightarrow> 'a list \<Rightarrow> 'a list" where
  "merge_halves cmp (x # b1) (y # b2) =
     (if cmp x y \<le> 0 then x # merge_halves cmp b1 (y # b2) else y # merge_halves cmp (x # b1) b2)"
| "merge_halves cmp [] b2 = b2"
| "merge_halves cmp b1 [] = b1"

function msort_with_tmp :: "('a \<Rightarrow> 'a \<Rightarrow> int) \<Rightarrow> 'a list \<Rightarrow> 'a list" where
  "msort_with_tmp cmp b =
     (if length b \<le> 1 then b
      else let n1 = length b div 2
           in merge_halves cmp (msort_with_tmp cmp (take n1 b)) (msort_with_tmp cmp (drop n1 b)))"
  by pat_completeness auto
termination
  by (relation "measure (length \<circ> snd)") auto

declare msort_with_tmp.simps [simp del]

definition git_qsort :: "('a \<Rightarrow> 'a \<Rightarrow> int) \<Rightarrow> 'a list \<Rightarrow> 'a list" where
  "git_qsort cmp b = msort_with_tmp cmp b"

section \<open>What a sort promises\<close>

context cmp_order
begin

abbreviation sorted_cmp :: "'a list \<Rightarrow> bool" where
  "sorted_cmp \<equiv> sorted_wrt (\<lambda>x y. cmp x y \<le> 0)"

text \<open>The elements that compare equal to \<open>x\<close>, in their order.\<close>

abbreviation equals :: "'a \<Rightarrow> 'a list \<Rightarrow> 'a list" where
  "equals x xs \<equiv> filter (\<lambda>y. cmp x y = 0) xs"

lemma mset_merge_halves: "mset (merge_halves cmp xs ys) = mset xs + mset ys"
  by (induction cmp xs ys rule: merge_halves.induct) auto

lemma set_merge_halves: "set (merge_halves cmp xs ys) = set xs \<union> set ys"
  by (metis mset_merge_halves set_mset_mset set_mset_union)

lemma sorted_merge_halves: "sorted_cmp xs \<Longrightarrow> sorted_cmp ys \<Longrightarrow> sorted_cmp (merge_halves cmp xs ys)"
proof (induction xs arbitrary: ys)
  case (Cons x xs)
  from Cons.prems(2) show ?case
  proof (induction ys)
    case (Cons y ys)
    show ?case
    proof (cases "cmp x y \<le> 0")
      case True
      then have "\<forall>z \<in> set ys. cmp x z \<le> 0" using Cons.prems cmp_trans by auto
      with True \<open>sorted_cmp (x # xs)\<close> Cons.prems show ?thesis
        using \<open>\<And>ys. sorted_cmp xs \<Longrightarrow> sorted_cmp ys \<Longrightarrow> sorted_cmp (merge_halves cmp xs ys)\<close> [of "y # ys"]
        by (auto simp: set_merge_halves)
    next
      case False
      then have yx: "cmp y x \<le> 0" by (rule cmp_le_swap)
      then have "\<forall>z \<in> set xs. cmp y z \<le> 0" using \<open>sorted_cmp (x # xs)\<close> cmp_trans by auto
      with yx False Cons show ?thesis by (auto simp: set_merge_halves)
    qed
  qed (use Cons.prems in simp)
qed simp

lemma equals_merge_halves:
  "sorted_cmp xs \<Longrightarrow> sorted_cmp ys \<Longrightarrow> equals z (merge_halves cmp xs ys) = equals z xs @ equals z ys"
proof (induction xs arbitrary: ys)
  case (Cons x xs)
  from Cons.prems(2) show ?case
  proof (induction ys)
    case (Cons y ys)
    show ?case
    proof (cases "cmp x y \<le> 0")
      case True
      with \<open>sorted_cmp (x # xs)\<close> Cons.prems show ?thesis
        using \<open>\<And>ys. sorted_cmp xs \<Longrightarrow> sorted_cmp ys \<Longrightarrow>
          equals z (merge_halves cmp xs ys) = equals z xs @ equals z ys\<close> [of "y # ys"] by auto
    next
      case False
      then have less: "cmp y x < 0" using cmp_swap [of y x] by linarith
      have "equals z (x # xs) = []" if "cmp z y = 0"
      proof -
        have "cmp z w < 0" if "w \<in> set (x # xs)" for w
        proof -
          have "cmp x w \<le> 0" using that \<open>sorted_cmp (x # xs)\<close> by auto
          then have "cmp y w < 0" by (rule cmp_less_le_trans [OF less])
          with \<open>cmp z y = 0\<close> show ?thesis using cmp_eq_left by blast
        qed
        then show ?thesis unfolding filter_empty_conv by force
      qed
      with False Cons show ?thesis by auto
    qed
  qed simp
qed simp

lemma msort_with_tmp_sorts:
  "mset (msort_with_tmp cmp b) = mset b \<and> sorted_cmp (msort_with_tmp cmp b) \<and>
   (\<forall>x. equals x (msort_with_tmp cmp b) = equals x b)"
proof (induction "length b" arbitrary: b rule: less_induct)
  case less
  show ?case
  proof (cases "length b \<le> 1")
    case True
    then have "b = [] \<or> (\<exists>x. b = [x])" by (cases b) auto
    with True show ?thesis by (auto simp: msort_with_tmp.simps)
  next
    case False
    let ?n = "length b div 2"
    have sort: "msort_with_tmp cmp b = merge_halves cmp (msort_with_tmp cmp (take ?n b)) (msort_with_tmp cmp (drop ?n b))"
      using False by (subst msort_with_tmp.simps) (simp add: Let_def)
    have l: "length (take ?n b) < length b" and r: "length (drop ?n b) < length b" using False by auto
    note L = less.hyps [OF l] and R = less.hyps [OF r]
    have "mset (take ?n b) + mset (drop ?n b) = mset b" by (metis append_take_drop_id mset_append)
    moreover have "equals x (take ?n b) @ equals x (drop ?n b) = equals x b" for x
      by (metis append_take_drop_id filter_append)
    ultimately show ?thesis
      unfolding sort using L R by (simp add: mset_merge_halves sorted_merge_halves equals_merge_halves)
  qed
qed

end

text \<open>
  C33. With a comparison that is an order, \<^verbatim>\<open>git_qsort\<close> returns a permutation of the array
  in ascending order, in which equal elements keep their order: it is stable, which C does not ask of
  \<^verbatim>\<open>qsort\<close>.
\<close>

theorem git_qsort_sorts:
  assumes "cmp_order cmp"
  shows "mset (git_qsort cmp b) = mset b \<and> sorted_wrt (\<lambda>x y. cmp x y \<le> 0) (git_qsort cmp b) \<and>
    (\<forall>x. filter (\<lambda>y. cmp x y = 0) (git_qsort cmp b) = filter (\<lambda>y. cmp x y = 0) b)"
  unfolding git_qsort_def using cmp_order.msort_with_tmp_sorts [OF assms] by blast

theorem git_qsort_sorts_witness:
  "sorted_wrt (\<lambda>x y. strcmp x y \<le> 0) (git_qsort strcmp [''b'', ''a'', ''c'', ''a''])"
  using git_qsort_sorts [OF strcmp.cmp_order_axioms, of "[''b'', ''a'', ''c'', ''a'']"] by blast

end
