(* ===== verification/Line_Log.thy ===== *)
theory Line_Log
  imports Qsort
begin

text \<open>
  The range sets of \<^verbatim>\<open>line-log.c\<close>, with which \<open>git log -L\<close> follows lines through history: union,
  difference, the hunks of a diff that touch a set, and mapping a set across a diff. A range
  holds its start and not its end; a range set is the list of its ranges in use (the allocated
  size is left out). The functions are specified by the lines they cover.

  An \<open>assert\<close> that fails and a read past the end of an array are the result
  \<open>Stopped\<close>. The inner loop of the difference may run forever, which is \<open>None\<close> around it.
\<close>

record range =
  rg_start :: int
  rg_end :: int

record diff_ranges =
  parent_ranges :: "range list"
  target_ranges :: "range list"

datatype 'a run = Stopped | Done 'a

section \<open>Building sets\<close>

definition range_set_append_unsafe :: "range list \<Rightarrow> int \<Rightarrow> int \<Rightarrow> range list run" where
  "range_set_append_unsafe rs a b =
     (if a \<le> b then Done (rs @ [\<lparr>rg_start = a, rg_end = b\<rparr>]) else Stopped)"

definition range_set_append :: "range list \<Rightarrow> int \<Rightarrow> int \<Rightarrow> range list run" where
  "range_set_append rs a b =
     (if rs = [] \<or> rg_end (last rs) \<le> a then range_set_append_unsafe rs a b else Stopped)"

definition range_cmp :: "range \<Rightarrow> range \<Rightarrow> int" where
  "range_cmp r s =
     (if rg_start r = rg_start s then 0 else if rg_start r < rg_start s then - 1 else 1)"

fun check_tail :: "range \<Rightarrow> range list \<Rightarrow> bool" where
  "check_tail p [] = True"
| "check_tail p (r # rs) = (rg_end p < rg_start r \<and> rg_start r < rg_end r \<and> check_tail r rs)"

text \<open>Whether all assertions hold.\<close>

definition range_set_check_invariants :: "range list \<Rightarrow> bool" where
  "range_set_check_invariants rs =
     (case rs of [] \<Rightarrow> True | r # rs' \<Rightarrow> rg_start r < rg_end r \<and> check_tail r rs')"

text \<open>
  The merging pass works in place: the output cursor never passes the input cursor, so what it
  writes is never read as input again. \<open>out\<close> is the array before the output cursor.
\<close>

fun merge_loop :: "range list \<Rightarrow> range list \<Rightarrow> range list" where
  "merge_loop out [] = out"
| "merge_loop out (r # rs) =
     (if rg_start r = rg_end r then merge_loop out rs
      else if out \<noteq> [] \<and> rg_start r \<le> rg_end (last out)
      then merge_loop (if rg_end (last out) < rg_end r
                       then butlast out @ [(last out)\<lparr>rg_end := rg_end r\<rparr>] else out) rs
      else merge_loop (out @ [\<lparr>rg_start = rg_start r, rg_end = rg_end r\<rparr>]) rs)"

definition sort_and_merge_range_set :: "range list \<Rightarrow> range list run" where
  "sort_and_merge_range_set rs =
     (let out = merge_loop [] (git_qsort range_cmp rs)
      in if length out \<le> length rs \<and> range_set_check_invariants out then Done out else Stopped)"

section \<open>Union and difference\<close>

text \<open>One round of the union: which range comes next, then what is done with it.\<close>

fun next_range :: "range list \<Rightarrow> range list \<Rightarrow> range \<times> range list \<times> range list" where
  "next_range (ra # as) (rb # bs) =
     (if rg_start ra < rg_start rb then (ra, as, rb # bs)
      else if rg_start rb < rg_start ra then (rb, ra # as, bs)
      else if rg_end ra < rg_end rb then (ra, as, rb # bs)
      else (rb, ra # as, bs))"
| "next_range (ra # as) [] = (ra, as, [])"
| "next_range [] (rb # bs) = (rb, [], bs)"
| "next_range [] [] = (\<lparr>rg_start = 0, rg_end = 0\<rparr>, [], [])"

definition union_step :: "range list \<Rightarrow> range \<Rightarrow> range list" where
  "union_step out new =
     (if rg_start new = rg_end new then out
      else if out = [] \<or> rg_end (last out) < rg_start new
      then out @ [\<lparr>rg_start = rg_start new, rg_end = rg_end new\<rparr>]
      else if rg_end (last out) < rg_end new
      then butlast out @ [(last out)\<lparr>rg_end := rg_end new\<rparr>]
      else out)"

lemma next_range_length:
  "as \<noteq> [] \<or> bs \<noteq> [] \<Longrightarrow> (new, as', bs') = next_range as bs \<Longrightarrow>
     length as' + length bs' < length as + length bs"
  by (cases as; cases bs) (auto split: if_splits)

function union_loop :: "range list \<Rightarrow> range list \<Rightarrow> range list \<Rightarrow> range list" where
  "union_loop out as bs =
     (if as \<noteq> [] \<or> bs \<noteq> []
      then case next_range as bs of (new, as, bs) \<Rightarrow> union_loop (union_step out new) as bs
      else out)"
  by pat_completeness auto

termination
  by (relation "measure (\<lambda>(out, as, bs). length as + length bs)") (auto intro: next_range_length)

declare union_loop.simps [simp del]

definition range_set_union :: "range list \<Rightarrow> range list \<Rightarrow> range list \<Rightarrow> range list run" where
  "range_set_union out a b = (if out = [] then Done (union_loop [] a b) else Stopped)"

text \<open>
  The loop over what is left of one range of \<open>a\<close>. \<open>b\<close> is the part of the other set at and
  behind its cursor. In the last case nothing changes and the loop goes around for good.
\<close>

partial_function (option) difference_while ::
  "range list \<Rightarrow> int \<Rightarrow> int \<Rightarrow> range list \<Rightarrow> (range list \<times> range list) run option" where
  "difference_while out start stop b =
     (if start < stop
      then let b = dropWhile (\<lambda>r. rg_end r \<le> start) b
           in case b of
                [] \<Rightarrow> (case range_set_append out start stop of
                         Stopped \<Rightarrow> Some Stopped | Done out \<Rightarrow> Some (Done (out, b)))
              | r # rs \<Rightarrow>
                  if stop < rg_start r
                  then (case range_set_append out start stop of
                          Stopped \<Rightarrow> Some Stopped | Done out \<Rightarrow> Some (Done (out, b)))
                  else if rg_start r \<le> start then difference_while out (rg_end r) stop b
                  else if rg_start r < stop
                  then (case (if start < rg_start r then range_set_append out start (rg_start r)
                              else Done out) of
                          Stopped \<Rightarrow> Some Stopped
                        | Done out \<Rightarrow> difference_while out (rg_end r) stop b)
                  else difference_while out start stop b
      else Some (Done (out, b)))"

fun difference_loop :: "range list \<Rightarrow> range list \<Rightarrow> range list \<Rightarrow> range list run option" where
  "difference_loop out [] b = Some (Done out)"
| "difference_loop out (r # rs) b =
     (case difference_while out (rg_start r) (rg_end r) b of
        None \<Rightarrow> None
      | Some Stopped \<Rightarrow> Some Stopped
      | Some (Done (out, b)) \<Rightarrow> difference_loop out rs b)"

definition range_set_difference :: "range list \<Rightarrow> range list \<Rightarrow> range list \<Rightarrow> range list run option" where
  "range_set_difference out a b = difference_loop out a b"

section \<open>Mapping across a diff\<close>

definition ranges_overlap :: "range \<Rightarrow> range \<Rightarrow> bool" where
  "ranges_overlap a b \<longleftrightarrow> \<not> (rg_end a \<le> rg_start b \<or> rg_end b \<le> rg_start a)"

text \<open>The hunks are walked as pairs of a parent and a target range.\<close>

fun filter_touched_loop ::
  "range list \<times> range list \<Rightarrow> (range \<times> range) list \<Rightarrow> range list \<Rightarrow> (range list \<times> range list) run" where
  "filter_touched_loop out [] rs = Done out"
| "filter_touched_loop (op, ot) ((p, t) # hunks) rs =
     (if rs = [] then Stopped
      else let rs = dropWhile (\<lambda>r. rg_end r < rg_start t) rs
           in if rs = [] then Done (op, ot)
              else if ranges_overlap t (hd rs)
              then (case range_set_append op (rg_start p) (rg_end p) of
                      Stopped \<Rightarrow> Stopped
                    | Done op \<Rightarrow>
                        (case range_set_append ot (rg_start t) (rg_end t) of
                           Stopped \<Rightarrow> Stopped
                         | Done ot \<Rightarrow> filter_touched_loop (op, ot) hunks rs))
              else filter_touched_loop (op, ot) hunks rs)"

definition diff_ranges_filter_touched :: "diff_ranges \<Rightarrow> diff_ranges \<Rightarrow> range list \<Rightarrow> diff_ranges run" where
  "diff_ranges_filter_touched out diff rs =
     (if target_ranges out \<noteq> [] \<or> length (parent_ranges diff) < length (target_ranges diff) then Stopped
      else case filter_touched_loop (parent_ranges out, target_ranges out)
                  (zip (parent_ranges diff) (target_ranges diff)) rs of
             Stopped \<Rightarrow> Stopped
           | Done (p, t) \<Rightarrow> Done (out\<lparr>parent_ranges := p, target_ranges := t\<rparr>))"

fun shift_while :: "int \<Rightarrow> int \<Rightarrow> (range \<times> range) list \<Rightarrow> int \<times> (range \<times> range) list" where
  "shift_while offset start [] = (offset, [])"
| "shift_while offset start ((p, t) # hunks) =
     (if rg_start t \<le> start
      then shift_while (offset + ((rg_end p - rg_start p) - (rg_end t - rg_start t))) start hunks
      else (offset, (p, t) # hunks))"

fun shift_loop :: "range list \<Rightarrow> int \<Rightarrow> range list \<Rightarrow> (range \<times> range) list \<Rightarrow> range list run" where
  "shift_loop out offset [] hunks = Done out"
| "shift_loop out offset (r # src) hunks =
     (let (offset, hunks) = shift_while offset (rg_start r) hunks
      in case range_set_append out (rg_start r + offset) (rg_end r + offset) of
           Stopped \<Rightarrow> Stopped
         | Done out \<Rightarrow> shift_loop out offset src hunks)"

definition range_set_shift_diff :: "range list \<Rightarrow> range list \<Rightarrow> diff_ranges \<Rightarrow> range list run" where
  "range_set_shift_diff out rs diff =
     (if length (parent_ranges diff) < length (target_ranges diff) then Stopped
      else shift_loop out 0 rs (zip (parent_ranges diff) (target_ranges diff)))"

definition range_set_map_across_diff ::
  "range list \<Rightarrow> range list \<Rightarrow> diff_ranges \<Rightarrow> (range list \<times> diff_ranges) run option" where
  "range_set_map_across_diff out rs diff =
     (case diff_ranges_filter_touched \<lparr>parent_ranges = [], target_ranges = []\<rparr> diff rs of
        Stopped \<Rightarrow> Some Stopped
      | Done touched \<Rightarrow>
          (case range_set_difference [] rs (target_ranges touched) of
             None \<Rightarrow> None
           | Some Stopped \<Rightarrow> Some Stopped
           | Some (Done tmp1) \<Rightarrow>
               (case range_set_shift_diff [] tmp1 diff of
                  Stopped \<Rightarrow> Some Stopped
                | Done tmp2 \<Rightarrow>
                    (case range_set_union out tmp2 (parent_ranges touched) of
                       Stopped \<Rightarrow> Some Stopped
                     | Done out \<Rightarrow> Some (Done (out, touched))))))"


section \<open>The lines of a set\<close>

definition rg_lines :: "range \<Rightarrow> int set" where
  "rg_lines r = {rg_start r..<rg_end r}"

definition lines :: "range list \<Rightarrow> int set" where
  "lines rs = (\<Union>r \<in> set rs. rg_lines r)"

lemma lines_simps [simp]:
  "lines [] = {}" "lines (r # rs) = rg_lines r \<union> lines rs" "lines (rs @ ss) = lines rs \<union> lines ss"
  by (auto simp: lines_def)

text \<open>The canonical sets: non-empty ranges with a gap between them.\<close>

definition canonical :: "range list \<Rightarrow> bool" where
  "canonical rs \<longleftrightarrow> (\<forall>r \<in> set rs. rg_start r < rg_end r) \<and> sorted_wrt (\<lambda>r s. rg_end r < rg_start s) rs"

lemma check_tail_canonical:
  "check_tail p rs \<longleftrightarrow> canonical rs \<and> (case rs of [] \<Rightarrow> True | r # _ \<Rightarrow> rg_end p < rg_start r)"
proof (induction p rs rule: check_tail.induct)
  case (2 p r rs)
  have "(\<forall>s \<in> set rs. rg_end r < rg_start s) \<longleftrightarrow> (case rs of [] \<Rightarrow> True | s # _ \<Rightarrow> rg_end r < rg_start s)"
    if "canonical rs"
    using that by (cases rs) (force simp: canonical_def)+
  then show ?case using 2 by (auto simp: canonical_def)
qed (simp add: canonical_def)

lemma check_invariants_canonical: "range_set_check_invariants rs \<longleftrightarrow> canonical rs"
proof (cases rs)
  case (Cons r rs')
  have "(\<forall>s \<in> set rs'. rg_end r < rg_start s) \<longleftrightarrow> (case rs' of [] \<Rightarrow> True | s # _ \<Rightarrow> rg_end r < rg_start s)"
    if "canonical rs'"
    using that by (cases rs') (force simp: canonical_def)+
  then show ?thesis
    using Cons by (auto simp: range_set_check_invariants_def check_tail_canonical canonical_def)
qed (simp add: range_set_check_invariants_def canonical_def)

text \<open>One step of merging, with ranges coming in by ascending start.\<close>

lemma union_step_lines:
  assumes "canonical out" and "out \<noteq> [] \<longrightarrow> rg_start (last out) \<le> rg_start r" and "rg_start r \<le> rg_end r"
  shows "canonical (union_step out r)" and "lines (union_step out r) = lines out \<union> rg_lines r"
    and "union_step out r \<noteq> [] \<longrightarrow> rg_start (last (union_step out r)) \<le> rg_start r"
proof -
  have "canonical (union_step out r) \<and> lines (union_step out r) = lines out \<union> rg_lines r \<and>
      (union_step out r \<noteq> [] \<longrightarrow> rg_start (last (union_step out r)) \<le> rg_start r)"
  proof (cases out rule: rev_cases)
    case Nil
    then show ?thesis
      using assms by (auto simp: union_step_def canonical_def rg_lines_def)
  next
    case (snoc init l)
    have l: "rg_start l < rg_end l" "rg_start l \<le> rg_start r" "canonical init" "\<forall>s \<in> set init. rg_end s < rg_start l"
      using assms(1,2) snoc by (auto simp: canonical_def sorted_wrt_append)
    then show ?thesis
      using assms(3) snoc
      by (auto simp: union_step_def canonical_def sorted_wrt_append rg_lines_def)
  qed
  then show "canonical (union_step out r)" "lines (union_step out r) = lines out \<union> rg_lines r"
    "union_step out r \<noteq> [] \<longrightarrow> rg_start (last (union_step out r)) \<le> rg_start r" by blast+
qed

lemma merge_loop_step: "merge_loop out (r # rs) = merge_loop (union_step out r) rs"
  by (auto simp: union_step_def not_le)

text \<open>Sets by ascending start, empty and overlapping ranges allowed.\<close>

definition ascending :: "range list \<Rightarrow> bool" where
  "ascending rs \<longleftrightarrow> sorted_wrt (\<lambda>r s. rg_start r \<le> rg_start s) rs \<and> (\<forall>r \<in> set rs. rg_start r \<le> rg_end r)"

lemma merge_loop_lines:
  assumes "canonical out" and "ascending rs"
    and "out \<noteq> [] \<longrightarrow> (\<forall>r \<in> set rs. rg_start (last out) \<le> rg_start r)"
  shows "canonical (merge_loop out rs) \<and> lines (merge_loop out rs) = lines out \<union> lines rs \<and>
    length (merge_loop out rs) \<le> length out + length rs"
  using assms
proof (induction rs arbitrary: out)
  case (Cons r rs)
  have r: "rg_start r \<le> rg_end r" "ascending rs" "\<forall>s \<in> set rs. rg_start r \<le> rg_start s"
    using Cons.prems(2) by (auto simp: ascending_def)
  have o: "out \<noteq> [] \<longrightarrow> rg_start (last out) \<le> rg_start r" using Cons.prems(3) by simp
  note step = union_step_lines [OF Cons.prems(1) o r(1)]
  have "union_step out r \<noteq> [] \<longrightarrow> (\<forall>s \<in> set rs. rg_start (last (union_step out r)) \<le> rg_start s)"
    using step(3) r(3) by force
  from Cons.IH [OF step(1) r(2) this] step(2)
  have "canonical (merge_loop (union_step out r) rs)"
    "lines (merge_loop (union_step out r) rs) = lines out \<union> (rg_lines r \<union> lines rs)"
    "length (merge_loop (union_step out r) rs) \<le> length (union_step out r) + length rs" by auto
  moreover have "length (union_step out r) \<le> length out + 1" by (simp add: union_step_def)
  ultimately show ?case unfolding merge_loop_step by simp
qed simp

lemma next_range_spec:
  assumes "as \<noteq> [] \<or> bs \<noteq> []" and "ascending as" and "ascending bs" and "next_range as bs = (new, as', bs')"
  shows "rg_start new \<le> rg_end new" "ascending as'" "ascending bs'"
    "\<forall>s \<in> set as' \<union> set bs'. rg_start new \<le> rg_start s"
    "set as \<union> set bs = insert new (set as' \<union> set bs')"
  using assms by (cases as; cases bs; force simp: ascending_def split: if_splits)+

lemma union_loop_lines:
  assumes "canonical out" and "ascending as" and "ascending bs"
    and "out \<noteq> [] \<longrightarrow> (\<forall>r \<in> set as \<union> set bs. rg_start (last out) \<le> rg_start r)"
  shows "canonical (union_loop out as bs) \<and> lines (union_loop out as bs) = lines out \<union> lines as \<union> lines bs"
  using assms
proof (induction out as bs rule: union_loop.induct)
  case (1 out as bs)
  show ?case
  proof (cases "as \<noteq> [] \<or> bs \<noteq> []")
    case True
    obtain new as' bs' where n: "next_range as bs = (new, as', bs')" by (metis prod.collapse)
    note ns = next_range_spec [OF True 1(3,4) n]
    have o: "out \<noteq> [] \<longrightarrow> rg_start (last out) \<le> rg_start new" using 1(5) ns(5) by auto
    note step = union_step_lines [OF 1(2) o ns(1)]
    have "union_step out new \<noteq> [] \<longrightarrow>
        (\<forall>s \<in> set as' \<union> set bs'. rg_start (last (union_step out new)) \<le> rg_start s)"
      using step(3) ns(4) by force
    from 1(1) [OF True n [symmetric] refl step(1) ns(2,3) this] step(2)
    have "canonical (union_loop (union_step out new) as' bs')"
      "lines (union_loop (union_step out new) as' bs') = lines out \<union> rg_lines new \<union> lines as' \<union> lines bs'"
      by auto
    moreover have "lines as \<union> lines bs = rg_lines new \<union> lines as' \<union> lines bs'"
      using ns(5) by (auto simp: lines_def)
    moreover have "union_loop out as bs = union_loop (union_step out new) as' bs'"
      using True n by (subst union_loop.simps) simp
    ultimately show ?thesis by auto
  next
    case False
    then show ?thesis using 1(2) by (subst (1 2) union_loop.simps) simp
  qed
qed

interpretation range_cmp: cmp_order range_cmp
  by unfold_locales (auto simp: range_cmp_def split: if_splits)

lemma sort_and_merge_lines:
  assumes "\<forall>r \<in> set rs. rg_start r \<le> rg_end r"
  shows "\<exists>rs'. sort_and_merge_range_set rs = Done rs' \<and> canonical rs' \<and> lines rs' = lines rs"
proof -
  let ?s = "git_qsort range_cmp rs"
  have s: "mset ?s = mset rs" "sorted_wrt (\<lambda>x y. range_cmp x y \<le> 0) ?s"
    unfolding git_qsort_def using range_cmp.msort_with_tmp_sorts [of rs] by auto
  have set: "set ?s = set rs" using s(1) by (metis set_mset_mset)
  have "ascending ?s"
    using s(2) assms unfolding ascending_def set
    by (auto simp: range_cmp_def elim!: sorted_wrt_mono_rel [rotated] split: if_splits)
  from merge_loop_lines [OF _ this, of "[]"]
  have "canonical (merge_loop [] ?s)" "lines (merge_loop [] ?s) = lines ?s" "length (merge_loop [] ?s) \<le> length ?s"
    by (auto simp: canonical_def)
  moreover have "length ?s = length rs" using s(1) by (metis size_mset)
  moreover have "lines ?s = lines rs" by (simp add: lines_def set)
  ultimately show ?thesis
    by (simp add: sort_and_merge_range_set_def Let_def check_invariants_canonical)
qed

section \<open>The difference\<close>

text \<open>Ranges in order that do not overlap; they may be empty and may touch.\<close>

definition in_order :: "range list \<Rightarrow> bool" where
  "in_order rs \<longleftrightarrow> (\<forall>r \<in> set rs. rg_start r \<le> rg_end r) \<and> sorted_wrt (\<lambda>r s. rg_end r \<le> rg_start s) rs"

definition clear :: "range \<Rightarrow> range \<Rightarrow> bool" where
  "clear p r \<longleftrightarrow> rg_end p \<le> rg_start r \<or> rg_end r \<le> rg_start p"

definition pieces_of :: "int \<Rightarrow> int \<Rightarrow> range list \<Rightarrow> range list \<Rightarrow> bool" where
  "pieces_of start stop b ps \<longleftrightarrow> in_order ps \<and> lines ps = {start..<stop} - lines b \<and>
     (\<forall>p \<in> set ps. start \<le> rg_start p \<and> rg_start p < rg_end p \<and> rg_end p \<le> stop \<and> (\<forall>r \<in> set b. clear p r))"

lemma append_Done:
  "a \<le> b \<Longrightarrow> rs = [] \<or> rg_end (last rs) \<le> a \<Longrightarrow>
     range_set_append rs a b = Done (rs @ [\<lparr>rg_start = a, rg_end = b\<rparr>])"
  by (simp add: range_set_append_def range_set_append_unsafe_def)

lemma dropWhile_in_order:
  fixes start :: int
  assumes "in_order b"
  defines "b1 \<equiv> dropWhile (\<lambda>r. rg_end r \<le> start) b"
  shows "in_order b1" and "\<forall>r \<in> set b. r \<in> set b1 \<or> rg_end r \<le> start" and "set b1 \<subseteq> set b"
    and "length (filter (\<lambda>r. start < rg_end r) b) = length (filter (\<lambda>r. start < rg_end r) b1)"
proof -
  have b: "b = takeWhile (\<lambda>r. rg_end r \<le> start) b @ b1" by (simp add: b1_def)
  show "in_order b1" using assms(1) b unfolding in_order_def by (metis sorted_wrt_append in_set_conv_decomp append.assoc append_Cons set_dropWhileD b1_def)
  show "\<forall>r \<in> set b. r \<in> set b1 \<or> rg_end r \<le> start"
    using b by (metis Un_iff set_append set_takeWhileD)
  show "set b1 \<subseteq> set b" by (auto simp: b1_def dest: set_dropWhileD)
  have "filter (\<lambda>r. start < rg_end r) (takeWhile (\<lambda>r. rg_end r \<le> start) b) = []"
    by (auto simp: filter_empty_conv not_less dest: set_takeWhileD)
  then show "length (filter (\<lambda>r. start < rg_end r) b) = length (filter (\<lambda>r. start < rg_end r) b1)"
    by (subst b) simp
qed

lemma filter_end_less:
  "start < start' \<Longrightarrow> rg_end r \<le> start' \<Longrightarrow> start < rg_end r \<Longrightarrow>
     length (filter (\<lambda>r. start' < rg_end r) (r # rs)) < length (filter (\<lambda>r. start < rg_end r) (r # rs))"
proof -
  assume a: "start < start'" "rg_end r \<le> start'" "start < rg_end r"
  have "filter (\<lambda>r. start' < rg_end r) rs = filter (\<lambda>r. start' < rg_end r) (filter (\<lambda>r. start < rg_end r) rs)"
    using a(1) by (auto intro!: filter_cong)
  then have "length (filter (\<lambda>r. start' < rg_end r) rs) \<le> length (filter (\<lambda>r. start < rg_end r) rs)"
    by (metis length_filter_le)
  then show ?thesis using a by simp
qed

lemma pieces_of_cong:
  assumes "pieces_of start stop b1 ps" and "set b1 \<subseteq> set b" and "\<forall>r \<in> set b. r \<in> set b1 \<or> rg_end r \<le> start"
  shows "pieces_of start stop b ps"
proof -
  have "{start..<stop} - lines b = {start..<stop} - lines b1"
    using assms(2,3) by (fastforce simp: lines_def rg_lines_def)
  moreover have "clear p r" if "p \<in> set ps" "r \<in> set b" for p r
    using assms that by (fastforce simp: pieces_of_def clear_def)
  ultimately show ?thesis using assms(1) by (auto simp: pieces_of_def)
qed

lemma difference_while_spec:
  assumes "in_order b" and "out = [] \<or> rg_end (last out) \<le> start"
    and "\<forall>r \<in> set b. rg_start r \<noteq> stop"
  shows "\<exists>ps b'. difference_while out start stop b = Some (Done (out @ ps, b')) \<and>
    pieces_of start stop b ps \<and> in_order b' \<and> set b' \<subseteq> set b \<and>
    (\<forall>r \<in> set b. r \<in> set b' \<or> rg_end r \<le> stop)"
  using assms
proof (induction "length (filter (\<lambda>r. start < rg_end r) b)" arbitrary: out start b rule: less_induct)
  case less
  define b1 where "b1 = dropWhile (\<lambda>r. rg_end r \<le> start) b"
  note d = dropWhile_in_order [OF less.prems(1), of start, folded b1_def]
  have sub: "\<forall>r \<in> set b. r \<in> set b1 \<or> rg_end r \<le> stop" if "start < stop" using d(2) that by force
  have whole: "\<exists>ps b'. Some (Done (out @ [\<lparr>rg_start = start, rg_end = stop\<rparr>], b1)) = Some (Done (out @ ps, b')) \<and>
      pieces_of start stop b ps \<and> in_order b' \<and> set b' \<subseteq> set b \<and> (\<forall>r \<in> set b. r \<in> set b' \<or> rg_end r \<le> stop)"
    if "start < stop" "\<forall>r \<in> set b1. stop \<le> rg_start r"
  proof -
    have "pieces_of start stop b1 [\<lparr>rg_start = start, rg_end = stop\<rparr>]"
      using that by (fastforce simp: pieces_of_def in_order_def lines_def rg_lines_def clear_def)
    from pieces_of_cong [OF this d(3,2)] show ?thesis
      using d(1,3) sub [OF that(1)] by blast
  qed
  show ?case
  proof (cases "start < stop")
    case False
    then have "pieces_of start stop b []" by (simp add: pieces_of_def in_order_def)
    moreover have "difference_while out start stop b = Some (Done (out @ [], b))"
      using False by (subst difference_while.simps) simp
    ultimately show ?thesis using less.prems(1) by blast
  next
    case True
    note unf = difference_while.simps [of out start stop b, unfolded b1_def [symmetric] Let_def]
    have app: "range_set_append out start stop = Done (out @ [\<lparr>rg_start = start, rg_end = stop\<rparr>])"
      using True less.prems(2) by (intro append_Done) auto
    show ?thesis
    proof (cases b1)
      case Nil
      then show ?thesis using whole True app unf by simp
    next
      case (Cons r rs)
      have r: "start < rg_end r" "r \<in> set b"
        using d(3) Cons hd_dropWhile [of "\<lambda>r. rg_end r \<le> start" b] b1_def by (auto simp: not_le)
      have ord: "\<forall>s \<in> set rs. rg_end r \<le> rg_start s" "rg_start r \<le> rg_end r"
        using d(1) Cons by (auto simp: in_order_def)
      have shorter: "length (filter (\<lambda>s. rg_end r < rg_end s) b1) < length (filter (\<lambda>r. start < rg_end r) b)"
        unfolding d(4) unfolding Cons by (rule filter_end_less) (use r(1) in auto)
      consider "stop < rg_start r" | "rg_start r \<le> start" | "start < rg_start r" "rg_start r < stop"
        using less.prems(3) r(2) by fastforce
      then show ?thesis
      proof cases
        case 1
        then have "\<forall>s \<in> set b1. stop \<le> rg_start s" using ord Cons by force
        then show ?thesis using whole True app unf Cons 1 by simp
      next
        case 2
        obtain ps b' where h: "difference_while out (rg_end r) stop b1 = Some (Done (out @ ps, b'))"
            "pieces_of (rg_end r) stop b1 ps" "in_order b'" "set b' \<subseteq> set b1"
            "\<forall>r \<in> set b1. r \<in> set b' \<or> rg_end r \<le> stop"
          using less.hyps [OF shorter d(1), of out] less.prems(2,3) r d(3) by fastforce
        have "{start..<stop} - lines b1 = {rg_end r..<stop} - lines b1"
          using 2 r(1) Cons by (auto simp: lines_def rg_lines_def)
        then have "pieces_of start stop b1 ps"
          using h(2) r(1) by (force simp: pieces_of_def)
        from pieces_of_cong [OF this d(3,2)]
        have "pieces_of start stop b ps" .
        moreover have "difference_while out start stop b = Some (Done (out @ ps, b'))"
          using True ord 2 Cons h(1) unf by simp
        ultimately show ?thesis using h(3-5) d(3) sub [OF True] by blast
      next
        case 3
        let ?p = "\<lparr>rg_start = start, rg_end = rg_start r\<rparr>"
        have app: "range_set_append out start (rg_start r) = Done (out @ [?p])"
          using 3 less.prems(2) by (intro append_Done) auto
        obtain ps b' where h: "difference_while (out @ [?p]) (rg_end r) stop b1 = Some (Done ((out @ [?p]) @ ps, b'))"
            "pieces_of (rg_end r) stop b1 ps" "in_order b'" "set b' \<subseteq> set b1"
            "\<forall>r \<in> set b1. r \<in> set b' \<or> rg_end r \<le> stop"
          using less.hyps [OF shorter d(1), of "out @ [?p]"] less.prems(3) ord(2) d(3) by fastforce
        have low: "\<forall>s \<in> set b1. rg_start r \<le> rg_start s" using ord Cons by force
        have "{start..<stop} - lines b1 = rg_lines ?p \<union> ({rg_end r..<stop} - lines b1)"
          using 3 ord(2) Cons low by (fastforce simp: lines_def rg_lines_def)
        moreover have "\<forall>s \<in> set b1. clear ?p s" using low by (simp add: clear_def)
        moreover have "\<forall>p \<in> set ps. rg_start r \<le> rg_start p" using h(2) ord(2) by (force simp: pieces_of_def)
        ultimately have "pieces_of start stop b1 (?p # ps)"
          using h(2) r(1) 3 unfolding pieces_of_def in_order_def by force
        from pieces_of_cong [OF this d(3,2)]
        have "pieces_of start stop b (?p # ps)" .
        moreover have "difference_while out start stop b = Some (Done (out @ (?p # ps), b'))"
          using True 3 Cons h(1) app unf by simp
        ultimately show ?thesis using h(3-5) d(3) sub [OF True] by blast
      qed
    qed
  qed
qed

lemma in_order_append:
  "in_order (xs @ ys) \<longleftrightarrow> in_order xs \<and> in_order ys \<and> (\<forall>x \<in> set xs. \<forall>y \<in> set ys. rg_end x \<le> rg_start y)"
  by (auto simp: in_order_def sorted_wrt_append)

lemma in_order_Cons:
  "in_order (x # xs) \<longleftrightarrow> rg_start x \<le> rg_end x \<and> in_order xs \<and> (\<forall>y \<in> set xs. rg_end x \<le> rg_start y)"
  by (auto simp: in_order_def)

lemma last_le: "\<forall>p \<in> set out. rg_end p \<le> a \<Longrightarrow> out = [] \<or> rg_end (last out) \<le> a"
  by (cases "out = []") auto

lemma append_range:
  assumes "rg_start p \<le> rg_end p" and "\<forall>x \<in> set rs. rg_end x \<le> rg_start p"
  shows "range_set_append rs (rg_start p) (rg_end p) = Done (rs @ [p])"
proof -
  have "\<lparr>rg_start = rg_start p, rg_end = rg_end p\<rparr> = p" by simp
  then show ?thesis using append_Done [OF assms(1) last_le [OF assms(2)]] by simp
qed

lemma difference_loop_spec:
  assumes "in_order a" and "in_order b" and "\<forall>x \<in> set a. \<forall>r \<in> set b. rg_start r \<noteq> rg_end x"
    and "\<forall>p \<in> set out. \<forall>x \<in> set a. rg_end p \<le> rg_start x"
  shows "\<exists>ps. difference_loop out a b = Some (Done (out @ ps)) \<and> in_order ps \<and>
    lines ps = lines a - lines b \<and>
    (\<forall>p \<in> set ps. rg_start p < rg_end p \<and> (\<forall>r \<in> set b. clear p r) \<and>
       (\<exists>x \<in> set a. rg_start x \<le> rg_start p \<and> rg_end p \<le> rg_end x))"
  using assms
proof (induction a arbitrary: out b)
  case Nil
  then show ?case by (auto simp: in_order_def)
next
  case (Cons x a)
  have out: "out = [] \<or> rg_end (last out) \<le> rg_start x"
    by (rule last_le) (use Cons.prems(4) in auto)
  have x: "rg_start x \<le> rg_end x" "in_order a" "\<forall>y \<in> set a. rg_end x \<le> rg_start y"
    using Cons.prems(1) by (auto simp: in_order_Cons)
  obtain ps b' where w: "difference_while out (rg_start x) (rg_end x) b = Some (Done (out @ ps, b'))"
      "pieces_of (rg_start x) (rg_end x) b ps" "in_order b'" "set b' \<subseteq> set b"
      "\<forall>r \<in> set b. r \<in> set b' \<or> rg_end r \<le> rg_end x"
    using difference_while_spec [OF Cons.prems(2) out, of "rg_end x"] Cons.prems(3) by auto
  have ps: "in_order ps" "lines ps = rg_lines x - lines b"
      "\<forall>p \<in> set ps. rg_start x \<le> rg_start p \<and> rg_start p < rg_end p \<and> rg_end p \<le> rg_end x \<and> (\<forall>r \<in> set b. clear p r)"
    using w(2) by (auto simp: pieces_of_def rg_lines_def)
  have "\<exists>qs. difference_loop (out @ ps) a b' = Some (Done ((out @ ps) @ qs)) \<and> in_order qs \<and>
    lines qs = lines a - lines b' \<and>
    (\<forall>p \<in> set qs. rg_start p < rg_end p \<and> (\<forall>r \<in> set b'. clear p r) \<and>
       (\<exists>x \<in> set a. rg_start x \<le> rg_start p \<and> rg_end p \<le> rg_end x))"
  proof (rule Cons.IH [OF x(2) w(3)])
    show "\<forall>x \<in> set a. \<forall>r \<in> set b'. rg_start r \<noteq> rg_end x" using Cons.prems(3) w(4) by auto
    show "\<forall>p \<in> set (out @ ps). \<forall>x \<in> set a. rg_end p \<le> rg_start x"
      using Cons.prems(4) ps(3) x(3) by fastforce
  qed
  then obtain qs where q: "difference_loop (out @ ps) a b' = Some (Done ((out @ ps) @ qs))" "in_order qs"
    "lines qs = lines a - lines b'"
    "\<forall>p \<in> set qs. rg_start p < rg_end p \<and> (\<forall>r \<in> set b'. clear p r) \<and>
       (\<exists>x \<in> set a. rg_start x \<le> rg_start p \<and> rg_end p \<le> rg_end x)" by blast
  have late: "rg_end x \<le> rg_start p" if "p \<in> set qs" for p using q(4) x(3) that by force
  have "lines a - lines b' = lines a - lines b"
    using w(4,5) x(3) by (fastforce simp: lines_def rg_lines_def)
  then have "lines (ps @ qs) = lines (x # a) - lines b" using ps(2) q(3) by auto
  moreover have "in_order (ps @ qs)" using ps(1,3) q(2) late by (fastforce simp: in_order_append)
  moreover have "clear p r" if "p \<in> set qs" "r \<in> set b" for p r
    using q(4) w(5) late [OF that(1)] that by (fastforce simp: clear_def)
  moreover have "difference_loop out (x # a) b = Some (Done (out @ (ps @ qs)))" using w(1) q(1) by simp
  moreover have "rg_start p < rg_end p \<and> (\<forall>r \<in> set b. clear p r) \<and>
      (\<exists>y \<in> set (x # a). rg_start y \<le> rg_start p \<and> rg_end p \<le> rg_end y)" if "p \<in> set (ps @ qs)" for p
    using that ps(3) q(4) calculation(3) by (cases "p \<in> set ps") auto
  ultimately show ?case by blast
qed

section \<open>Hunks that touch a set\<close>

definition hunks_ok :: "(range \<times> range) list \<Rightarrow> bool" where
  "hunks_ok hunks \<longleftrightarrow> in_order (map fst hunks) \<and> in_order (map snd hunks)"

lemma hunks_ok_Cons:
  "hunks_ok ((p, t) # hunks) \<longleftrightarrow> rg_start p \<le> rg_end p \<and> rg_start t \<le> rg_end t \<and> hunks_ok hunks \<and>
     (\<forall>(p', t') \<in> set hunks. rg_end p \<le> rg_start p' \<and> rg_end t \<le> rg_start t')"
  by (fastforce simp: hunks_ok_def in_order_Cons)

definition touches :: "range list \<Rightarrow> range \<times> range \<Rightarrow> bool" where
  "touches rs h \<longleftrightarrow> (\<exists>r \<in> set rs. ranges_overlap (snd h) r)"

lemma filter_touched_loop_spec:
  assumes "hunks_ok hunks" and "canonical rs" and "rs \<noteq> []"
    and "\<forall>(p, t) \<in> set hunks. \<forall>r \<in> set rs. rg_start t \<noteq> rg_end r"
    and "\<forall>x \<in> set op. \<forall>(p, t) \<in> set hunks. rg_end x \<le> rg_start p"
    and "\<forall>x \<in> set ot. \<forall>(p, t) \<in> set hunks. rg_end x \<le> rg_start t"
  shows "filter_touched_loop (op, ot) hunks rs =
    Done (op @ map fst (filter (touches rs) hunks), ot @ map snd (filter (touches rs) hunks))"
  using assms
proof (induction hunks arbitrary: op ot rs)
  case (Cons h hunks)
  obtain p t where h: "h = (p, t)" by force
  note prems = Cons.prems [unfolded h]
  have ok: "rg_start p \<le> rg_end p" "rg_start t \<le> rg_end t" "hunks_ok hunks"
      "\<forall>(p', t') \<in> set hunks. rg_end p \<le> rg_start p' \<and> rg_end t \<le> rg_start t'"
    using prems(1) by (auto simp: hunks_ok_Cons)
  define rs1 where "rs1 = dropWhile (\<lambda>r. rg_end r < rg_start t) rs"
  have rs: "rs = takeWhile (\<lambda>r. rg_end r < rg_start t) rs @ rs1" by (simp add: rs1_def)
  have can: "canonical rs1" using prems(2) rs unfolding canonical_def
    by (metis sorted_wrt_append in_set_conv_decomp append.assoc append_Cons set_dropWhileD rs1_def)
  have sub: "set rs1 \<subseteq> set rs" by (auto simp: rs1_def dest: set_dropWhileD)
  have gone: "rg_end r < rg_start t" if "r \<in> set rs" "r \<notin> set rs1" for r
    using that rs by (metis Un_iff set_append set_takeWhileD)
  have same: "touches rs (p', t') = touches rs1 (p', t')" if "(p', t') \<in> set ((p, t) # hunks)" for p' t'
    using that ok(2,4) gone sub by (fastforce simp: touches_def ranges_overlap_def)
  have touch: "filter (touches rs) ((p, t) # hunks) = filter (touches rs1) ((p, t) # hunks)"
    by (rule filter_cong [OF refl]) (use same in auto)
  have app: "range_set_append op (rg_start p) (rg_end p) = Done (op @ [p])"
    "range_set_append ot (rg_start t) (rg_end t) = Done (ot @ [t])"
    using prems(5,6) ok(1,2) by (auto intro!: append_range)
  show ?case
  proof (cases "rs1 = []")
    case True
    have "\<not> touches rs1 h'" for h' using True by (simp add: touches_def)
    then have "filter (touches rs1) ((p, t) # hunks) = []" by simp
    then show ?thesis unfolding h touch using True prems(3) by (simp add: rs1_def [symmetric] Let_def)
  next
    case False
    then obtain r rs2 where r: "rs1 = r # rs2" by (cases rs1) auto
    have "\<not> rg_end r < rg_start t"
      using hd_dropWhile [of "\<lambda>r. rg_end r < rg_start t" rs] False r by (simp add: rs1_def)
    moreover have "rg_start t \<noteq> rg_end r" using prems(4) r sub by auto
    ultimately have re: "rg_start t < rg_end r" by linarith
    have "touches rs1 (p, t) \<longleftrightarrow> ranges_overlap t r"
      using can re r by (fastforce simp: touches_def ranges_overlap_def canonical_def)
    moreover have "\<forall>(p, t) \<in> set hunks. \<forall>r \<in> set rs1. rg_start t \<noteq> rg_end r" using prems(4) sub by fastforce
    moreover have "filter_touched_loop (op', ot') hunks rs1 =
        Done (op' @ map fst (filter (touches rs1) hunks), ot' @ map snd (filter (touches rs1) hunks))"
      if "op' = op \<and> ot' = ot \<or> op' = op @ [p] \<and> ot' = ot @ [t]" for op' ot'
      by (rule Cons.IH [OF ok(3) can False])
        (use calculation(2) that prems(5,6) ok(4) in fastforce)+
    ultimately show ?thesis
      unfolding h touch using False prems(3) app r by (simp add: rs1_def [symmetric] Let_def)
  qed
qed simp

section \<open>Shifting\<close>

definition rg_len :: "range \<Rightarrow> int" where
  "rg_len r = rg_end r - rg_start r"

text \<open>How far a line of the target moves: all hunks that start at or before it count.\<close>

definition line_offset :: "(range \<times> range) list \<Rightarrow> int \<Rightarrow> int" where
  "line_offset hunks l = (\<Sum>(p, t) \<leftarrow> hunks. if rg_start t \<le> l then rg_len p - rg_len t else 0)"

lemma line_offset_simps [simp]:
  "line_offset [] l = 0"
  "line_offset ((p, t) # hunks) l =
     (if rg_start t \<le> l then rg_len p - rg_len t else 0) + line_offset hunks l"
  by (simp_all add: line_offset_def)

lemma line_offset_0: "\<forall>(p, t) \<in> set hunks. s < rg_start t \<Longrightarrow> line_offset hunks s = 0"
  by (induction hunks) auto

lemma shift_while_spec:
  assumes "hunks_ok hunks" and "shift_while A s hunks = (A', hunks')"
  shows "hunks_ok hunks' \<and> line_offset hunks' s = 0 \<and>
    (\<forall>l \<ge> s. A + line_offset hunks l = A' + line_offset hunks' l)"
  using assms
proof (induction A s hunks rule: shift_while.induct)
  case (2 A s p t hunks)
  show ?case
  proof (cases "rg_start t \<le> s")
    case True
    then show ?thesis using 2 by (auto simp: hunks_ok_Cons rg_len_def)
  next
    case False
    have "line_offset hunks s = 0"
      by (rule line_offset_0) (use 2(2) False in \<open>fastforce simp: hunks_ok_Cons\<close>)
    then show ?thesis using False 2(2,3) by auto
  qed
qed simp

lemma hunks_between:
  assumes "hunks_ok hunks" and "a \<le> b"
  shows "(\<Sum>(p, t) \<leftarrow> hunks. if a \<le> rg_start t \<and> rg_end t \<le> b then rg_len t else 0) \<le> b - a"
  using assms
proof (induction hunks arbitrary: a)
  case (Cons h hunks)
  obtain p t where h: "h = (p, t)" by force
  have ok: "rg_start t \<le> rg_end t" "hunks_ok hunks" "\<forall>(p', t') \<in> set hunks. rg_end t \<le> rg_start t'"
    using Cons.prems(1) unfolding h hunks_ok_Cons by auto
  show ?case
  proof (cases "a \<le> rg_start t \<and> rg_end t \<le> b")
    case True
    have same: "map (\<lambda>(p, t). if a \<le> rg_start t \<and> rg_end t \<le> b then rg_len t else 0) hunks =
        map (\<lambda>(p, t'). if rg_end t \<le> rg_start t' \<and> rg_end t' \<le> b then rg_len t' else 0) hunks"
      using ok(1,3) True by (intro map_cong [OF refl]) (auto split: prod.splits)
    have "(\<Sum>(p, t') \<leftarrow> hunks. if rg_end t \<le> rg_start t' \<and> rg_end t' \<le> b then rg_len t' else 0) \<le> b - rg_end t"
      by (rule Cons.IH [OF ok(2)]) (use True in simp)
    then show ?thesis using True unfolding h list.map same by (simp add: rg_len_def)
  next
    case False
    then show ?thesis using Cons.IH [OF ok(2) Cons.prems(2)] unfolding h list.map by (simp only: prod.case if_False sum_list.Cons add_0)
  qed
qed simp

lemma shift_key:
  assumes "\<forall>(q, t) \<in> set hunks. rg_start q \<le> rg_end q \<and> rg_start t \<le> rg_end t \<and> clear p1 t \<and> clear p2 t"
    and "rg_start p1 < rg_end p1" and "rg_end p1 \<le> rg_start p2" and "rg_start p2 < rg_end p2"
  shows "line_offset hunks (rg_start p1) \<le> line_offset hunks (rg_start p2) +
    (\<Sum>(q, t) \<leftarrow> hunks. if rg_end p1 \<le> rg_start t \<and> rg_end t \<le> rg_start p2 then rg_len t else 0)"
  using assms(1)
proof (induction hunks)
  case (Cons h hunks)
  obtain q t where h: "h = (q, t)" by force
  have f: "rg_start q \<le> rg_end q" "rg_start t \<le> rg_end t" "clear p1 t" "clear p2 t"
    using Cons.prems by (auto simp: h)
  have "(if rg_start t \<le> rg_start p1 then rg_len q - rg_len t else 0) \<le>
      (if rg_start t \<le> rg_start p2 then rg_len q - rg_len t else 0) +
      (if rg_end p1 \<le> rg_start t \<and> rg_end t \<le> rg_start p2 then rg_len t else 0)"
    using f assms(2-4) by (auto simp: clear_def rg_len_def)
  moreover have "line_offset hunks (rg_start p1) \<le> line_offset hunks (rg_start p2) +
    (\<Sum>(q, t) \<leftarrow> hunks. if rg_end p1 \<le> rg_start t \<and> rg_end t \<le> rg_start p2 then rg_len t else 0)"
    using Cons by auto
  ultimately show ?case unfolding h by simp
qed simp

definition shifted :: "(range \<times> range) list \<Rightarrow> range \<Rightarrow> range" where
  "shifted hunks p = \<lparr>rg_start = rg_start p + line_offset hunks (rg_start p),
     rg_end = rg_end p + line_offset hunks (rg_start p)\<rparr>"

definition between_hunks :: "(range \<times> range) list \<Rightarrow> range list \<Rightarrow> bool" where
  "between_hunks hunks ps \<longleftrightarrow> in_order ps \<and>
     (\<forall>p \<in> set ps. rg_start p < rg_end p \<and> (\<forall>(q, t) \<in> set hunks. clear p t))"

lemma shifted_apart:
  assumes "hunks_ok hunks" and "between_hunks hunks (p # ps)" and "p' \<in> set ps"
  shows "rg_end (shifted hunks p) \<le> rg_start (shifted hunks p')"
proof -
  have ord: "rg_end p \<le> rg_start p'" "rg_start p < rg_end p" "rg_start p' < rg_end p'"
    using assms(2,3) by (auto simp: between_hunks_def in_order_Cons)
  have "\<forall>(q, t) \<in> set hunks. rg_start q \<le> rg_end q \<and> rg_start t \<le> rg_end t"
    using assms(1) by (fastforce simp: hunks_ok_def in_order_def)
  then have "\<forall>(q, t) \<in> set hunks. rg_start q \<le> rg_end q \<and> rg_start t \<le> rg_end t \<and> clear p t \<and> clear p' t"
    using assms(2,3) by (fastforce simp: between_hunks_def)
  from shift_key [OF this ord(2,1,3)] hunks_between [OF assms(1) ord(1)]
  show ?thesis by (simp add: shifted_def)
qed

lemma shift_loop_spec:
  assumes "hunks_ok hunks" and "between_hunks hunks src" and "hunks_ok hs"
    and "\<forall>p \<in> set src. \<forall>l \<ge> rg_start p. line_offset hunks l = A + line_offset hs l"
    and "\<forall>p \<in> set src. \<forall>x \<in> set out. rg_end x \<le> rg_start (shifted hunks p)"
  shows "shift_loop out A src hs = Done (out @ map (shifted hunks) src)"
  using assms(2-5)
proof (induction src arbitrary: out A hs)
  case (Cons r src)
  obtain A' hs' where w: "shift_while A (rg_start r) hs = (A', hs')" by force
  note ws = shift_while_spec [OF Cons.prems(2) w]
  have off: "line_offset hunks (rg_start r) = A'" using Cons.prems(3) ws by auto
  have r: "rg_start r < rg_end r" using Cons.prems(1) by (simp add: between_hunks_def)
  have app: "range_set_append out (rg_start r + A') (rg_end r + A') = Done (out @ [shifted hunks r])"
    using append_range [of "shifted hunks r" out] r Cons.prems(4) by (simp add: shifted_def off)
  have "shift_loop (out @ [shifted hunks r]) A' src hs' = Done ((out @ [shifted hunks r]) @ map (shifted hunks) src)"
  proof (rule Cons.IH)
    show "between_hunks hunks src" using Cons.prems(1) by (simp add: between_hunks_def in_order_Cons)
    show "hunks_ok hs'" using ws by blast
    show "\<forall>p \<in> set src. \<forall>l \<ge> rg_start p. line_offset hunks l = A' + line_offset hs' l"
    proof (intro ballI allI impI)
      fix p l assume p: "p \<in> set src" "rg_start p \<le> l"
      then have "rg_start r \<le> l" using Cons.prems(1) r by (fastforce simp: between_hunks_def in_order_Cons)
      then show "line_offset hunks l = A' + line_offset hs' l" using ws Cons.prems(3) by simp
    qed
    show "\<forall>p \<in> set src. \<forall>x \<in> set (out @ [shifted hunks r]). rg_end x \<le> rg_start (shifted hunks p)"
      using Cons.prems(4) shifted_apart [OF assms(1) Cons.prems(1)] by auto
  qed
  then show ?case by (simp add: w app)
qed simp

lemma shifted_in_order:
  "hunks_ok hunks \<Longrightarrow> between_hunks hunks src \<Longrightarrow> in_order (map (shifted hunks) src)"
proof (induction src)
  case (Cons r src)
  then have "in_order (map (shifted hunks) src)" by (simp add: between_hunks_def in_order_Cons)
  moreover have "rg_start (shifted hunks r) \<le> rg_end (shifted hunks r)"
    using Cons.prems(2) by (simp add: between_hunks_def shifted_def)
  ultimately show ?case
    using shifted_apart [OF Cons.prems] by (simp add: in_order_Cons)
qed (simp add: in_order_def)

text \<open>Every line of a range between the hunks moves as far as the first one.\<close>

lemma line_offset_const:
  assumes "\<forall>(q, t) \<in> set hunks. rg_start t \<le> rg_end t \<and> clear p t" and "l \<in> rg_lines p"
  shows "line_offset hunks l = line_offset hunks (rg_start p)"
  using assms(1)
proof (induction hunks)
  case (Cons h hunks)
  obtain q t where h: "h = (q, t)" by force
  have "rg_start t \<le> l \<longleftrightarrow> rg_start t \<le> rg_start p"
    using Cons.prems assms(2) by (auto simp: h rg_lines_def clear_def)
  then show ?case using Cons by (simp add: h)
qed simp

lemma lines_shifted:
  assumes "hunks_ok hunks" and "between_hunks hunks src"
  shows "lines (map (shifted hunks) src) = (\<lambda>l. l + line_offset hunks l) ` lines src"
proof -
  have "rg_lines (shifted hunks p) = (\<lambda>l. l + line_offset hunks l) ` rg_lines p" if "p \<in> set src" for p
  proof -
    have "\<forall>(q, t) \<in> set hunks. rg_start t \<le> rg_end t \<and> clear p t"
      using assms that by (fastforce simp: hunks_ok_def in_order_def between_hunks_def)
    then have "(\<lambda>l. l + line_offset hunks l) ` rg_lines p = (\<lambda>l. l + line_offset hunks (rg_start p)) ` rg_lines p"
      by (intro image_cong refl) (simp add: line_offset_const)
    also have "\<dots> = rg_lines (shifted hunks p)"
      unfolding rg_lines_def shifted_def by (auto simp: image_iff)
    finally show ?thesis ..
  qed
  then show ?thesis by (simp add: lines_def image_UN)
qed

section \<open>Properties\<close>

text \<open>
  C11: sorting and merging user input, and the union of two sets, give
  the canonical set of exactly the lines of their arguments, and no assertion fails.
\<close>

theorem range_sets_as_line_sets:
  assumes "\<forall>r \<in> set rs. rg_start r \<le> rg_end r" and "canonical a" and "canonical b"
  shows "(\<exists>rs'. sort_and_merge_range_set rs = Done rs' \<and> canonical rs' \<and> lines rs' = lines rs) \<and>
    (\<exists>u. range_set_union [] a b = Done u \<and> canonical u \<and> lines u = lines a \<union> lines b)"
proof -
  have asc: "ascending x" if "canonical x" for x
    using that by (auto simp: canonical_def ascending_def elim!: sorted_wrt_mono_rel [rotated])
  have "canonical (union_loop [] a b)" "lines (union_loop [] a b) = lines a \<union> lines b"
    using union_loop_lines [OF _ asc [OF assms(2)] asc [OF assms(3)], of "[]"]
    by (auto simp: canonical_def)
  then show ?thesis using sort_and_merge_lines [OF assms(1)] by (simp add: range_set_union_def)
qed

lemma range_sets_as_line_sets_witness:
  "\<exists>u. range_set_union [] [\<lparr>rg_start = 1, rg_end = 3\<rparr>] [\<lparr>rg_start = 2, rg_end = 5\<rparr>] = Done u \<and> lines u = {1..<5}"
proof -
  let ?a = "[\<lparr>rg_start = 1, rg_end = 3\<rparr>]" and ?b = "[\<lparr>rg_start = 2, rg_end = 5\<rparr>]"
  have "\<exists>u. range_set_union [] ?a ?b = Done u \<and> canonical u \<and> lines u = lines ?a \<union> lines ?b"
    using range_sets_as_line_sets [of "[]" ?a ?b] by (simp add: canonical_def)
  moreover have "lines ?a \<union> lines ?b = {1..<5}" by (auto simp: rg_lines_def)
  ultimately show ?thesis by auto
qed

lemma canonical_in_order: "canonical rs \<Longrightarrow> in_order rs"
  by (auto simp: canonical_def in_order_def elim!: sorted_wrt_mono_rel [rotated])

text \<open>
  C38: the difference of two canonical sets returns, provided no
  range of the second starts where one of the first ends, and has exactly the lines of the first that are
  not in the second.
\<close>

theorem range_set_difference_lines:
  assumes "canonical a" and "canonical b" and "\<forall>x \<in> set a. \<forall>r \<in> set b. rg_start r \<noteq> rg_end x"
  shows "\<exists>d. range_set_difference [] a b = Some (Done d) \<and> in_order d \<and> lines d = lines a - lines b"
  using difference_loop_spec [OF assms(1,2) [THEN canonical_in_order] assms(3), of "[]"]
  by (auto simp: range_set_difference_def)

lemma range_set_difference_lines_witness:
  "\<exists>d. range_set_difference [] [\<lparr>rg_start = 1, rg_end = 5\<rparr>] [\<lparr>rg_start = 2, rg_end = 3\<rparr>] = Some (Done d) \<and>
     lines d = {1..<5} - {2..<3}"
  using range_set_difference_lines [of "[\<lparr>rg_start = 1, rg_end = 5\<rparr>]" "[\<lparr>rg_start = 2, rg_end = 3\<rparr>]"]
  by (auto simp: canonical_def rg_lines_def)

text \<open>The proviso is needed: when a range ends where the other set begins, the loop never ends.\<close>

lemma difference_while_loops:
  assumes "start < stop" and "in_order (r # rs)" and "rg_start r = stop" and "stop < rg_end r"
  shows "difference_while out start stop (r # rs) = None"
proof (rule ccontr)
  assume "difference_while out start stop (r # rs) \<noteq> None"
  then obtain y where "difference_while out start stop (r # rs) = Some y" by blast
  moreover have "difference_while out' start' stop' b = Some y \<Longrightarrow>
      start' = start \<longrightarrow> stop' = stop \<longrightarrow> b \<noteq> r # rs" for out' start' stop' b y
  proof (induct out' start' stop' b y rule: difference_while.raw_induct [rotated, consumes 1, case_names step])
    case (step f out' start' stop' b y)
    show ?case
    proof (intro impI notI)
      assume eq: "start' = start" "stop' = stop" "b = r # rs"
      then have "f out' start' stop' b = Some y"
        using step(2) assms by (simp add: Let_def)
      from step(1) [OF this] eq show False by blast
    qed
  qed
  ultimately show False by blast
qed

lemma range_set_difference_loops:
  "range_set_difference [] [\<lparr>rg_start = 1, rg_end = 5\<rparr>] [\<lparr>rg_start = 5, rg_end = 7\<rparr>] = None"
  by (simp add: range_set_difference_def difference_while_loops in_order_def)

lemma touched_in_order:
  assumes "hunks_ok hunks"
  shows "in_order (map fst (filter (touches rs) hunks))" and "in_order (map snd (filter (touches rs) hunks))"
  using assms unfolding hunks_ok_def in_order_def sorted_wrt_map by (auto simp: sorted_wrt_filter)

text \<open>What is left outside the touched hunks lies between the hunks.\<close>

lemma untouched_lines:
  assumes rs: "canonical rs" and ok: "hunks_ok hunks"
    and adj: "\<forall>(p, t) \<in> set hunks. \<forall>r \<in> set rs. rg_start t \<noteq> rg_end r"
  shows "\<exists>tmp1. difference_loop [] rs (map snd (filter (touches rs) hunks)) = Some (Done tmp1) \<and>
    lines tmp1 = lines rs - lines (map snd (filter (touches rs) hunks)) \<and> between_hunks hunks tmp1"
proof -
  let ?touched = "map snd (filter (touches rs) hunks)"
  have tadj: "\<forall>x \<in> set rs. \<forall>r \<in> set ?touched. rg_start r \<noteq> rg_end x"
    using adj by fastforce
  obtain tmp1 where t1: "difference_loop [] rs ?touched = Some (Done tmp1)" "in_order tmp1"
      "lines tmp1 = lines rs - lines ?touched"
      "\<forall>p \<in> set tmp1. rg_start p < rg_end p \<and> (\<forall>r \<in> set ?touched. clear p r) \<and>
        (\<exists>x \<in> set rs. rg_start x \<le> rg_start p \<and> rg_end p \<le> rg_end x)"
    using difference_loop_spec [OF canonical_in_order [OF rs] touched_in_order(2) [OF ok] tadj, of "[]"] by auto
  have "clear p t" if p: "p \<in> set tmp1" and h: "(q, t) \<in> set hunks" for p q t
  proof (cases "touches rs (q, t)")
    case True
    then have "t \<in> set ?touched" using h by force
    then show ?thesis using t1(4) p by blast
  next
    case False
    obtain x where "x \<in> set rs" "rg_start x \<le> rg_start p" "rg_end p \<le> rg_end x" using t1(4) p by blast
    then show ?thesis using False by (force simp: touches_def ranges_overlap_def clear_def)
  qed
  then have "between_hunks hunks tmp1" using t1(2,4) by (auto simp: between_hunks_def)
  then show ?thesis using t1(1,3) by blast
qed

text \<open>
  C12: mapping a set across a diff with ordered hunks, none of which starts
  where a range ends, returns, and no assertion fails. The result is canonical and has
  the lines outside the touched hunks, moved by the hunks before them, and
  the parent's lines of the touched hunks.
\<close>

theorem map_across_diff_lines:
  assumes "canonical rs" and "rs \<noteq> []" and "length parent = length target"
    and "hunks_ok (zip parent target)" and "\<forall>t \<in> set target. \<forall>r \<in> set rs. rg_start t \<noteq> rg_end r"
  defines "hunks \<equiv> zip parent target"
  defines "touched \<equiv> filter (touches rs) hunks"
  shows "\<exists>out. range_set_map_across_diff [] rs \<lparr>parent_ranges = parent, target_ranges = target\<rparr> =
      Some (Done (out, \<lparr>parent_ranges = map fst touched, target_ranges = map snd touched\<rparr>)) \<and>
    canonical out \<and>
    lines out = (\<lambda>l. l + line_offset hunks l) ` (lines rs - lines (map snd touched)) \<union> lines (map fst touched)"
proof -
  let ?diff = "\<lparr>parent_ranges = parent, target_ranges = target\<rparr>"
  have ok: "hunks_ok hunks" using assms(4) by (simp add: hunks_def)
  have adj: "\<forall>(p, t) \<in> set hunks. \<forall>r \<in> set rs. rg_start t \<noteq> rg_end r"
    using assms(5) by (auto simp: hunks_def dest: set_zip_rightD)
  have "filter_touched_loop ([], []) hunks rs = Done (map fst touched, map snd touched)"
    using filter_touched_loop_spec [OF ok assms(1,2) adj, of "[]" "[]"] by (simp add: touched_def)
  then have ft: "diff_ranges_filter_touched \<lparr>parent_ranges = [], target_ranges = []\<rparr> ?diff rs =
      Done \<lparr>parent_ranges = map fst touched, target_ranges = map snd touched\<rparr>"
    using assms(3) by (simp add: diff_ranges_filter_touched_def hunks_def)
  obtain tmp1 where t1: "difference_loop [] rs (map snd touched) = Some (Done tmp1)"
      "lines tmp1 = lines rs - lines (map snd touched)" and bh: "between_hunks hunks tmp1"
    using untouched_lines [OF assms(1) ok adj] unfolding touched_def by blast
  have tord: "in_order (map fst touched)" unfolding touched_def by (rule touched_in_order [OF ok])
  let ?tmp2 = "map (shifted hunks) tmp1"
  have "shift_loop [] 0 tmp1 hunks = Done ?tmp2"
    using shift_loop_spec [OF ok bh ok, of 0 "[]"] by simp
  then have sd: "range_set_shift_diff [] tmp1 ?diff = Done ?tmp2"
    using assms(3) by (simp add: range_set_shift_diff_def hunks_def)
  have asc: "ascending x" if "in_order x" for x
    using that by (auto simp: in_order_def ascending_def elim!: sorted_wrt_mono_rel [rotated])
  let ?out = "union_loop [] ?tmp2 (map fst touched)"
  have out: "canonical ?out" "lines ?out = lines ?tmp2 \<union> lines (map fst touched)"
    using union_loop_lines [OF _ asc [OF shifted_in_order [OF ok bh]] asc [OF tord], of "[]"]
    by (auto simp: canonical_def)
  have "range_set_map_across_diff [] rs ?diff =
      Some (Done (?out, \<lparr>parent_ranges = map fst touched, target_ranges = map snd touched\<rparr>))"
    by (simp add: range_set_map_across_diff_def ft range_set_difference_def t1(1) sd range_set_union_def)
  then show ?thesis using out by (auto simp: lines_shifted [OF ok bh] t1(2))
qed

lemma map_across_diff_lines_witness:
  "\<exists>out. range_set_map_across_diff [] [\<lparr>rg_start = 3, rg_end = 7\<rparr>]
      \<lparr>parent_ranges = [\<lparr>rg_start = 1, rg_end = 4\<rparr>], target_ranges = [\<lparr>rg_start = 1, rg_end = 5\<rparr>]\<rparr> = Some (Done out) \<and>
    canonical (fst out)"
  using map_across_diff_lines [of "[\<lparr>rg_start = 3, rg_end = 7\<rparr>]"
      "[\<lparr>rg_start = 1, rg_end = 4\<rparr>]" "[\<lparr>rg_start = 1, rg_end = 5\<rparr>]"]
  by (auto simp: canonical_def hunks_ok_def in_order_def)

text \<open>
  This proviso is needed too: a hunk that starts where a range ends stops the search at
  that range, so that the next range is not seen to be touched, and then the shift
  makes an assertion fail. Following lines 1 to 4 and 6 to 8 (counted from 0) over a commit that added lines 5 to 7
  does it.
\<close>

lemma map_across_diff_stops:
  "range_set_map_across_diff [] [\<lparr>rg_start = 1, rg_end = 5\<rparr>, \<lparr>rg_start = 6, rg_end = 9\<rparr>]
     \<lparr>parent_ranges = [\<lparr>rg_start = 5, rg_end = 5\<rparr>], target_ranges = [\<lparr>rg_start = 5, rg_end = 8\<rparr>]\<rparr> = Some Stopped"
proof -
  let ?rs = "[\<lparr>rg_start = 1, rg_end = 5\<rparr>, \<lparr>rg_start = 6, rg_end = 9\<rparr>]"
  have "difference_loop [] ?rs [] = Some (Done ?rs)"
    by (simp add: difference_while.simps range_set_append_def range_set_append_unsafe_def)
  then show ?thesis
    by (simp add: range_set_map_across_diff_def diff_ranges_filter_touched_def ranges_overlap_def
        range_set_difference_def range_set_shift_diff_def range_set_append_def range_set_append_unsafe_def Let_def)
qed

end
