(* ===== verification/Varint.thy ===== *)
theory Varint
  imports Git_Prelude
begin

unbundle bit_operations_syntax

text \<open>
  \<^verbatim>\<open>varint.c\<close>: the variable-width integers of the index and of pack files. Seven bits to a
  byte, the high bit set on all bytes but the last, most significant byte first; every
  continuation adds one, so that no number has two encodings. \<open>uintmax_t\<close> is 64 bits wide.
\<close>

section \<open>The code\<close>

text \<open>The macro \<open>MSB(val, 7)\<close>: the top seven bits.\<close>

definition MSB7 :: "u64 \<Rightarrow> u64" where
  "MSB7 x = x AND push_bit (64 - 7) (NOT 0)"

text \<open>
  The loop of \<open>decode_varint\<close>. \<open>None\<close> is a read past the end of the buffer, which the C
  code does not check; \<open>Some None\<close> is the early return on overflow, which leaves
  \<open>*bufp\<close> where it was.
\<close>

fun decode_varint_loop :: "byte \<Rightarrow> u64 \<Rightarrow> byte list \<Rightarrow> (u64 \<times> byte list) option option" where
  "decode_varint_loop c val buf =
     (if c AND 128 = 0 then Some (Some (val, buf))
      else (let val = val + 1 in
        if val = 0 \<or> MSB7 val \<noteq> 0 then Some None
        else (case buf of
            [] \<Rightarrow> None
          | c # buf \<Rightarrow> decode_varint_loop c (push_bit 7 val + ucast (c AND 127)) buf)))"

definition decode_varint :: "byte list \<Rightarrow> (u64 \<times> byte list) option" where
  "decode_varint bufp =
     (case bufp of
        [] \<Rightarrow> None
      | c # buf \<Rightarrow>
          (case decode_varint_loop c (ucast (c AND 127)) buf of
             None \<Rightarrow> None
           | Some None \<Rightarrow> Some (0, bufp)
           | Some (Some (val, buf)) \<Rightarrow> Some (val, buf)))"

text \<open>
  The loop of \<open>encode_varint\<close>. The C code fills a 16-byte array from its end; the list is the
  part of that array from \<open>pos\<close> on (\<open>varint_length\<close> below bounds it by 10 bytes, so
  \<open>pos\<close> never passes the start of the array).
\<close>

function encode_varint_loop :: "u64 \<Rightarrow> byte list \<Rightarrow> byte list" where
  "encode_varint_loop value varint =
     (let value = drop_bit 7 value in
      if value = 0 then varint
      else (let value = value - 1 in
        encode_varint_loop value ((128 OR ucast (value AND 127)) # varint)))"
  by pat_completeness auto
termination
proof (relation "measure (\<lambda>(v, _). unat v)", goal_cases)
  case 1
  show ?case by simp
next
  case (2 v bs x xa)
  have "unat (drop_bit 7 v) = unat v div 2 ^ 7"
    by (subst unat_drop_bit_eq) (rule drop_bit_eq_div)
  then have "unat (drop_bit 7 v) \<le> unat v"
    by (simp only: div_le_dividend)
  moreover have "unat (drop_bit 7 v - 1) < unat (drop_bit 7 v)"
    using 2 by (metis measure_unat)
  ultimately show ?case using 2 by simp
qed

declare encode_varint_loop.simps [simp del] decode_varint_loop.simps [simp del]

text \<open>
  The result is the number of bytes, and the buffer (when it is not NULL) with its first bytes
  overwritten.
\<close>

definition encode_varint :: "u64 \<Rightarrow> byte list option \<Rightarrow> nat \<times> byte list option" where
  "encode_varint value buf =
     (let varint = encode_varint_loop value [ucast (value AND 127)]
      in (length varint, map_option (\<lambda>b. varint @ drop (length varint) b) buf))"

abbreviation varint_bytes :: "u64 \<Rightarrow> byte list" where
  "varint_bytes value \<equiv> encode_varint_loop value [ucast (value AND 127)]"

section \<open>Bits\<close>

lemma and_127: "(v :: 'a::len word) AND 127 = take_bit 7 v"
  by (simp add: take_bit_eq_mask mask_eq_exp_minus_1)

lemma word_split_7: "push_bit 7 (drop_bit 7 v) + (v AND 127) = (v :: u64)"
  by (simp add: and_127 bits_ident)

lemma ucast_low_bits: "ucast (ucast (v AND 127) AND 127 :: byte) = (v :: u64) AND 127"
  by (rule bit_word_eqI) (auto simp: and_127 bit_simps)

lemma MSB7_drop_bit: "MSB7 (drop_bit 7 v) = 0"
  by (rule bit_word_eqI) (auto simp: MSB7_def bit_simps dest: bit_imp_le_length)

lemma MSB7_zeroD: "MSB7 v = 0 \<Longrightarrow> 57 \<le> n \<Longrightarrow> \<not> bit v n"
  apply (drule arg_cong [where f = "\<lambda>w. bit w n"])
  by (auto simp: MSB7_def bit_simps dest: bit_imp_le_length)

lemma shift_or: "push_bit 7 w + ucast (b AND 127 :: byte) = push_bit 7 w OR (ucast (b AND 127) :: u64)"
  by (rule disjunctive_add_eq_or) (rule bit_word_eqI, auto simp: and_127 bit_simps)

lemma shift_high:
  assumes "MSB7 w = 0"
  shows "drop_bit 7 (push_bit 7 w + ucast (b AND 127 :: byte)) = w"
  unfolding shift_or
proof (rule bit_word_eqI)
  fix n
  assume "n < LENGTH(64)"
  then show "bit (drop_bit 7 (push_bit 7 w OR ucast (b AND 127))) n = bit w n"
    using MSB7_zeroD [OF assms, of n] by (cases "n < 57") (auto simp: and_127 bit_simps)
qed

lemma shift_low: "(push_bit 7 w + ucast (b AND 127 :: byte)) AND 127 = (ucast (b AND 127) :: u64)"
  unfolding shift_or
  by (rule bit_word_eqI) (auto simp: and_127 bit_simps)

lemma cont_bit [simp]: "(128 OR b :: byte) AND 128 \<noteq> 0"
proof -
  have "bit ((128 OR b :: byte) AND 128) 7" by (simp add: bit_simps)
  then show ?thesis by fastforce
qed

lemma no_cont_bit [simp]: "ucast (v AND 127 :: u64) AND (128 :: byte) = 0"
  by (rule bit_word_eqI) (auto simp: and_127 bit_simps less_Suc_eq numeral_eq_Suc)


lemma bit7_iff: "b AND 128 \<noteq> (0 :: byte) \<longleftrightarrow> bit b 7"
  using and_exp_eq_0_iff_not_bit [of b 7] by simp


lemma cont_or: "b AND 128 \<noteq> 0 \<Longrightarrow> 128 OR (b AND 127) = (b :: byte)"
  unfolding bit7_iff
  by (rule bit_word_eqI) (auto simp: and_127 bit_simps less_Suc_eq numeral_eq_Suc)

lemma no_cont_and: "b AND 128 = 0 \<Longrightarrow> b AND 127 = (b :: byte)"
  using bit7_iff [of b]
  by (intro bit_word_eqI) (auto simp: and_127 bit_simps less_Suc_eq numeral_eq_Suc)

section \<open>Both loops\<close>

lemma enc_append: "encode_varint_loop v (xs @ ys) = encode_varint_loop v xs @ ys"
proof (induction v xs rule: encode_varint_loop.induct)
  case (1 v xs)
  then show ?case
    by (cases "drop_bit 7 v = 0")
       (simp_all add: encode_varint_loop.simps [of v] Let_def)
qed

definition dec1 :: "byte list \<Rightarrow> (u64 \<times> byte list) option option" where
  "dec1 bs = (case bs of [] \<Rightarrow> None | c # buf \<Rightarrow> decode_varint_loop c (ucast (c AND 127)) buf)"

lemma no_high: "drop_bit 7 v = 0 \<Longrightarrow> v AND 127 = (v :: u64)"
  using word_split_7 [of v] by simp

lemma bit_128: "bit (128 :: byte) n \<longleftrightarrow> n = 7"
proof -
  have "bit (2 ^ 7 :: byte) n \<longleftrightarrow> n = 7"
    by (subst bit_exp_iff) auto
  then show ?thesis by simp
qed

lemma cont_low: "w AND 127 = ucast ((128 OR ucast (w AND 127)) AND 127 :: byte)" for w :: u64
  by (rule bit_word_eqI) (auto simp: and_127 bit_simps bit_128)

lemma dec1_encode:
  "v AND 127 = ucast (c AND 127) \<Longrightarrow>
     dec1 (encode_varint_loop v (c # buf)) = decode_varint_loop c v buf"
proof (induction v "c # buf" arbitrary: c buf rule: encode_varint_loop.induct)
  case (1 v)
  show ?case
  proof (cases "drop_bit 7 v = 0")
    case True
    with 1 show ?thesis
      by (subst encode_varint_loop.simps) (simp add: dec1_def no_high)
  next
    case False
    let ?w = "drop_bit 7 v - 1"
    have "dec1 (encode_varint_loop v (c # buf)) =
        decode_varint_loop (128 OR ucast (?w AND 127)) ?w (c # buf)"
      using "1.hyps" [OF refl False refl cont_low] False
      by (simp add: encode_varint_loop.simps [of v] Let_def)
    also have "\<dots> = decode_varint_loop c v buf"
      using False "1.prems" word_split_7 [of v]
      by (simp add: decode_varint_loop.simps [of "128 OR _"] MSB7_drop_bit Let_def)
    finally show ?thesis .
  qed
qed

lemma decode_loop_encode:
  "decode_varint_loop c val buf = Some (Some (r, rest)) \<Longrightarrow> val AND 127 = ucast (c AND 127) \<Longrightarrow>
     encode_varint_loop val (c # buf) = encode_varint_loop r (ucast (r AND 127) # rest)"
proof (induction c val buf rule: decode_varint_loop.induct)
  case (1 c val buf)
  have c: "ucast (val AND 127) = c AND 127"
  proof -
    have "ucast (ucast (c AND 127) :: u64) = c AND 127"
      by (rule bit_word_eqI) (auto simp: and_127 bit_simps)
    with 1 show ?thesis by simp
  qed
  show ?case
  proof (cases "c AND 128 = 0")
    case True
    with 1 no_cont_and [OF True] c show ?thesis 
      by (simp add: decode_varint_loop.simps [of c]) 
  next
    case False
    let ?w = "val + 1"
    from False 1 obtain c2 buf2 where w: "?w \<noteq> 0" "MSB7 ?w = 0" "buf = c2 # buf2"
      and rec: "decode_varint_loop c2 (push_bit 7 ?w + ucast (c2 AND 127)) buf2 = Some (Some (r, rest))"
      by (auto simp: decode_varint_loop.simps [of c] Let_def split: if_splits list.splits)
    let ?v2 = "push_bit 7 ?w + ucast (c2 AND 127)"
    have "encode_varint_loop ?v2 (c2 # buf2) = encode_varint_loop r (ucast (r AND 127) # rest)"
      using "1.IH" [OF False refl _ w(3)] w rec shift_low by blast
    moreover have "encode_varint_loop ?v2 (c2 # buf2) = encode_varint_loop val (c # buf)"
      using w c cont_or [OF False]
      by (subst encode_varint_loop.simps) (simp only: shift_high Let_def if_False, simp)
    ultimately show ?thesis by simp
  qed
qed

lemma encode_loop_length:
  "unat v < 2 ^ (7 * (k + 1)) \<Longrightarrow> length (encode_varint_loop v xs) \<le> length xs + k"
proof (induction k arbitrary: v xs)
  case 0
  have "unat (drop_bit 7 v) = unat v div 2 ^ 7"
    by (subst unat_drop_bit_eq) (rule drop_bit_eq_div)
  with 0 have "drop_bit 7 v = 0" by (simp add: unat_eq_0)
  then show ?case by (simp add: encode_varint_loop.simps)
next
  case (Suc k)
  show ?case
  proof (cases "drop_bit 7 v = 0")
    case True
    then show ?thesis by (simp add: encode_varint_loop.simps)
  next
    case False
    have "unat (drop_bit 7 v) = unat v div 2 ^ 7"
      by (subst unat_drop_bit_eq) (rule drop_bit_eq_div)
    then have "unat (drop_bit 7 v) < 2 ^ (7 * (k + 1))"
      using Suc.prems by (simp add: less_mult_imp_div_less power_add mult.commute)
    then have "unat (drop_bit 7 v - 1) < 2 ^ (7 * (k + 1))"
      using False measure_unat [OF False] by linarith
    then show ?thesis using False
      Suc.IH [of "drop_bit 7 v - 1" "(128 OR ucast (drop_bit 7 v - 1 AND 127)) # xs"] by (subst encode_varint_loop.simps) (simp add: Let_def)
  qed
qed

lemma decode_varint_bytes:
  "decode_varint (varint_bytes v @ rest) = Some (v, rest)"
proof -
  have "(v AND 127) = ucast (ucast (v AND 127) AND 127 :: byte)"
    by (simp add: ucast_low_bits)
  then have "dec1 (varint_bytes v @ rest) = decode_varint_loop (ucast (v AND 127)) v rest"
    by (metis dec1_encode append_Cons append_Nil enc_append)
  also have "\<dots> = Some (Some (v, rest))"
    by (simp add: decode_varint_loop.simps)
  finally show ?thesis
    by (auto simp: dec1_def decode_varint_def split: list.splits)
qed

lemma decode_varint_prefix:
  assumes "decode_varint bufp = Some (r, rest)" and "rest \<noteq> bufp"
  shows "bufp = varint_bytes r @ rest"
proof -
  from assms obtain c buf where b: "bufp = c # buf"
    and d: "decode_varint_loop c (ucast (c AND 127)) buf = Some (Some (r, rest))"
    by (auto simp: decode_varint_def split: list.splits option.splits)
  have "(ucast (c AND 127) :: u64) AND 127 = ucast (c AND 127)"
       and z: "drop_bit 7 (ucast (c AND 127) :: u64) = 0"
    by (rule bit_word_eqI; auto simp: and_127 bit_simps)+
  then have "encode_varint_loop (ucast (c AND 127)) (c # buf) = encode_varint_loop r (ucast (r AND 127) # rest)"
    using decode_loop_encode [OF d] by simp
  then show ?thesis using z b enc_append [of r "[ucast (r AND 127)]" rest]
    by (subst (asm) encode_varint_loop.simps) simp
qed
lemma varint_length: "length (varint_bytes v) \<le> 10"
proof -
  have "unat v < 2 ^ 64" using unsigned_less [of v] by simp
  then show ?thesis using encode_loop_length [of v 9 "[ucast (v AND 127)]"] by simp
qed

lemma encode_loop_nonempty: "encode_varint_loop v (x # xs) \<noteq> []"
proof (induction v "x # xs" arbitrary: x xs rule: encode_varint_loop.induct)
  case (1 v)
  show ?case
    using 1 by (subst encode_varint_loop.simps) (simp add: Let_def)
qed

section \<open>Properties\<close>

text \<open>
  C21: \<open>encode_varint\<close> returns the number of bytes it writes, between 1 and
  10 of them, into the front of the buffer, and \<open>decode_varint\<close> reads every 64-bit value back
  from them, whatever follows, and stops right behind them.
\<close>

theorem encode_decode_varint:
  "\<exists>bytes. encode_varint v None = (length bytes, None) \<and>
     encode_varint v (Some buf) = (length bytes, Some (bytes @ drop (length bytes) buf)) \<and>
     1 \<le> length bytes \<and> length bytes \<le> 10 \<and>
     decode_varint (bytes @ rest) = Some (v, rest)"
  using decode_varint_bytes [of v rest] varint_length [of v] encode_loop_nonempty [of v]
  by (intro exI [of _ "varint_bytes v"]) (auto simp: encode_varint_def Let_def Suc_le_eq)

text \<open>
  Lemma decode_varint_unique: whatever \<open>decode_varint\<close> accepts (it moved past the number) is the
  encoding \<open>encode_varint\<close> gives that value: there is no second encoding of a number.
\<close>

theorem decode_varint_unique:
  assumes "decode_varint bufp = Some (r, rest)" and "rest \<noteq> bufp"
  shows "\<exists>bytes. bufp = bytes @ rest \<and> encode_varint r (Some bufp) = (length bytes, Some bufp)"
  using decode_varint_prefix [OF assms]
  by (intro exI [of _ "varint_bytes r"]) (simp add: encode_varint_def Let_def)

theorem decode_varint_unique_witness:
  "\<exists>bytes. [129, 44, 7] = bytes @ [7 :: byte] \<and> encode_varint 300 (Some [129, 44, 7]) = (length bytes, Some [129, 44, 7])"
proof -
  have "decode_varint [129, 44, 7] = Some (300, [7])"
    by (simp add: decode_varint_def decode_varint_loop.simps MSB7_def mask_eq_exp_minus_1)
  then show ?thesis using decode_varint_unique [of "[129, 44, 7]" 300 "[7]"] by simp
qed

end
