(* ===== verification/Ctype.thy ===== *)
theory Ctype
  imports Git_Prelude
begin

unbundle bit_operations_syntax

text \<open>
  \<^verbatim>\<open>ctype.c\<close> and the character tests of \<^verbatim>\<open>git-compat-util.h\<close>: the table of character classes, the
  tests that mask it, and the case conversions.
\<close>

section \<open>The tables\<close>

abbreviation (input) GIT_SPACE :: int where "GIT_SPACE \<equiv> 0x01"
abbreviation (input) GIT_DIGIT :: int where "GIT_DIGIT \<equiv> 0x02"
abbreviation (input) GIT_ALPHA :: int where "GIT_ALPHA \<equiv> 0x04"
abbreviation (input) GIT_GLOB_SPECIAL :: int where "GIT_GLOB_SPECIAL \<equiv> 0x08"
abbreviation (input) GIT_REGEX_SPECIAL :: int where "GIT_REGEX_SPECIAL \<equiv> 0x10"
abbreviation (input) GIT_PATHSPEC_MAGIC :: int where "GIT_PATHSPEC_MAGIC \<equiv> 0x20"
abbreviation (input) GIT_CNTRL :: int where "GIT_CNTRL \<equiv> 0x40"
abbreviation (input) GIT_PUNCT :: int where "GIT_PUNCT \<equiv> 0x80"

definition sane_ctype :: "int list" where
  "sane_ctype =
     (let S = GIT_SPACE; A = GIT_ALPHA; D = GIT_DIGIT; G = GIT_GLOB_SPECIAL;
          R = GIT_REGEX_SPECIAL; P = GIT_PATHSPEC_MAGIC; X = GIT_CNTRL; U = GIT_PUNCT;
          Z = GIT_CNTRL OR GIT_SPACE
      in [
        X, X, X, X, X, X, X, X, X, Z, Z, X, X, Z, X, X,
        X, X, X, X, X, X, X, X, X, X, X, X, X, X, X, X,
        S, P, P, P, R, P, P, P, R, R, G, R, P, P, R, P,
        D, D, D, D, D, D, D, D, D, D, P, P, P, P, P, G,
        P, A, A, A, A, A, A, A, A, A, A, A, A, A, A, A,
        A, A, A, A, A, A, A, A, A, A, A, G, G, U, R, P,
        P, A, A, A, A, A, A, A, A, A, A, A, A, A, A, A,
        A, A, A, A, A, A, A, A, A, A, A, R, R, U, P, X] @ replicate 128 0)"

definition tolower_trans_tbl :: "int list" where
  "tolower_trans_tbl = [
      0x00, 0x01, 0x02, 0x03, 0x04, 0x05, 0x06, 0x07, 0x08, 0x09, 0x0a, 0x0b, 0x0c, 0x0d, 0x0e, 0x0f,
      0x10, 0x11, 0x12, 0x13, 0x14, 0x15, 0x16, 0x17, 0x18, 0x19, 0x1a, 0x1b, 0x1c, 0x1d, 0x1e, 0x1f,
      0x20, 0x21, 0x22, 0x23, 0x24, 0x25, 0x26, 0x27, 0x28, 0x29, 0x2a, 0x2b, 0x2c, 0x2d, 0x2e, 0x2f,
      0x30, 0x31, 0x32, 0x33, 0x34, 0x35, 0x36, 0x37, 0x38, 0x39, 0x3a, 0x3b, 0x3c, 0x3d, 0x3e, 0x3f,
      0x40, 0x61, 0x62, 0x63, 0x64, 0x65, 0x66, 0x67, 0x68, 0x69, 0x6a, 0x6b, 0x6c, 0x6d, 0x6e, 0x6f,
      0x70, 0x71, 0x72, 0x73, 0x74, 0x75, 0x76, 0x77, 0x78, 0x79, 0x7a, 0x5b, 0x5c, 0x5d, 0x5e, 0x5f,
      0x60, 0x61, 0x62, 0x63, 0x64, 0x65, 0x66, 0x67, 0x68, 0x69, 0x6a, 0x6b, 0x6c, 0x6d, 0x6e, 0x6f,
      0x70, 0x71, 0x72, 0x73, 0x74, 0x75, 0x76, 0x77, 0x78, 0x79, 0x7a, 0x7b, 0x7c, 0x7d, 0x7e, 0x7f,
      0x80, 0x81, 0x82, 0x83, 0x84, 0x85, 0x86, 0x87, 0x88, 0x89, 0x8a, 0x8b, 0x8c, 0x8d, 0x8e, 0x8f,
      0x90, 0x91, 0x92, 0x93, 0x94, 0x95, 0x96, 0x97, 0x98, 0x99, 0x9a, 0x9b, 0x9c, 0x9d, 0x9e, 0x9f,
      0xa0, 0xa1, 0xa2, 0xa3, 0xa4, 0xa5, 0xa6, 0xa7, 0xa8, 0xa9, 0xaa, 0xab, 0xac, 0xad, 0xae, 0xaf,
      0xb0, 0xb1, 0xb2, 0xb3, 0xb4, 0xb5, 0xb6, 0xb7, 0xb8, 0xb9, 0xba, 0xbb, 0xbc, 0xbd, 0xbe, 0xbf,
      0xc0, 0xc1, 0xc2, 0xc3, 0xc4, 0xc5, 0xc6, 0xc7, 0xc8, 0xc9, 0xca, 0xcb, 0xcc, 0xcd, 0xce, 0xcf,
      0xd0, 0xd1, 0xd2, 0xd3, 0xd4, 0xd5, 0xd6, 0xd7, 0xd8, 0xd9, 0xda, 0xdb, 0xdc, 0xdd, 0xde, 0xdf,
      0xe0, 0xe1, 0xe2, 0xe3, 0xe4, 0xe5, 0xe6, 0xe7, 0xe8, 0xe9, 0xea, 0xeb, 0xec, 0xed, 0xee, 0xef,
      0xf0, 0xf1, 0xf2, 0xf3, 0xf4, 0xf5, 0xf6, 0xf7, 0xf8, 0xf9, 0xfa, 0xfb, 0xfc, 0xfd, 0xfe, 0xff]"

section \<open>The tests\<close>

definition sane_istest :: "char \<Rightarrow> int \<Rightarrow> bool" where
  "sane_istest x m \<longleftrightarrow> sane_ctype ! nat (char_code x) AND m \<noteq> 0"

definition isspace :: "char \<Rightarrow> bool" where "isspace x \<longleftrightarrow> sane_istest x GIT_SPACE"
definition isdigit :: "char \<Rightarrow> bool" where "isdigit x \<longleftrightarrow> sane_istest x GIT_DIGIT"
definition isalpha :: "char \<Rightarrow> bool" where "isalpha x \<longleftrightarrow> sane_istest x GIT_ALPHA"
definition isalnum :: "char \<Rightarrow> bool" where "isalnum x \<longleftrightarrow> sane_istest x (GIT_ALPHA OR GIT_DIGIT)"
definition is_glob_special :: "char \<Rightarrow> bool" where
  "is_glob_special x \<longleftrightarrow> sane_istest x GIT_GLOB_SPECIAL"
definition is_regex_special :: "char \<Rightarrow> bool" where
  "is_regex_special x \<longleftrightarrow> sane_istest x (GIT_GLOB_SPECIAL OR GIT_REGEX_SPECIAL)"
definition iscntrl :: "char \<Rightarrow> bool" where "iscntrl x \<longleftrightarrow> sane_istest x GIT_CNTRL"
definition ispunct :: "char \<Rightarrow> bool" where
  "ispunct x \<longleftrightarrow>
     sane_istest x (GIT_PUNCT OR GIT_REGEX_SPECIAL OR GIT_GLOB_SPECIAL OR GIT_PATHSPEC_MAGIC)"
definition is_pathspec_magic :: "char \<Rightarrow> bool" where
  "is_pathspec_magic x \<longleftrightarrow> sane_istest x GIT_PATHSPEC_MAGIC"
definition isprint :: "char \<Rightarrow> bool" where
  "isprint x \<longleftrightarrow> 0x20 \<le> char_code x \<and> char_code x \<le> 0x7e"

text \<open>\<open>x & ~0x20\<close> of an \<open>int\<close> in the range of \<open>unsigned char\<close>.\<close>

definition sane_case :: "char \<Rightarrow> int \<Rightarrow> char" where
  "sane_case x high =
     (if sane_istest x GIT_ALPHA then char_of ((char_code x AND NOT 0x20) OR high) else x)"

definition tolower :: "char \<Rightarrow> char" where "tolower x = sane_case x 0x20"
definition toupper :: "char \<Rightarrow> char" where "toupper x = sane_case x 0"

definition sane_iscase :: "char \<Rightarrow> bool \<Rightarrow> bool" where
  "sane_iscase x is_lower \<longleftrightarrow>
     sane_istest x GIT_ALPHA \<and>
     (if is_lower then char_code x AND 0x20 \<noteq> 0 else char_code x AND 0x20 = 0)"

definition islower :: "char \<Rightarrow> bool" where "islower x \<longleftrightarrow> sane_iscase x True"
definition isupper :: "char \<Rightarrow> bool" where "isupper x \<longleftrightarrow> sane_iscase x False"

section \<open>What the tests accept\<close>

lemma nat_char_code [simp]: "nat (char_code c) = of_char c"
  using of_nat_of_char [of c, where 'a = int] by (simp add: char_code_def)

lemma length_sane_ctype [simp]: "length sane_ctype = 256"
  by (simp add: sane_ctype_def)

text \<open>A statement about a table is checked entry by entry.\<close>

lemma table_nth:
  assumes "list_all (\<lambda>(n, t). Q n t) (enumerate 0 tab)" and "length tab = 256"
  shows "Q (of_char c) (tab ! of_char c)"
  using assms unfolding list_all_length
  by (metis add_0 case_prod_conv length_enumerate nat_of_char_less_256 nth_enumerate_eq)

lemma sane_istest_table:
  "list_all (\<lambda>(n, t). (t AND m \<noteq> 0) = f n) (enumerate 0 sane_ctype) \<Longrightarrow> sane_istest c m \<longleftrightarrow> f (of_char c)"
  using table_nth [where Q = "\<lambda>n t. (t AND m \<noteq> 0) = f n" and tab = sane_ctype and c = c]
  by (simp add: sane_istest_def)

lemma isspace_iff: "isspace c \<longleftrightarrow> (\<lambda>n. n = 9 \<or> n = 10 \<or> n = 13 \<or> n = 32) (of_char c :: nat)"
  unfolding isspace_def by (rule sane_istest_table) code_simp

lemma isdigit_iff: "isdigit c \<longleftrightarrow> (\<lambda>n. 48 \<le> n \<and> n \<le> 57) (of_char c :: nat)"
  unfolding isdigit_def by (rule sane_istest_table) code_simp

lemma isalpha_iff:
  "isalpha c \<longleftrightarrow> (\<lambda>n. 65 \<le> n \<and> n \<le> 90 \<or> 97 \<le> n \<and> n \<le> 122) (of_char c :: nat)"
  unfolding isalpha_def by (rule sane_istest_table) code_simp

lemma is_glob_special_iff:
  "is_glob_special c \<longleftrightarrow> (\<lambda>n. n = 42 \<or> n = 63 \<or> n = 91 \<or> n = 92) (of_char c :: nat)"
  unfolding is_glob_special_def by (rule sane_istest_table) code_simp

lemma iscntrl_iff: "iscntrl c \<longleftrightarrow> (\<lambda>n. n < 32 \<or> n = 127) (of_char c :: nat)"
  unfolding iscntrl_def by (rule sane_istest_table) code_simp

lemma ispunct_iff:
  "ispunct c \<longleftrightarrow> (\<lambda>n. 33 \<le> n \<and> n \<le> 47 \<or> 58 \<le> n \<and> n \<le> 64 \<or> 91 \<le> n \<and> n \<le> 96 \<or> 123 \<le> n \<and> n \<le> 126)
     (of_char c :: nat)"
  unfolding ispunct_def by (rule sane_istest_table) code_simp

lemma isalnum_iff: "isalnum c \<longleftrightarrow> isalpha c \<or> isdigit c"
proof -
  have "sane_istest c (GIT_ALPHA OR GIT_DIGIT) \<longleftrightarrow>
    (\<lambda>n. (65 \<le> n \<and> n \<le> 90 \<or> 97 \<le> n \<and> n \<le> 122) \<or> 48 \<le> n \<and> n \<le> 57) (of_char c :: nat)"
    by (rule sane_istest_table) code_simp
  then show ?thesis by (simp add: isalnum_def isalpha_iff isdigit_iff)
qed

lemmas ctype_iff = isspace_iff isdigit_iff isalpha_iff is_glob_special_iff iscntrl_iff ispunct_iff

lemma char_code_char_of [simp]: "0 \<le> n \<Longrightarrow> n < 256 \<Longrightarrow> char_code (char_of (n :: int)) = n"
  by (simp add: char_code_def)

lemma char_code_of_char: "char_code c = int (of_char c)"
  unfolding char_code_def by (rule of_nat_of_char [symmetric])

text \<open>Case conversion moves a letter by 32 and leaves everything else alone.\<close>

lemma case_table:
  "list_all (\<lambda>n. (int n AND NOT 0x20) OR 0x20 = int (if n \<le> 90 then n + 32 else n) \<and>
     (int n AND NOT 0x20) OR 0 = int (if n \<le> 90 then n else n - 32) \<and>
     (int n AND 0x20 \<noteq> 0 \<longleftrightarrow> 97 \<le> n)) ([65..<91] @ [97..<123])"
  by code_simp

lemma case_nth:
  fixes n :: nat
  assumes "65 \<le> n \<and> n \<le> 90 \<or> 97 \<le> n \<and> n \<le> 122"
  shows "(int n AND NOT 0x20) OR 0x20 = int (if n \<le> 90 then n + 32 else n)"
    and "(int n AND NOT 0x20) OR 0 = int (if n \<le> 90 then n else n - 32)"
    and "int n AND 0x20 \<noteq> 0 \<longleftrightarrow> 97 \<le> n"
proof -
  have "n \<in> set ([65..<91] @ [97..<123])"
    using assms unfolding set_append set_upt Un_iff atLeastLessThan_iff by linarith
  with case_table show "(int n AND NOT 0x20) OR 0x20 = int (if n \<le> 90 then n + 32 else n)"
    and "(int n AND NOT 0x20) OR 0 = int (if n \<le> 90 then n else n - 32)"
    and "int n AND 0x20 \<noteq> 0 \<longleftrightarrow> 97 \<le> n"
    unfolding list_all_iff by blast+
qed

lemma tolower_code: "char_code (tolower c) = (if isupper c then char_code c + 32 else char_code c)"
  and toupper_code: "char_code (toupper c) = (if islower c then char_code c - 32 else char_code c)"
  and islower_iff: "islower c \<longleftrightarrow> 97 \<le> char_code c \<and> char_code c \<le> 122"
  and isupper_iff: "isupper c \<longleftrightarrow> 65 \<le> char_code c \<and> char_code c \<le> 90"
  using case_nth [of "of_char c"]
  by (cases "isalpha c";
      force simp: tolower_def toupper_def sane_case_def islower_def isupper_def sane_iscase_def
        isalpha_iff char_code_of_char simp flip: isalpha_def)+

lemma of_char_tolower:
  "(of_char (tolower c) :: nat) = (if (65 :: nat) \<le> of_char c \<and> of_char c \<le> (90 :: nat) then of_char c + 32 else of_char c)"
  using tolower_code [of c] unfolding isupper_iff char_code_of_char by (auto split: if_splits)

lemma isalpha_tolower [simp]: "isalpha (tolower c) = isalpha c"
  and isdigit_tolower [simp]: "isdigit (tolower c) = isdigit c"
  and isalnum_tolower [simp]: "isalnum (tolower c) = isalnum c"
  by (auto simp: isalnum_iff isalpha_iff isdigit_iff of_char_tolower)

lemma tolower_tolower [simp]: "tolower (tolower c) = tolower c"
proof -
  have "char_code (tolower (tolower c)) = char_code (tolower c)"
    unfolding char_code_of_char by (auto simp: of_char_tolower)
  then show ?thesis by simp
qed

text \<open>
  Lemma tolower_tables. \<^verbatim>\<open>tolower\<close> maps A-Z to a-z and \<^verbatim>\<open>toupper\<close> back, nothing else is changed, the
  tests \<^verbatim>\<open>islower\<close> and \<^verbatim>\<open>isupper\<close> split \<^verbatim>\<open>isalpha\<close>, and the table \<^verbatim>\<open>tolower_trans_tbl\<close> holds
  \<^verbatim>\<open>tolower\<close> for each of the 256 bytes.
\<close>

theorem tolower_tables:
  "char_code (tolower c) = (if isupper c then char_code c + 32 else char_code c) \<and>
   char_code (toupper c) = (if islower c then char_code c - 32 else char_code c) \<and>
   isalpha c = (islower c \<noteq> isupper c) \<and>
   tolower_trans_tbl ! nat (char_code c) = char_code (tolower c)"
proof -
  have len: "length tolower_trans_tbl = 256" by (simp add: tolower_trans_tbl_def)
  have "list_all (\<lambda>(n, t). t = int (if 65 \<le> n \<and> n \<le> 90 then n + 32 else n)) (enumerate 0 tolower_trans_tbl)"
    by code_simp
  from table_nth [OF this len, of c]
  have "tolower_trans_tbl ! of_char c = int (if (65 :: nat) \<le> of_char c \<and> of_char c \<le> (90 :: nat) then of_char c + 32 else of_char c)" .
  then show ?thesis
    unfolding tolower_code toupper_code islower_iff isupper_iff isalpha_iff nat_char_code
    unfolding char_code_of_char by auto
qed

end
