(* ===== verification/Config_Number.thy ===== *)
theory Config_Number
  imports Ctype
begin

text \<open>
  \<^verbatim>\<open>config.c\<close>: numbers with a unit and booleans. \<open>strtoimax\<close> and \<open>strtoumax\<close> are those of the C
  library with base 0; \<open>intmax_t\<close>, \<open>long\<close> and \<open>int64_t\<close> have 64 bits, \<open>int\<close> has 32. A
  value is \<open>None\<close> for NULL; a result is the \<open>errno\<close> or the number.
\<close>

datatype errno = EINVAL | ERANGE

section \<open>The conversions of the C library\<close>

definition digit_value :: "char \<Rightarrow> int" where
  "digit_value c =
     (let n = char_code c
      in if 48 \<le> n \<and> n \<le> 57 then n - 48
         else if 97 \<le> n \<and> n \<le> 122 then n - 87
         else if 65 \<le> n \<and> n \<le> 90 then n - 55 else 36)"

definition c_isspace :: "char \<Rightarrow> bool" where
  "c_isspace c \<longleftrightarrow> c = CHR '' '' \<or> (9 \<le> char_code c \<and> char_code c \<le> 13)"

text \<open>The base and the digits of base 0: \<open>0x\<close> counts as a prefix only before a hexadecimal digit.\<close>

fun number_base :: "string \<Rightarrow> int \<times> string" where
  "number_base (a # x # d # s) =
     (if a = CHR ''0'' \<and> (x = CHR ''x'' \<or> x = CHR ''X'') \<and> digit_value d < 16 then (16, d # s)
      else if a = CHR ''0'' then (8, a # x # d # s) else (10, a # x # d # s))"
| "number_base s = (if s \<noteq> [] \<and> hd s = CHR ''0'' then 8 else 10, s)"

definition number_value :: "int \<Rightarrow> string \<Rightarrow> int" where
  "number_value base ds = foldl (\<lambda>v d. v * base + digit_value d) 0 ds"

text \<open>Sign, magnitude and the rest of the string; \<open>None\<close> when there is no number.\<close>

definition scan_number :: "string \<Rightarrow> (bool \<times> int \<times> string) option" where
  "scan_number s =
     (let s = dropWhile c_isspace s;
          neg = (s \<noteq> [] \<and> hd s = CHR ''-'');
          s = (if s \<noteq> [] \<and> (hd s = CHR ''-'' \<or> hd s = CHR ''+'') then tl s else s);
          (base, s) = number_base s;
          ds = takeWhile (\<lambda>c. digit_value c < base) s
      in if ds = [] then None
         else Some (neg, number_value base ds, dropWhile (\<lambda>c. digit_value c < base) s))"

text \<open>The value, \<open>end\<close> and whether \<open>errno\<close> is \<open>ERANGE\<close>.\<close>

definition strtoimax :: "string \<Rightarrow> int \<times> string \<times> bool" where
  "strtoimax s =
     (case scan_number s of
        None \<Rightarrow> (0, s, False)
      | Some (neg, m, rest) \<Rightarrow>
          let v = (if neg then - m else m)
          in if v > 2 ^ 63 - 1 then (2 ^ 63 - 1, rest, True)
             else if v < - (2 ^ 63) then (- (2 ^ 63), rest, True) else (v, rest, False))"

definition strtoumax :: "string \<Rightarrow> u64 \<times> string \<times> bool" where
  "strtoumax s =
     (case scan_number s of
        None \<Rightarrow> (0, s, False)
      | Some (neg, m, rest) \<Rightarrow>
          if m > 2 ^ 64 - 1 then (- 1, rest, True)
          else (if neg then - word_of_int m else word_of_int m, rest, False))"

definition strcasecmp_eq :: "string \<Rightarrow> string \<Rightarrow> bool" where
  "strcasecmp_eq s t \<longleftrightarrow> map tolower s = map tolower t"

section \<open>Numbers\<close>

definition parse_unit_factor :: "string \<Rightarrow> u64 \<Rightarrow> u64 option" where
  "parse_unit_factor end val =
     (if end = [] then Some val
      else if strcasecmp_eq end ''k'' then Some (val * 1024)
      else if strcasecmp_eq end ''m'' then Some (val * (1024 * 1024))
      else if strcasecmp_eq end ''g'' then Some (val * (1024 * 1024 * 1024))
      else None)"

text \<open>\<open>labs\<close> of the smallest number is undefined in C; here it is that number again.\<close>

definition labs :: "u64 \<Rightarrow> u64" where
  "labs val = (if sint val < 0 then - val else val)"

definition git_parse_signed :: "string option \<Rightarrow> u64 \<Rightarrow> errno + u64" where
  "git_parse_signed val limit =
     (if val \<noteq> None \<and> the val \<noteq> [] then
        let (v, end, erange) = strtoimax (the val); v = word_of_int v :: u64
        in if erange then Inl ERANGE
           else case parse_unit_factor end 1 of
               None \<Rightarrow> Inl EINVAL
             | Some factor \<Rightarrow>
                 let uval = labs v * factor
                 in if uval > limit \<or> labs v > uval then Inl ERANGE else Inr (v * factor)
      else Inl EINVAL)"

definition git_parse_unsigned :: "string option \<Rightarrow> u64 \<Rightarrow> errno + u64" where
  "git_parse_unsigned val limit =
     (if val \<noteq> None \<and> the val \<noteq> [] then
        let (v, end, erange) = strtoumax (the val)
        in if erange then Inl ERANGE
           else case parse_unit_factor end v of
               None \<Rightarrow> Inl EINVAL
             | Some v' \<Rightarrow> if v' > limit \<or> v > v' then Inl ERANGE else Inr v'
      else Inl EINVAL)"

definition git_parse_int :: "string option \<Rightarrow> errno + int" where
  "git_parse_int val =
     (case git_parse_signed val (2 ^ 31 - 1) of
        Inl e \<Rightarrow> Inl e | Inr tmp \<Rightarrow> Inr (sint (ucast tmp :: 32 word)))"

definition git_parse_int64 :: "string option \<Rightarrow> errno + int" where
  "git_parse_int64 val =
     (case git_parse_signed val (2 ^ 63 - 1) of Inl e \<Rightarrow> Inl e | Inr tmp \<Rightarrow> Inr (sint tmp))"

definition git_parse_ulong :: "string option \<Rightarrow> errno + u64" where
  "git_parse_ulong val = git_parse_unsigned val (- 1)"

text \<open>The \<open>git_config_\<close> functions die with the reason of the \<open>errno\<close>; here they return it.\<close>

definition git_config_int :: "string option \<Rightarrow> errno + int" where
  "git_config_int val = git_parse_int val"

section \<open>Booleans\<close>

definition git_config_maybe_bool_text :: "string option \<Rightarrow> int" where
  "git_config_maybe_bool_text val =
     (case val of
        None \<Rightarrow> 1
      | Some v \<Rightarrow>
          if v = [] then 0
          else if strcasecmp_eq v ''true'' \<or> strcasecmp_eq v ''yes'' \<or> strcasecmp_eq v ''on'' then 1
          else if strcasecmp_eq v ''false'' \<or> strcasecmp_eq v ''no'' \<or> strcasecmp_eq v ''off'' then 0
          else -1)"

definition git_config_maybe_bool :: "string option \<Rightarrow> int" where
  "git_config_maybe_bool val =
     (let v = git_config_maybe_bool_text val
      in if 0 \<le> v then v
         else case git_parse_int val of Inr v \<Rightarrow> (if v \<noteq> 0 then 1 else 0) | Inl _ \<Rightarrow> -1)"

definition git_config_bool_or_int :: "string option \<Rightarrow> errno + int \<times> bool" where
  "git_config_bool_or_int val =
     (let v = git_config_maybe_bool_text val
      in if 0 \<le> v then Inr (v, True)
         else case git_config_int val of Inl e \<Rightarrow> Inl e | Inr v \<Rightarrow> Inr (v, False))"

definition git_config_bool :: "string option \<Rightarrow> errno + bool" where
  "git_config_bool val =
     (case git_config_bool_or_int val of Inl e \<Rightarrow> Inl e | Inr (v, _) \<Rightarrow> Inr (v \<noteq> 0))"

section \<open>Numbers are exact when they fit an int\<close>

definition unit_factor :: "string \<Rightarrow> int option" where
  "unit_factor end =
     (if end = [] then Some 1 else if strcasecmp_eq end ''k'' then Some (2 ^ 10)
      else if strcasecmp_eq end ''m'' then Some (2 ^ 20)
      else if strcasecmp_eq end ''g'' then Some (2 ^ 30) else None)"

lemma parse_unit_factor_int: "parse_unit_factor end 1 = map_option word_of_int (unit_factor end)"
  by (simp add: parse_unit_factor_def unit_factor_def)

lemma unit_factor_range: "unit_factor end = Some f \<Longrightarrow> 1 \<le> f \<and> f \<le> 2 ^ 30"
  by (auto simp: unit_factor_def split: if_splits)

lemma strtoimax_range: "strtoimax s = (v, rest, False) \<Longrightarrow> - (2 ^ 63) \<le> v \<and> v \<le> 2 ^ 63 - 1"
  by (auto simp: strtoimax_def Let_def split: option.splits prod.splits if_splits)

lemma uint_labs:
  assumes "- (2 ^ 63) \<le> v" and "v \<le> 2 ^ 63 - 1"
  shows "uint (labs (word_of_int v)) = \<bar>v\<bar>"
proof -
  have sint: "sint (word_of_int v :: u64) = v" using assms by (simp add: signed_of_int signed_take_bit_int_eq_self)
  show ?thesis
  proof (cases "v < 0")
    case True
    have "take_bit 64 (- v) = - v" using assms True by (intro take_bit_int_eq_self) auto
    then have "uint (word_of_int (- v) :: u64) = - v" by (simp only: uint_word_of_int_eq len_of_numeral_defs) simp
    then show ?thesis using sint True by (simp add: labs_def)
  next
    case False
    then show ?thesis using sint assms by (simp add: labs_def uint_word_of_int_eq take_bit_int_eq_self)
  qed
qed


lemma git_parse_signed_int:
  assumes "strtoimax s = (v, rest, False)" and "unit_factor rest = Some f" and "s \<noteq> []"
  shows "git_parse_signed (Some s) (2 ^ 31 - 1) =
    (if \<bar>v * f\<bar> \<le> 2 ^ 31 - 1 then Inr (word_of_int (v * f)) else Inl ERANGE)"
proof -
  let ?v = "word_of_int v :: u64" and ?f = "word_of_int f :: u64"
  have v: "- (2 ^ 63) \<le> v" "v \<le> 2 ^ 63 - 1" using strtoimax_range [OF assms(1)] by simp_all
  have f: "1 \<le> f" "f \<le> 2 ^ 30" using unit_factor_range [OF assms(2)] by simp_all
  have "uint ?f = f" using f by (simp add: uint_word_of_int_eq take_bit_int_eq_self)
  then have prod: "uint (labs ?v * ?f) = (\<bar>v\<bar> * f) mod 2 ^ 64"
    by (simp add: uint_word_ariths(3) uint_labs [OF v])
  have run: "git_parse_signed (Some s) (2 ^ 31 - 1) =
      (if labs ?v * ?f > 2 ^ 31 - 1 \<or> labs ?v > labs ?v * ?f then Inl ERANGE else Inr (?v * ?f))"
    using assms by (simp add: git_parse_signed_def parse_unit_factor_int)
  have cond: "(labs ?v * ?f > 2 ^ 31 - 1 \<or> labs ?v > labs ?v * ?f) \<longleftrightarrow>
      ((\<bar>v\<bar> * f) mod 2 ^ 64 > 2 ^ 31 - 1 \<or> \<bar>v\<bar> > (\<bar>v\<bar> * f) mod 2 ^ 64)"
    by (simp add: word_less_def prod uint_labs [OF v])
  have "\<not> ((\<bar>v\<bar> * f) mod 2 ^ 64 > 2 ^ 31 - 1 \<or> \<bar>v\<bar> > (\<bar>v\<bar> * f) mod 2 ^ 64) \<longleftrightarrow> \<bar>v * f\<bar> \<le> 2 ^ 31 - 1"
  proof
    assume small: "\<not> ((\<bar>v\<bar> * f) mod 2 ^ 64 > 2 ^ 31 - 1 \<or> \<bar>v\<bar> > (\<bar>v\<bar> * f) mod 2 ^ 64)"
    then have "\<bar>v\<bar> \<le> 2 ^ 31 - 1" by linarith
    then have "\<bar>v\<bar> * f \<le> (2 ^ 31 - 1) * 2 ^ 30" using f by (intro mult_mono) auto
    then have "(\<bar>v\<bar> * f) mod 2 ^ 64 = \<bar>v\<bar> * f" using f by (intro mod_pos_pos_trivial) auto
    then show "\<bar>v * f\<bar> \<le> 2 ^ 31 - 1" using small f by (simp add: abs_mult)
  next
    assume "\<bar>v * f\<bar> \<le> 2 ^ 31 - 1"
    then have fits: "\<bar>v\<bar> * f \<le> 2 ^ 31 - 1" using f by (simp add: abs_mult)
    then have "(\<bar>v\<bar> * f) mod 2 ^ 64 = \<bar>v\<bar> * f" using f by (intro mod_pos_pos_trivial) auto
    moreover have "\<bar>v\<bar> \<le> \<bar>v\<bar> * f" using f mult_left_mono [of 1 f "\<bar>v\<bar>"] by simp
    ultimately show "\<not> ((\<bar>v\<bar> * f) mod 2 ^ 64 > 2 ^ 31 - 1 \<or> \<bar>v\<bar> > (\<bar>v\<bar> * f) mod 2 ^ 64)" using fits by linarith
  qed
  then show ?thesis unfolding run cond by auto
qed

lemma narrow_exact: "\<bar>p\<bar> \<le> 2 ^ 31 - 1 \<Longrightarrow> sint (ucast (word_of_int p :: u64) :: 32 word) = p"
proof -
  assume p: "\<bar>p\<bar> \<le> 2 ^ 31 - 1"
  have "(ucast (word_of_int p :: u64) :: 32 word) = word_of_int p" by transfer simp
  then show ?thesis using p by (simp add: signed_of_int signed_take_bit_int_eq_self)
qed

lemma git_parse_int_exact:
  assumes "strtoimax s = (v, rest, erange)" and "s \<noteq> []"
  shows "git_parse_int (Some s) =
    (if erange then Inl ERANGE
     else case unit_factor rest of
         None \<Rightarrow> Inl EINVAL
       | Some f \<Rightarrow> if \<bar>v * f\<bar> \<le> 2 ^ 31 - 1 then Inr (v * f) else Inl ERANGE)"
proof (cases "erange \<or> unit_factor rest = None")
  case True
  then show ?thesis using assms
    by (auto simp: git_parse_int_def git_parse_signed_def parse_unit_factor_int)
next
  case False
  then obtain f where f: "unit_factor rest = Some f" and "\<not> erange" by auto
  then have run: "git_parse_signed (Some s) (2 ^ 31 - 1) =
      (if \<bar>v * f\<bar> \<le> 2 ^ 31 - 1 then Inr (word_of_int (v * f)) else Inl ERANGE)"
    using git_parse_signed_int [of s v rest f] assms by simp
  have "sint (ucast (word_of_int (v * f) :: u64) :: 32 word) = v * f" if "\<bar>v * f\<bar> \<le> 2 ^ 31 - 1"
    using that by (rule narrow_exact)
  then show ?thesis using run f \<open>\<not> erange\<close> by (simp add: git_parse_int_def)
qed

text \<open>
  C36: for every string, \<open>git_parse_int\<close> returns the number times its unit when that is between
  -2147483647 and 2147483647, reports \<open>ERANGE\<close> when it is not (so also for -2147483648, which an \<open>int\<close> could hold), and
  \<open>EINVAL\<close> for an unknown unit or an empty value; no product wraps around unnoticed.
\<close>

theorem config_int_exact:
  "git_parse_int val =
    (case val of
       None \<Rightarrow> Inl EINVAL
     | Some s \<Rightarrow>
         if s = [] then Inl EINVAL
         else let (v, rest, erange) = strtoimax s
              in if erange then Inl ERANGE
                 else case unit_factor rest of
                     None \<Rightarrow> Inl EINVAL
                   | Some f \<Rightarrow> if \<bar>v * f\<bar> \<le> 2 ^ 31 - 1 then Inr (v * f) else Inl ERANGE)"
  using git_parse_int_exact by (auto simp: git_parse_int_def git_parse_signed_def split: option.split prod.split)

text \<open>The smallest \<open>int\<close> is refused.\<close>

lemma git_parse_int_min: "git_parse_int (Some ''-2147483648'') = Inl ERANGE"
  by code_simp

text \<open>For the wider types the check lets some products through that have wrapped around.\<close>

lemma git_parse_ulong_wraps: "git_parse_ulong (Some ''18049582881570816k'') = Inr (2 ^ 55)"
  by code_simp

lemma git_parse_int64_wraps: "git_parse_int64 (Some ''18049582881570816k'') = Inr (2 ^ 55)"
  by code_simp

end
