(* ===== verification/Config_Parse.thy ===== *)
theory Config_Parse
  imports Ctype
begin

text \<open>
  \<^verbatim>\<open>config.c\<close>: the reader of configuration files, the check and normalization of keys, and the
  writer of a section header and a key-value pair. A source is what is left of the file, the line number
  and the end of file mark; the callback gets the source, the name and the value, which is \<open>None\<close> for
  a name without \<open>=\<close>, and returns a status and its own state.
\<close>

record config_source =
  cs_rest :: string
  cs_linenr :: int
  cs_eof :: bool

type_synonym 'd config_fn = "config_source \<Rightarrow> string \<Rightarrow> string option \<Rightarrow> 'd \<Rightarrow> int \<times> 'd"

section \<open>Characters\<close>

definition config_file_fgetc :: "config_source \<Rightarrow> char option \<times> config_source" where
  "config_file_fgetc cf =
     (case cs_rest cf of [] \<Rightarrow> (None, cf) | c # rest \<Rightarrow> (Some c, cf\<lparr>cs_rest := rest\<rparr>))"

definition config_file_ungetc :: "char \<Rightarrow> config_source \<Rightarrow> config_source" where
  "config_file_ungetc c cf = cf\<lparr>cs_rest := c # cs_rest cf\<rparr>"

abbreviation CR :: char where "CR \<equiv> CHR 0x0D"
abbreviation NL :: char where "NL \<equiv> CHR 0x0A"
abbreviation TAB :: char where "TAB \<equiv> CHR 0x09"

definition get_next_char :: "config_source \<Rightarrow> char \<times> config_source" where
  "get_next_char cf =
     (let (c, cf) = config_file_fgetc cf;
          (c, cf) = (if c = Some CR then
                       (case config_file_fgetc cf of
                          (Some c, cf') \<Rightarrow> if c \<noteq> NL then (Some CR, config_file_ungetc c cf') else (Some c, cf')
                        | (None, cf') \<Rightarrow> (Some CR, cf'))
                     else (c, cf));
          cf = (if c = Some NL then cf\<lparr>cs_linenr := cs_linenr cf + 1\<rparr> else cf)
      in case c of
           None \<Rightarrow> (NL, cf\<lparr>cs_eof := True, cs_linenr := cs_linenr cf + 1\<rparr>)
         | Some c \<Rightarrow> (c, cf))"

lemma get_next_char_rest:
  "cs_rest cf \<noteq> [] \<Longrightarrow> get_next_char cf = (c, cf') \<Longrightarrow> length (cs_rest cf') < length (cs_rest cf)"
  by (cases "cs_rest cf"; cases "tl (cs_rest cf)")
     (auto simp: get_next_char_def config_file_fgetc_def config_file_ungetc_def split: if_splits)

lemma get_next_char_end:
  "cs_rest cf = [] \<Longrightarrow> get_next_char cf = (NL, cf\<lparr>cs_eof := True, cs_linenr := cs_linenr cf + 1\<rparr>)"
  by (simp add: get_next_char_def config_file_fgetc_def)

lemma get_next_char_less:
  "get_next_char cf = (c, cf') \<Longrightarrow> c \<noteq> NL \<Longrightarrow> length (cs_rest cf') < length (cs_rest cf)"
  using get_next_char_rest get_next_char_end by (cases "cs_rest cf = []") auto

lemma get_next_char_le: "get_next_char cf = (c, cf') \<Longrightarrow> length (cs_rest cf') \<le> length (cs_rest cf)"
  using get_next_char_rest [of cf c cf'] get_next_char_end [of cf] by (cases "cs_rest cf = []") auto

lemma next_char_once: "(c, cf1) = get_next_char cf \<Longrightarrow> c \<noteq> NL \<Longrightarrow> length (cs_rest cf1) < length (cs_rest cf)"
  by (rule get_next_char_less [OF sym])

lemma next_char_twice:
  "(c, cf1) = get_next_char cf \<Longrightarrow> c \<noteq> NL \<Longrightarrow> (d, cf2) = get_next_char cf1 \<Longrightarrow>
     length (cs_rest cf2) < length (cs_rest cf)"
  using get_next_char_le [OF sym] get_next_char_less [OF sym] by (meson order_le_less_trans)

text \<open>The reader of a blob returns plain \<open>char\<close>s, which may be negative.\<close>

definition config_buf_fgetc :: "string \<Rightarrow> nat \<Rightarrow> int \<times> nat" where
  "config_buf_fgetc buf pos =
     (if pos < length buf then
        (let c = char_code (buf ! pos) in if c \<ge> 128 then c - 256 else c, pos + 1)
      else (-1, pos))"

section \<open>Values\<close>

text \<open>The error of an unfinished quote steps the line number back; \<open>value\<close> is the buffer so far.\<close>

function parse_value_loop ::
  "bool \<Rightarrow> bool \<Rightarrow> nat \<Rightarrow> string \<Rightarrow> config_source \<Rightarrow> string option \<times> config_source" where
  "parse_value_loop quote comment space buf cf =
     (case get_next_char cf of (c, cf1) \<Rightarrow>
        if c = NL then
          (if quote then (None, cf1\<lparr>cs_linenr := cs_linenr cf1 - 1\<rparr>) else (Some buf, cf1))
        else if comment then parse_value_loop quote comment space buf cf1
        else if isspace c \<and> \<not> quote then
          parse_value_loop quote comment (if buf \<noteq> [] then space + 1 else space) buf cf1
        else if \<not> quote \<and> (c = CHR '';'' \<or> c = CHR ''#'') then
          parse_value_loop quote True space buf cf1
        else
          let buf = buf @ replicate space CHR '' ''
          in if c = CHR 0x5C then
               (case get_next_char cf1 of (c, cf2) \<Rightarrow>
                  if c = NL then parse_value_loop quote comment 0 buf cf2
                  else if c = CHR ''t'' then parse_value_loop quote comment 0 (buf @ [TAB]) cf2
                  else if c = CHR ''b'' then parse_value_loop quote comment 0 (buf @ [CHR 0x08]) cf2
                  else if c = CHR ''n'' then parse_value_loop quote comment 0 (buf @ [NL]) cf2
                  else if c = CHR 0x5C \<or> c = CHR 0x22 then parse_value_loop quote comment 0 (buf @ [c]) cf2
                  else (None, cf2))
             else if c = CHR 0x22 then parse_value_loop (\<not> quote) comment 0 buf cf1
             else parse_value_loop quote comment 0 (buf @ [c]) cf1)"
  by pat_completeness auto
termination
  by (relation "measure (\<lambda>(_, _, _, _, cf). length (cs_rest cf))")
     (auto intro: next_char_once next_char_twice)

declare parse_value_loop.simps [simp del]

text \<open>A C string ends at the first NUL of the buffer.\<close>

definition c_str :: "string \<Rightarrow> string" where
  "c_str buf = takeWhile (\<lambda>c. c \<noteq> NUL) buf"

definition parse_value :: "config_source \<Rightarrow> string option \<times> config_source" where
  "parse_value cf = (let (r, cf) = parse_value_loop False False 0 [] cf in (map_option c_str r, cf))"


section \<open>Names and section headers\<close>

definition iskeychar :: "char \<Rightarrow> bool" where
  "iskeychar c \<longleftrightarrow> isalnum c \<or> c = CHR ''-''"

lemma iskeychar_not_NL: "iskeychar c \<Longrightarrow> c \<noteq> NL"
  by (auto simp: iskeychar_def isalnum_iff ctype_iff)

lemma next_char_key: "(c, cf1) = get_next_char cf \<Longrightarrow> iskeychar c \<Longrightarrow> length (cs_rest cf1) < length (cs_rest cf)"
  by (rule next_char_once [OF _ iskeychar_not_NL])

text \<open>The measure of the loops that carry the last character.\<close>

definition char_measure :: "char \<Rightarrow> config_source \<Rightarrow> nat" where
  "char_measure c cf = length (cs_rest cf) + (if c = NL then 0 else 1)"

lemma next_char_measure:
  "(d, cf') = get_next_char cf \<Longrightarrow> c \<noteq> NL \<Longrightarrow> char_measure d cf' < char_measure c cf"
  using get_next_char_le [of cf d cf'] get_next_char_less [of cf d cf']
  by (cases "d = NL") (auto simp: char_measure_def)

text \<open>One round of the loop of \<open>parse_value\<close>, case by case.\<close>

definition value_escape :: "char \<Rightarrow> string option" where
  "value_escape c =
     (if c = NL then Some []
      else if c = CHR ''t'' then Some [TAB]
      else if c = CHR ''b'' then Some [CHR 0x08]
      else if c = CHR ''n'' then Some [NL]
      else if c = CHR 0x5C \<or> c = CHR 0x22 then Some [c] else None)"

lemma parse_value_step:
  assumes "get_next_char cf = (c, cf1)"
  shows "c = NL \<Longrightarrow> parse_value_loop quote comment space buf cf =
      (if quote then (None, cf1\<lparr>cs_linenr := cs_linenr cf1 - 1\<rparr>) else (Some buf, cf1))"
    "c \<noteq> NL \<Longrightarrow> comment \<Longrightarrow> parse_value_loop quote comment space buf cf = parse_value_loop quote comment space buf cf1"
    "c \<noteq> NL \<Longrightarrow> \<not> comment \<Longrightarrow> isspace c \<and> \<not> quote \<Longrightarrow> parse_value_loop quote comment space buf cf =
      parse_value_loop quote comment (if buf \<noteq> [] then space + 1 else space) buf cf1"
    "c \<noteq> NL \<Longrightarrow> \<not> comment \<Longrightarrow> \<not> (isspace c \<and> \<not> quote) \<Longrightarrow> \<not> quote \<and> (c = CHR '';'' \<or> c = CHR ''#'') \<Longrightarrow>
      parse_value_loop quote comment space buf cf = parse_value_loop quote True space buf cf1"
    "c \<noteq> NL \<Longrightarrow> \<not> comment \<Longrightarrow> \<not> (isspace c \<and> \<not> quote) \<Longrightarrow> \<not> (\<not> quote \<and> (c = CHR '';'' \<or> c = CHR ''#'')) \<Longrightarrow>
      c \<noteq> CHR 0x5C \<Longrightarrow> parse_value_loop quote comment space buf cf =
        (if c = CHR 0x22 then parse_value_loop (\<not> quote) comment 0 (buf @ replicate space CHR '' '') cf1
         else parse_value_loop quote comment 0 ((buf @ replicate space CHR '' '') @ [c]) cf1)"
  unfolding parse_value_loop.simps [of quote comment space buf cf] assms prod.case Let_def
  by (simp_all only: if_True if_False simp_thms)

lemma parse_value_escape:
  assumes "get_next_char cf = (CHR 0x5C, cf1)" and "get_next_char cf1 = (d, cf2)" and "\<not> comment"
  shows "parse_value_loop quote comment space buf cf =
    (case value_escape d of None \<Rightarrow> (None, cf2)
     | Some s \<Rightarrow> parse_value_loop quote comment 0 (buf @ replicate space CHR '' '' @ s) cf2)"
proof -
  have "\<not> isspace CHR 0x5C" by (simp add: isspace_iff)
  then show ?thesis
    using assms by (subst parse_value_loop.simps) (simp add: Let_def value_escape_def)
qed

lemma parse_value_loop_le:
  "parse_value_loop quote comment space buf cf = (r, cf') \<Longrightarrow> length (cs_rest cf') \<le> length (cs_rest cf)"
proof (induction "length (cs_rest cf)" arbitrary: quote comment space buf cf rule: less_induct)
  case less
  obtain c cf1 where c: "get_next_char cf = (c, cf1)" by fastforce
  note step = parse_value_step [where quote = quote and comment = comment and space = space and buf = buf, OF c]
  show ?case
  proof (cases "c = NL")
    case True
    then show ?thesis using step(1) less.prems get_next_char_le [OF c] by (auto split: if_splits)
  next
    case False
    note once = get_next_char_less [OF c False]
    have rec: "length (cs_rest cf') \<le> length (cs_rest cf)"
      if "parse_value_loop q co s b cfi = (r, cf')" "length (cs_rest cfi) < length (cs_rest cf)" for q co s b cfi
      using less.hyps [OF that(2,1)] that(2) by linarith
    consider "comment" | "\<not> comment" "isspace c \<and> \<not> quote"
      | "\<not> comment" "\<not> (isspace c \<and> \<not> quote)" "\<not> quote \<and> (c = CHR '';'' \<or> c = CHR ''#'')"
      | "\<not> comment" "\<not> (isspace c \<and> \<not> quote)" "\<not> (\<not> quote \<and> (c = CHR '';'' \<or> c = CHR ''#''))" "c \<noteq> CHR 0x5C"
      | "\<not> comment" "c = CHR 0x5C" by blast
    then show ?thesis
    proof cases
      case 1
      show ?thesis using less.prems unfolding step(2) [OF False 1] by (rule rec [OF _ once])
    next
      case 2
      show ?thesis using less.prems unfolding step(3) [OF False 2] by (rule rec [OF _ once])
    next
      case 3
      show ?thesis using less.prems unfolding step(4) [OF False 3] by (rule rec [OF _ once])
    next
      case 4
      then show ?thesis
        using less.prems rec [OF _ once] unfolding step(5) [OF False 4] by (simp split: if_splits)
    next
      case 5
      obtain d cf2 where d: "get_next_char cf1 = (d, cf2)" by fastforce
      have "length (cs_rest cf2) < length (cs_rest cf)" using get_next_char_le [OF d] once by linarith
      then show ?thesis
        using parse_value_escape [OF c [unfolded 5] d 5(1), where quote = quote and space = space and buf = buf] less.prems rec
        by (cases "value_escape d") auto
    qed
  qed
qed

lemma parse_value_le: "parse_value cf = (r, cf') \<Longrightarrow> length (cs_rest cf') \<le> length (cs_rest cf)"
  using parse_value_loop_le by (fastforce simp: parse_value_def split: prod.splits)

function name_loop :: "string \<Rightarrow> config_source \<Rightarrow> char \<times> string \<times> config_source" where
  "name_loop name cf =
     (case get_next_char cf of (c, cf) \<Rightarrow>
        if cs_eof cf then (c, name, cf)
        else if \<not> iskeychar c then (c, name, cf)
        else name_loop (name @ [tolower c]) cf)"
  by pat_completeness auto
termination
  by (relation "measure (\<lambda>(_, cf). length (cs_rest cf))") (auto intro: next_char_once next_char_key)

function skip_blanks :: "char \<Rightarrow> config_source \<Rightarrow> char \<times> config_source" where
  "skip_blanks c cf =
     (if c = CHR '' '' \<or> c = TAB then (case get_next_char cf of (c, cf) \<Rightarrow> skip_blanks c cf) else (c, cf))"
  by pat_completeness auto
termination
  by (relation "measure (\<lambda>(c, cf). char_measure c cf)") (auto split: prod.splits intro: next_char_measure [OF sym])

declare name_loop.simps [simp del] skip_blanks.simps [simp del]

definition get_value :: "'d config_fn \<Rightarrow> 'd \<Rightarrow> string \<Rightarrow> config_source \<Rightarrow> int \<times> string \<times> config_source \<times> 'd" where
  "get_value fn d name cf =
     (let (c, name, cf) = name_loop name cf;
          (c, cf) = skip_blanks c cf;
          call = (\<lambda>val cf.
            let cf = cf\<lparr>cs_linenr := cs_linenr cf - 1\<rparr>;
                (ret, d) = fn cf (c_str name) val d
            in (ret, name, cf\<lparr>cs_linenr := cs_linenr cf + 1\<rparr>, d))
      in if c \<noteq> NL then
           (if c \<noteq> CHR ''='' then (-1, name, cf, d)
            else case parse_value cf of
                (None, cf) \<Rightarrow> (-1, name, cf, d)
              | (Some val, cf) \<Rightarrow> call (Some val) cf)
         else call None cf)"

function subsection_loop :: "string \<Rightarrow> config_source \<Rightarrow> string option \<times> config_source" where
  "subsection_loop name cf =
     (case get_next_char cf of (c, cf1) \<Rightarrow>
        if c = NL then (None, cf1\<lparr>cs_linenr := cs_linenr cf1 - 1\<rparr>)
        else if c = CHR 0x22 then (Some name, cf1)
        else if c = CHR 0x5C then
          (case get_next_char cf1 of (c, cf2) \<Rightarrow>
             if c = NL then (None, cf2\<lparr>cs_linenr := cs_linenr cf2 - 1\<rparr>)
             else subsection_loop (name @ [c]) cf2)
        else subsection_loop (name @ [c]) cf1)"
  by pat_completeness auto
termination
  by (relation "measure (\<lambda>(_, cf). length (cs_rest cf))") (auto intro: next_char_once next_char_twice)

function spaces_loop :: "char \<Rightarrow> config_source \<Rightarrow> char option \<times> config_source" where
  "spaces_loop c cf =
     (if c = NL then (None, cf\<lparr>cs_linenr := cs_linenr cf - 1\<rparr>)
      else case get_next_char cf of (c, cf) \<Rightarrow> if isspace c then spaces_loop c cf else (Some c, cf))"
  by pat_completeness auto
termination
  by (relation "measure (\<lambda>(c, cf). char_measure c cf)") (auto split: prod.splits intro: next_char_measure [OF sym])

declare subsection_loop.simps [simp del] spaces_loop.simps [simp del]

definition get_extended_base_var :: "string \<Rightarrow> char \<Rightarrow> config_source \<Rightarrow> string option \<times> config_source" where
  "get_extended_base_var name c cf =
     (case spaces_loop c cf of
        (None, cf) \<Rightarrow> (None, cf)
      | (Some c, cf) \<Rightarrow>
          if c \<noteq> CHR 0x22 then (None, cf)
          else case subsection_loop (name @ ''.'') cf of
              (None, cf) \<Rightarrow> (None, cf)
            | (Some name, cf) \<Rightarrow>
                (case get_next_char cf of (c, cf) \<Rightarrow> if c \<noteq> CHR '']'' then (None, cf) else (Some name, cf)))"

function get_base_var :: "string \<Rightarrow> config_source \<Rightarrow> string option \<times> config_source" where
  "get_base_var name cf =
     (case get_next_char cf of (c, cf) \<Rightarrow>
        if cs_eof cf then (None, cf)
        else if c = CHR '']'' then (Some name, cf)
        else if isspace c then get_extended_base_var name c cf
        else if \<not> iskeychar c \<and> c \<noteq> CHR ''.'' then (None, cf)
        else get_base_var (name @ [tolower c]) cf)"
  by pat_completeness auto
termination
  by (relation "measure (\<lambda>(_, cf). length (cs_rest cf))") (auto intro: next_char_once next_char_key)

declare get_base_var.simps [simp del]


section \<open>The file\<close>

lemma name_loop_le: "name_loop name cf = (c, name', cf') \<Longrightarrow> length (cs_rest cf') \<le> length (cs_rest cf)"
proof (induction name cf rule: name_loop.induct)
  case (1 name cf)
  obtain d cf1 where d: "get_next_char cf = (d, cf1)" by fastforce
  show ?case
    using "1.prems" "1.IH" [OF d [symmetric]] d get_next_char_le [OF d]
    by (subst (asm) name_loop.simps) (auto split: if_splits)
qed

lemma skip_blanks_le: "skip_blanks c cf = (d, cf') \<Longrightarrow> length (cs_rest cf') \<le> length (cs_rest cf)"
proof (induction c cf rule: skip_blanks.induct)
  case (1 c cf)
  obtain e cf1 where e: "get_next_char cf = (e, cf1)" by fastforce
  show ?case
    using "1.prems" "1.IH" [OF _ e [symmetric]] e get_next_char_le [OF e]
    by (subst (asm) skip_blanks.simps) (auto split: if_splits)
qed

lemma subsection_loop_le: "subsection_loop name cf = (r, cf') \<Longrightarrow> length (cs_rest cf') \<le> length (cs_rest cf)"
proof (induction name cf rule: subsection_loop.induct)
  case (1 name cf)
  obtain c cf1 where c: "get_next_char cf = (c, cf1)" by fastforce
  obtain d cf2 where d: "get_next_char cf1 = (d, cf2)" by fastforce
  have le: "length (cs_rest cf1) \<le> length (cs_rest cf)" "length (cs_rest cf2) \<le> length (cs_rest cf)"
    using get_next_char_le [OF c] get_next_char_le [OF d] by linarith+
  note run = "1.prems" [unfolded subsection_loop.simps [of name cf] c prod.case d]
  consider "c = NL \<or> c = CHR 0x22" | "c = CHR 0x5C" "d = NL" | "c = CHR 0x5C" "d \<noteq> NL"
    | "c \<noteq> NL" "c \<noteq> CHR 0x22" "c \<noteq> CHR 0x5C" by blast
  then show ?case
  proof cases
    case 3
    then have "subsection_loop (name @ [d]) cf2 = (r, cf')" using run by simp
    from "1.IH"(1) [OF c [symmetric] _ _ 3(1) d [symmetric] 3(2) this] show ?thesis using le 3 by simp
  next
    case 4
    then have "subsection_loop (name @ [c]) cf1 = (r, cf')" using run by simp
    from "1.IH"(2) [OF c [symmetric] 4 this] show ?thesis using le by simp
  qed (use run le in \<open>auto split: if_splits\<close>)
qed

lemma spaces_loop_le: "spaces_loop c cf = (r, cf') \<Longrightarrow> length (cs_rest cf') \<le> length (cs_rest cf)"
proof (induction c cf rule: spaces_loop.induct)
  case (1 c cf)
  obtain e cf1 where e: "get_next_char cf = (e, cf1)" by fastforce
  show ?case
    using "1.prems" "1.IH" [OF _ e [symmetric]] e get_next_char_le [OF e]
    by (subst (asm) spaces_loop.simps) (auto split: if_splits)
qed

lemma get_extended_base_var_le:
  "get_extended_base_var name c cf = (r, cf') \<Longrightarrow> length (cs_rest cf') \<le> length (cs_rest cf)"
  using spaces_loop_le subsection_loop_le get_next_char_le
  by (fastforce simp: get_extended_base_var_def split: prod.splits option.splits if_splits)

lemma get_base_var_le: "get_base_var name cf = (r, cf') \<Longrightarrow> length (cs_rest cf') \<le> length (cs_rest cf)"
proof (induction name cf rule: get_base_var.induct)
  case (1 name cf)
  obtain c cf1 where c: "get_next_char cf = (c, cf1)" by fastforce
  show ?case
    using "1.prems" "1.IH" [OF c [symmetric]] c get_next_char_le [OF c] get_extended_base_var_le
    by (subst (asm) get_base_var.simps) (fastforce split: if_splits)
qed

lemma get_value_le:
  "get_value fn d name cf = (ret, name', cf', d') \<Longrightarrow> length (cs_rest cf') \<le> length (cs_rest cf)"
  using name_loop_le skip_blanks_le parse_value_le
  by (fastforce simp: get_value_def Let_def split: prod.splits option.splits if_splits)

abbreviation utf8_bom :: string where
  "utf8_bom \<equiv> [CHR 0xEF, CHR 0xBB, CHR 0xBF]"

text \<open>
  What \<open>git_parse_source\<close> returns: the state of the callback, and the line of the error
  message when it did not get through the file (whether it then dies or returns -1 depends on the source).
\<close>

datatype 'd parse_result =
    Parsed 'd
  | Bad_Config_Line int 'd

definition source_measure :: "string option \<Rightarrow> config_source \<Rightarrow> nat" where
  "source_measure bomptr cf = length (cs_rest cf) + (case bomptr of None \<Rightarrow> 0 | Some b \<Rightarrow> length b)"

lemma next_char_bom:
  "(c, cf1) = get_next_char cf \<Longrightarrow> b \<noteq> [] \<Longrightarrow> source_measure (Some (tl b)) cf1 < source_measure (Some b) cf"
  using get_next_char_le [of cf c cf1] by (cases b) (simp_all add: source_measure_def)

lemma next_char_consumed:
  "(c, cf1) = get_next_char cf \<Longrightarrow> c \<noteq> NL \<or> \<not> cs_eof cf1 \<Longrightarrow>
     b' = b \<or> b' = None \<Longrightarrow> source_measure b' cf1 < source_measure b cf"
proof -
  assume c: "(c, cf1) = get_next_char cf" and "c \<noteq> NL \<or> \<not> cs_eof cf1" and b: "b' = b \<or> b' = None"
  then have "length (cs_rest cf1) < length (cs_rest cf)"
    using get_next_char_less [OF c [symmetric]] get_next_char_end [of cf] get_next_char_rest [OF _ c [symmetric]]
    by (cases "cs_rest cf = []") auto
  then show ?thesis using b by (auto simp: source_measure_def)
qed

lemma next_char_section:
  "(c, cf1) = get_next_char cf \<Longrightarrow> c \<noteq> NL \<Longrightarrow> (r, cf2) = get_base_var name cf1 \<Longrightarrow>
     b' = b \<or> b' = None \<Longrightarrow> source_measure b' cf2 < source_measure b cf"
  using get_base_var_le [of name cf1 r cf2] next_char_consumed [of c cf1 cf b' b]
  by (cases b') (simp_all add: source_measure_def)

lemma next_char_value:
  "(c, cf1) = get_next_char cf \<Longrightarrow> c \<noteq> NL \<Longrightarrow> (ret, name', cf2, d') = get_value fn d name cf1 \<Longrightarrow>
     b' = b \<or> b' = None \<Longrightarrow> source_measure b' cf2 < source_measure b cf"
  using get_value_le [of fn d name cf1 ret name' cf2 d'] next_char_consumed [of c cf1 cf b' b]
  by (cases b') (simp_all add: source_measure_def)

text \<open>\<open>bomptr\<close> is the rest of the byte order mark still to be matched, \<open>None\<close> when there is none.\<close>

function source_loop ::
  "'d config_fn \<Rightarrow> 'd \<Rightarrow> string option \<Rightarrow> bool \<Rightarrow> nat \<Rightarrow> string \<Rightarrow> config_source \<Rightarrow> 'd parse_result" where
  "source_loop fn d bomptr comment baselen var cf =
     (case get_next_char cf of (c, cf) \<Rightarrow>
        if bomptr \<noteq> None \<and> the bomptr \<noteq> [] \<and> c = hd (the bomptr) then
          source_loop fn d (Some (tl (the bomptr))) comment baselen var cf
        else if bomptr \<noteq> None \<and> the bomptr \<noteq> [] \<and> the bomptr \<noteq> utf8_bom then
          Bad_Config_Line (cs_linenr cf) d
        else
          let bomptr = (if bomptr \<noteq> None \<and> the bomptr \<noteq> [] then None else bomptr)
          in if c = NL then
               (if cs_eof cf then Parsed d else source_loop fn d bomptr False baselen var cf)
             else if comment \<or> isspace c then source_loop fn d bomptr comment baselen var cf
             else if c = CHR ''#'' \<or> c = CHR '';'' then source_loop fn d bomptr True baselen var cf
             else if c = CHR ''['' then
               (case get_base_var [] cf of
                  (None, cf) \<Rightarrow> Bad_Config_Line (cs_linenr cf) d
                | (Some var, cf) \<Rightarrow>
                    if length var < 1 then Bad_Config_Line (cs_linenr cf) d
                    else source_loop fn d bomptr comment (length var + 1) (var @ ''.'') cf)
             else if \<not> isalpha c then Bad_Config_Line (cs_linenr cf) d
             else
               (case get_value fn d (take baselen var @ [tolower c]) cf of (ret, var, cf, d) \<Rightarrow>
                  if ret < 0 then Bad_Config_Line (cs_linenr cf) d
                  else source_loop fn d bomptr comment baselen var cf))"
  by pat_completeness auto
termination
  by (relation "measure (\<lambda>(_, _, bomptr, _, _, _, cf). source_measure bomptr cf)")
     (auto intro: next_char_bom next_char_consumed next_char_section next_char_value)

declare source_loop.simps [simp del]

definition git_parse_source :: "'d config_fn \<Rightarrow> 'd \<Rightarrow> config_source \<Rightarrow> 'd parse_result" where
  "git_parse_source fn d cf = source_loop fn d (Some utf8_bom) False 0 [] cf"

section \<open>Keys\<close>

abbreviation (input) CONFIG_INVALID_KEY :: int where "CONFIG_INVALID_KEY \<equiv> 1"
abbreviation (input) CONFIG_NO_SECTION_OR_NAME :: int where "CONFIG_NO_SECTION_OR_NAME \<equiv> 2"

text \<open>The loop that checks and copies the key from index \<open>i\<close> on.\<close>

fun parse_key_loop :: "nat \<Rightarrow> nat \<Rightarrow> bool \<Rightarrow> string \<Rightarrow> string option" where
  "parse_key_loop baselen i dot [] = Some []"
| "parse_key_loop baselen i dot (c # key) =
     (let dot = (if c = CHR ''.'' then True else dot)
      in if \<not> dot \<or> i > baselen then
           (if \<not> iskeychar c \<or> (i = baselen + 1 \<and> \<not> isalpha c) then None
            else map_option (Cons (tolower c)) (parse_key_loop baselen (i + 1) dot key))
         else if c = NL then None
         else map_option (Cons c) (parse_key_loop baselen (i + 1) dot key))"

text \<open>\<open>strrchr\<close>: the position of the last dot.\<close>

definition last_dot :: "string \<Rightarrow> nat option" where
  "last_dot key = (if CHR ''.'' \<in> set key
     then Some (length key - 1 - length (takeWhile (\<lambda>c. c \<noteq> CHR ''.'') (rev key))) else None)"

text \<open>\<open>Inl\<close> is the error code, negated; \<open>Inr\<close> the normalized key and the length of the section part.\<close>

definition git_config_parse_key :: "string \<Rightarrow> int + string \<times> nat" where
  "git_config_parse_key key =
     (case last_dot key of
        None \<Rightarrow> Inl (- CONFIG_NO_SECTION_OR_NAME)
      | Some baselen \<Rightarrow>
          if baselen = 0 then Inl (- CONFIG_NO_SECTION_OR_NAME)
          else if drop (baselen + 1) key = [] then Inl (- CONFIG_NO_SECTION_OR_NAME)
          else case parse_key_loop baselen 0 False key of
              None \<Rightarrow> Inl (- CONFIG_INVALID_KEY)
            | Some store_key \<Rightarrow> Inr (store_key, baselen))"

section \<open>Writing\<close>

text \<open>What goes to the file descriptor; \<open>baselen\<close> is \<open>store.baselen\<close>.\<close>

definition store_write_section :: "nat \<Rightarrow> string \<Rightarrow> string" where
  "store_write_section baselen key =
     (let name = take baselen key
      in if CHR ''.'' \<in> set name then
           ''['' @ takeWhile (\<lambda>c. c \<noteq> CHR ''.'') name @ '' '' @ [CHR 0x22] @
           concat (map (\<lambda>c. if c = CHR 0x22 \<or> c = CHR 0x5C then [CHR 0x5C, c] else [c])
             (tl (dropWhile (\<lambda>c. c \<noteq> CHR ''.'') name))) @ [CHR 0x22] @ '']'' @ [NL]
         else ''['' @ name @ '']'' @ [NL])"

definition value_char :: "char \<Rightarrow> string" where
  "value_char c =
     (if c = NL then [CHR 0x5C, CHR ''n'']
      else if c = TAB then [CHR 0x5C, CHR ''t'']
      else if c = CHR 0x22 \<or> c = CHR 0x5C then [CHR 0x5C, c] else [c])"

definition store_write_pair :: "nat \<Rightarrow> string \<Rightarrow> string \<Rightarrow> string" where
  "store_write_pair baselen key val =
     (let quote = (if val \<noteq> [] \<and> hd val = CHR '' '' \<or> CHR '';'' \<in> set val \<or> CHR ''#'' \<in> set val \<or>
                      val \<noteq> [] \<and> last val = CHR '' '' then [CHR 0x22] else [])
      in TAB # drop (baselen + 1) key @ '' = '' @ quote @ concat (map value_char val) @ quote @ [NL])"


section \<open>Keys: what is accepted\<close>

lemma iskeychar_facts:
  "\<not> iskeychar CHR ''.''" "\<not> iskeychar CHR ''='' " "\<not> iskeychar CHR '' ''" "\<not> iskeychar CHR '']''" "\<not> iskeychar NUL"
  "\<not> iskeychar CR" "\<not> iskeychar NL"
  by (simp_all add: iskeychar_def isalnum_iff ctype_iff)

lemma last_dot_append: "CHR ''.'' \<notin> set var \<Longrightarrow> last_dot (pre @ CHR ''.'' # var) = Some (length pre)"
proof -
  assume "CHR ''.'' \<notin> set var"
  then have "takeWhile (\<lambda>c. c \<noteq> CHR ''.'') (rev var) = rev var"
    unfolding takeWhile_eq_all_conv by auto
  then have "takeWhile (\<lambda>c. c \<noteq> CHR ''.'') (rev (pre @ CHR ''.'' # var)) = rev var"
    by (simp add: takeWhile_tail del: takeWhile_eq_all_conv)
  then show ?thesis unfolding last_dot_def by simp
qed

lemma last_dot_split:
  assumes "last_dot key = Some b"
  obtains var where "key = take b key @ CHR ''.'' # var" "CHR ''.'' \<notin> set var" "length (take b key) = b"
    "drop (b + 1) key = var"
proof -
  have "CHR ''.'' \<in> set key" using assms by (auto simp: last_dot_def split: if_splits)
  then obtain pre var where key: "key = pre @ CHR ''.'' # var" "CHR ''.'' \<notin> set var"
    using split_list_last by metis
  then have "b = length pre" using assms last_dot_append by auto
  then show thesis using that [of var] key by simp
qed

lemma parse_key_section:
  "CHR ''.'' \<notin> set sec \<Longrightarrow> i + length sec \<le> baselen \<Longrightarrow>
     parse_key_loop baselen i False (sec @ key) =
       (if \<forall>c \<in> set sec. iskeychar c
        then (case parse_key_loop baselen (i + length sec) False key of
                None \<Rightarrow> None | Some k \<Rightarrow> Some (map tolower sec @ k)) else None)"
  by (induction sec arbitrary: i) (auto split: option.splits)

lemma parse_key_subsection:
  "i + length sub \<le> baselen + 1 \<Longrightarrow>
     parse_key_loop baselen i True (sub @ key) =
       (if NL \<notin> set sub
        then (case parse_key_loop baselen (i + length sub) True key of None \<Rightarrow> None | Some k \<Rightarrow> Some (sub @ k))
        else None)"
  by (induction sub arbitrary: i) (auto split: option.splits)

lemma parse_key_variable:
  "i > baselen \<Longrightarrow>
     parse_key_loop baselen i dot var =
       (if (\<forall>c \<in> set var. iskeychar c) \<and> (var \<noteq> [] \<longrightarrow> i = baselen + 1 \<longrightarrow> isalpha (hd var))
        then Some (map tolower var) else None)"
  by (induction var arbitrary: i dot) (auto simp: iskeychar_facts)

text \<open>A key is a section name, a subsection from its first dot on (or nothing) and a variable name.\<close>

definition key_parts :: "string \<Rightarrow> string \<Rightarrow> string \<Rightarrow> string \<Rightarrow> bool" where
  "key_parts key sec sub var \<longleftrightarrow>
     key = sec @ sub @ ''.'' @ var \<and> sec @ sub \<noteq> [] \<and> (sub \<noteq> [] \<longrightarrow> hd sub = CHR ''.'') \<and>
     (\<forall>c \<in> set sec. iskeychar c) \<and> NL \<notin> set sub \<and>
     var \<noteq> [] \<and> isalpha (hd var) \<and> (\<forall>c \<in> set var. iskeychar c)"

definition normal_key :: "string \<Rightarrow> string \<Rightarrow> string \<Rightarrow> string" where
  "normal_key sec sub var = map tolower sec @ sub @ ''.'' @ map tolower var"

lemma parse_key_loop_parts:
  assumes "CHR ''.'' \<notin> set sec" and "sub \<noteq> [] \<longrightarrow> hd sub = CHR ''.''" and "CHR ''.'' \<notin> set var" and "var \<noteq> []"
  shows "parse_key_loop (length (sec @ sub)) 0 False (sec @ sub @ CHR ''.'' # var) =
    (if (\<forall>c \<in> set sec. iskeychar c) \<and> NL \<notin> set sub \<and> isalpha (hd var) \<and> (\<forall>c \<in> set var. iskeychar c)
     then Some (normal_key sec sub var) else None)"
proof -
  have dot: "parse_key_loop (length (sec @ sub)) (length sec) False (sub @ CHR ''.'' # var) =
      parse_key_loop (length (sec @ sub)) (length sec) True (sub @ CHR ''.'' # var)"
    using assms(2) by (cases sub) simp_all
  have "parse_key_loop (length (sec @ sub)) (length sec) True ((sub @ ''.'') @ var) =
    (if NL \<notin> set sub \<and> isalpha (hd var) \<and> (\<forall>c \<in> set var. iskeychar c)
     then Some (sub @ ''.'' @ map tolower var) else None)"
    by (subst parse_key_subsection) (auto simp: parse_key_variable assms(4))
  with parse_key_section [of sec 0 "length (sec @ sub)" "sub @ CHR ''.'' # var"] assms(1) dot show ?thesis
    by (auto simp: normal_key_def)
qed

lemma parse_key_iff:
  "git_config_parse_key key = Inr (store_key, baselen) \<longleftrightarrow>
     (\<exists>sec sub var. key_parts key sec sub var \<and> baselen = length (sec @ sub) \<and> store_key = normal_key sec sub var)"
proof
  assume parsed: "git_config_parse_key key = Inr (store_key, baselen)"
  then have b: "last_dot key = Some baselen" "baselen \<noteq> 0" "drop (baselen + 1) key \<noteq> []"
    "parse_key_loop baselen 0 False key = Some store_key"
    by (auto simp: git_config_parse_key_def split: option.splits if_splits)
  from b(1) obtain var where var: "key = take baselen key @ CHR ''.'' # var" "CHR ''.'' \<notin> set var"
    "length (take baselen key) = baselen" "drop (baselen + 1) key = var" by (rule last_dot_split)
  have "(\<exists>sec sub. take baselen key = sec @ sub \<and> CHR ''.'' \<notin> set sec \<and> (sub \<noteq> [] \<longrightarrow> hd sub = CHR ''.''))"
  proof (intro exI conjI)
    show "take baselen key = takeWhile (\<lambda>c. c \<noteq> CHR ''.'') (take baselen key) @ dropWhile (\<lambda>c. c \<noteq> CHR ''.'') (take baselen key)"
      by (rule takeWhile_dropWhile_id [symmetric])
    show "CHR ''.'' \<notin> set (takeWhile (\<lambda>c. c \<noteq> CHR ''.'') (take baselen key))" by (auto dest: set_takeWhileD)
    show "dropWhile (\<lambda>c. c \<noteq> CHR ''.'') (take baselen key) \<noteq> [] \<longrightarrow>
        hd (dropWhile (\<lambda>c. c \<noteq> CHR ''.'') (take baselen key)) = CHR ''.''"
      using hd_dropWhile [of "\<lambda>c. c \<noteq> CHR ''.''" "take baselen key"] by blast
  qed
  then obtain sec sub where name: "take baselen key = sec @ sub" and sec: "CHR ''.'' \<notin> set sec"
    and sub: "sub \<noteq> [] \<longrightarrow> hd sub = CHR ''.''" by blast
  have "var \<noteq> []" using b(3) unfolding var(4) .
  have key: "key = sec @ sub @ CHR ''.'' # var" using var(1) name by (metis append.assoc)
  have len: "baselen = length (sec @ sub)" using var(3) name by metis
  have loop: "parse_key_loop (length (sec @ sub)) 0 False (sec @ sub @ CHR ''.'' # var) = Some store_key"
    using b(4) key len by metis
  from loop [unfolded parse_key_loop_parts [OF sec sub var(2) \<open>var \<noteq> []\<close>]]
  have "key_parts key sec sub var" "store_key = normal_key sec sub var"
    using key len b(2) sub \<open>var \<noteq> []\<close> by (auto simp: key_parts_def split: if_splits)
  then show "\<exists>sec sub var. key_parts key sec sub var \<and> baselen = length (sec @ sub) \<and> store_key = normal_key sec sub var"
    using len by blast
next
  assume "\<exists>sec sub var. key_parts key sec sub var \<and> baselen = length (sec @ sub) \<and> store_key = normal_key sec sub var"
  then obtain sec sub var where parts: "key_parts key sec sub var" and res: "baselen = length (sec @ sub)"
    "store_key = normal_key sec sub var" by blast
  then have key: "key = (sec @ sub) @ CHR ''.'' # var" and nodot: "CHR ''.'' \<notin> set sec" "CHR ''.'' \<notin> set var"
    by (auto simp: key_parts_def iskeychar_facts)
  have "last_dot key = Some baselen" using last_dot_append [OF nodot(2)] key res by metis
  moreover have "parse_key_loop baselen 0 False key = Some store_key"
    using parse_key_loop_parts [OF nodot(1) _ nodot(2), of sub] parts res key by (auto simp: key_parts_def)
  moreover have "baselen \<noteq> 0" "drop (baselen + 1) key \<noteq> []"
    using parts res key by (auto simp: key_parts_def)
  ultimately show "git_config_parse_key key = Inr (store_key, baselen)"
    by (simp add: git_config_parse_key_def)
qed


lemma tolower_fixed: "\<not> isupper c \<Longrightarrow> tolower c = c"
proof -
  assume "\<not> isupper c"
  then have "char_code (tolower c) = char_code c" by (simp add: tolower_code)
  then show ?thesis by simp
qed

lemma iskeychar_tolower [simp]: "iskeychar (tolower c) = iskeychar c"
proof -
  have "tolower CHR ''-'' = CHR ''-''" by (rule tolower_fixed) (simp add: isupper_iff char_code_def)
  moreover have "tolower c = CHR ''-'' \<Longrightarrow> c = CHR ''-'' \<or> isalnum c"
    using tolower_fixed [of c] by (cases "isupper c") (auto simp: isalnum_iff isalpha_iff isupper_iff char_code_of_char)
  ultimately show ?thesis by (auto simp: iskeychar_def)
qed

lemma key_parts_normal:
  "key_parts key sec sub var \<Longrightarrow> key_parts (normal_key sec sub var) (map tolower sec) sub (map tolower var)"
  by (auto simp: key_parts_def normal_key_def hd_map)

lemma parse_key_normal:
  "git_config_parse_key key = Inr (store_key, baselen) \<Longrightarrow> git_config_parse_key store_key = Inr (store_key, baselen)"
  unfolding parse_key_iff using key_parts_normal by (fastforce simp: normal_key_def)

section \<open>Reading what was written\<close>

lemma next_plain [simp]:
  "c \<noteq> CR \<Longrightarrow> c \<noteq> NL \<Longrightarrow> get_next_char (cf\<lparr>cs_rest := c # r\<rparr>) = (c, cf\<lparr>cs_rest := r\<rparr>)"
  by (simp add: get_next_char_def config_file_fgetc_def)

lemma next_CR:
  "r \<noteq> [] \<Longrightarrow> hd r \<noteq> NL \<Longrightarrow> get_next_char (cf\<lparr>cs_rest := CR # r\<rparr>) = (CR, cf\<lparr>cs_rest := r\<rparr>)"
  by (cases r) (simp_all add: get_next_char_def config_file_fgetc_def config_file_ungetc_def)

lemma next_NL [simp]:
  "get_next_char (cf\<lparr>cs_rest := NL # r\<rparr>) = (NL, cf\<lparr>cs_rest := r, cs_linenr := cs_linenr cf + 1\<rparr>)"
  by (simp add: get_next_char_def config_file_fgetc_def)

lemma of_char_eq_nat: "(of_char c :: nat) = n \<Longrightarrow> c = char_of n"
  by auto

lemma isspace_chars: "isspace c \<longleftrightarrow> c = TAB \<or> c = NL \<or> c = CR \<or> c = CHR '' ''"
proof -
  have "char_of (9 :: nat) = TAB" "char_of (10 :: nat) = NL" "char_of (13 :: nat) = CR" "char_of (32 :: nat) = CHR '' ''"
    by code_simp+
  then show ?thesis
    unfolding isspace_iff using of_char_eq_nat [of c 9] of_char_eq_nat [of c 10] of_char_eq_nat [of c 13]
      of_char_eq_nat [of c 32] by auto
qed

lemma value_char_cases:
  assumes "c \<noteq> CR"
  obtains (escaped) e where "value_char c = [CHR 0x5C, e]" "value_escape e = Some [c]" "e \<noteq> CR" "e \<noteq> NL"
    | (plain) "value_char c = [c]" "c \<noteq> NL" "c \<noteq> TAB" "c \<noteq> CHR 0x22" "c \<noteq> CHR 0x5C"
proof -
  consider "c = NL" | "c = TAB" | "c = CHR 0x22 \<or> c = CHR 0x5C"
    | "c \<noteq> NL" "c \<noteq> TAB" "c \<noteq> CHR 0x22" "c \<noteq> CHR 0x5C" by blast
  then show thesis
  proof cases
    case 1
    then show thesis by (intro escaped [of "CHR ''n''"]) (simp_all add: value_char_def value_escape_def)
  next
    case 2
    then show thesis by (intro escaped [of "CHR ''t''"]) (simp_all add: value_char_def value_escape_def)
  next
    case 3
    then show thesis by (intro escaped [of c]) (auto simp: value_char_def value_escape_def)
  next
    case 4
    then show thesis by (intro plain) (simp_all add: value_char_def)
  qed
qed

lemma read_quoted:
  "CR \<notin> set val \<Longrightarrow>
     parse_value_loop True False 0 buf (cf\<lparr>cs_rest := concat (map value_char val) @ CHR 0x22 # NL # after\<rparr>) =
       (Some (buf @ val), cf\<lparr>cs_rest := after, cs_linenr := cs_linenr cf + 1\<rparr>)"
proof (induction val arbitrary: buf)
  case Nil
  have "parse_value_loop True False 0 buf (cf\<lparr>cs_rest := CHR 0x22 # NL # after\<rparr>) =
      parse_value_loop False False 0 buf (cf\<lparr>cs_rest := NL # after\<rparr>)"
    by (subst parse_value_step(5) [OF next_plain]) simp_all
  also have "\<dots> = (Some buf, cf\<lparr>cs_rest := after, cs_linenr := cs_linenr cf + 1\<rparr>)"
    by (subst parse_value_step(1) [OF next_NL]) simp_all
  finally show ?case by simp
next
  case (Cons c val)
  let ?rest = "concat (map value_char val) @ CHR 0x22 # NL # after"
  have "c \<noteq> CR" using Cons.prems by auto
  then show ?case
  proof (cases rule: value_char_cases)
    case (escaped e)
    have "parse_value_loop True False 0 buf (cf\<lparr>cs_rest := CHR 0x5C # e # ?rest\<rparr>) =
        parse_value_loop True False 0 (buf @ [c]) (cf\<lparr>cs_rest := ?rest\<rparr>)"
      using escaped by (subst parse_value_escape [OF next_plain next_plain]) simp_all
    then show ?thesis using escaped Cons by simp
  next
    case plain
    have "parse_value_loop True False 0 buf (cf\<lparr>cs_rest := c # ?rest\<rparr>) =
        parse_value_loop True False 0 (buf @ [c]) (cf\<lparr>cs_rest := ?rest\<rparr>)"
      using plain \<open>c \<noteq> CR\<close> by (subst parse_value_step(5) [OF next_plain]) simp_all
    then show ?thesis using plain Cons by simp
  qed
qed

lemma read_plain:
  "CR \<notin> set val \<Longrightarrow> CHR '';'' \<notin> set val \<Longrightarrow> CHR ''#'' \<notin> set val \<Longrightarrow>
   (if val = [] then space = 0 else last val \<noteq> CHR '' '') \<Longrightarrow> (buf = [] \<Longrightarrow> space = 0 \<and> (val \<noteq> [] \<longrightarrow> hd val \<noteq> CHR '' '')) \<Longrightarrow>
     parse_value_loop False False space buf (cf\<lparr>cs_rest := concat (map value_char val) @ NL # after\<rparr>) =
       (Some (buf @ replicate space CHR '' '' @ val), cf\<lparr>cs_rest := after, cs_linenr := cs_linenr cf + 1\<rparr>)"
proof (induction val arbitrary: space buf)
  case Nil
  then show ?case by (simp add: parse_value_step(1) [OF next_NL])
next
  case (Cons c val)
  let ?rest = "concat (map value_char val) @ NL # after"
  have "c \<noteq> CR" using Cons.prems by auto
  then show ?case
  proof (cases rule: value_char_cases)
    case (escaped e)
    have "parse_value_loop False False space buf (cf\<lparr>cs_rest := CHR 0x5C # e # ?rest\<rparr>) =
        parse_value_loop False False 0 (buf @ replicate space CHR '' '' @ [c]) (cf\<lparr>cs_rest := ?rest\<rparr>)"
      using escaped by (subst parse_value_escape [OF next_plain next_plain]) simp_all
    then show ?thesis
      using escaped Cons.prems Cons.IH [of 0 "buf @ replicate space CHR '' '' @ [c]"] by (cases "val = []") simp_all
  next
    case plain
    show ?thesis
    proof (cases "c = CHR '' ''")
      case True
      have "buf \<noteq> []" "val \<noteq> []" using Cons.prems True by auto
      have "parse_value_loop False False space buf (cf\<lparr>cs_rest := c # ?rest\<rparr>) =
          parse_value_loop False False (space + 1) buf (cf\<lparr>cs_rest := ?rest\<rparr>)"
        using True \<open>buf \<noteq> []\<close> by (subst parse_value_step(3) [OF next_plain]) (simp_all add: isspace_iff)
      then show ?thesis using plain Cons.prems \<open>buf \<noteq> []\<close> \<open>val \<noteq> []\<close> True
          Cons.IH [of "space + 1" buf] by (simp add: replicate_append_same [symmetric])
    next
      case False
      have "\<not> isspace c" using plain False \<open>c \<noteq> CR\<close> by (simp add: isspace_chars)
      then have "parse_value_loop False False space buf (cf\<lparr>cs_rest := c # ?rest\<rparr>) =
          parse_value_loop False False 0 (buf @ replicate space CHR '' '' @ [c]) (cf\<lparr>cs_rest := ?rest\<rparr>)"
        using plain \<open>c \<noteq> CR\<close> Cons.prems by (subst parse_value_step(5) [OF next_plain]) auto
      then show ?thesis
        using plain Cons.prems Cons.IH [of 0 "buf @ replicate space CHR '' '' @ [c]"] by (cases "val = []") simp_all
    qed
  qed
qed


lemma read_value:
  assumes "c_string val" and "CR \<notin> set val"
    and "quote = (if val \<noteq> [] \<and> hd val = CHR '' '' \<or> CHR '';'' \<in> set val \<or> CHR ''#'' \<in> set val \<or>
      val \<noteq> [] \<and> last val = CHR '' '' then [CHR 0x22] else [])"
  shows "parse_value (cf\<lparr>cs_rest := CHR '' '' # quote @ concat (map value_char val) @ quote @ NL # after\<rparr>) =
    (Some val, cf\<lparr>cs_rest := after, cs_linenr := cs_linenr cf + 1\<rparr>)"
proof -
  let ?rest = "quote @ concat (map value_char val) @ quote @ NL # after"
  have "parse_value_loop False False 0 [] (cf\<lparr>cs_rest := CHR '' '' # ?rest\<rparr>) =
      parse_value_loop False False 0 [] (cf\<lparr>cs_rest := ?rest\<rparr>)"
    by (subst parse_value_step(3) [OF next_plain]) (simp_all add: isspace_iff)
  also have "\<dots> = (Some val, cf\<lparr>cs_rest := after, cs_linenr := cs_linenr cf + 1\<rparr>)"
  proof (cases "quote = []")
    case True
    then have "(if val = [] then True else last val \<noteq> CHR '' '' \<and> hd val \<noteq> CHR '' '')" "CHR '';'' \<notin> set val" "CHR ''#'' \<notin> set val"
      using assms(3) by (auto split: if_splits)
    then show ?thesis using read_plain [where val = val and space = 0 and buf = "[]" and cf = cf and after = after] assms(2) True by (simp split: if_splits)
  next
    case False
    then have q: "quote = [CHR 0x22]" using assms(3) by (auto split: if_splits)
    have "parse_value_loop False False 0 [] (cf\<lparr>cs_rest := CHR 0x22 # concat (map value_char val) @ CHR 0x22 # NL # after\<rparr>) =
        parse_value_loop True False 0 [] (cf\<lparr>cs_rest := concat (map value_char val) @ CHR 0x22 # NL # after\<rparr>)"
      by (subst parse_value_step(5) [OF next_plain]) (simp_all add: isspace_iff)
    then show ?thesis using read_quoted [where val = val and buf = "[]" and cf = cf and after = after] assms(2) q by simp
  qed
  finally show ?thesis
    using assms(1) by (simp add: parse_value_def c_str_def c_string_def takeWhile_eq_all_conv) metis
qed

lemma keychar_next [simp]: "iskeychar c \<Longrightarrow> get_next_char (cf\<lparr>cs_rest := c # r\<rparr>) = (c, cf\<lparr>cs_rest := r\<rparr>)"
  using iskeychar_facts by (intro next_plain) metis+

lemma read_name:
  "\<forall>c \<in> set var. iskeychar c \<Longrightarrow> \<not> cs_eof cf \<Longrightarrow>
     name_loop name (cf\<lparr>cs_rest := var @ CHR '' '' # r\<rparr>) = (CHR '' '', name @ map tolower var, cf\<lparr>cs_rest := r\<rparr>)"
proof (induction var arbitrary: name)
  case Nil
  then show ?case by (simp add: name_loop.simps [of name] iskeychar_facts)
next
  case (Cons c var)
  have "name_loop name (cf\<lparr>cs_rest := c # var @ CHR '' '' # r\<rparr>) =
      name_loop (name @ [tolower c]) (cf\<lparr>cs_rest := var @ CHR '' '' # r\<rparr>)"
    using Cons.prems by (subst name_loop.simps) simp
  then show ?case using Cons by simp
qed

lemma read_subsection:
  "NL \<notin> set sub \<Longrightarrow>
     subsection_loop name (cf\<lparr>cs_rest := concat (map (\<lambda>c. if c = CHR 0x22 \<or> c = CHR 0x5C then [CHR 0x5C, c] else [c]) sub) @
       CHR 0x22 # r\<rparr>) = (Some (name @ sub), cf\<lparr>cs_rest := r\<rparr>)"
proof (induction sub arbitrary: name)
  case Nil
  then show ?case by (subst subsection_loop.simps) simp
next
  case (Cons c sub)
  let ?esc = "\<lambda>sub. concat (map (\<lambda>c. if c = CHR 0x22 \<or> c = CHR 0x5C then [CHR 0x5C, c] else [c]) sub) @ CHR 0x22 # r"
  have tail: "?esc sub \<noteq> []" "hd (?esc sub) \<noteq> NL" using Cons.prems by (cases sub; auto)+
  have next_c: "get_next_char (cf\<lparr>cs_rest := c # ?esc sub\<rparr>) = (c, cf\<lparr>cs_rest := ?esc sub\<rparr>)"
  proof (cases "c = CR")
    case True
    then show ?thesis using next_CR [OF tail] by simp
  next
    case False
    then show ?thesis using Cons.prems by (intro next_plain) auto
  qed
  have "subsection_loop name (cf\<lparr>cs_rest := ?esc (c # sub)\<rparr>) =
      subsection_loop (name @ [c]) (cf\<lparr>cs_rest := ?esc sub\<rparr>)"
  proof (cases "c = CHR 0x22 \<or> c = CHR 0x5C")
    case True
    then have "?esc (c # sub) = CHR 0x5C # c # ?esc sub" by auto
    then show ?thesis using True next_c Cons.prems by (subst subsection_loop.simps) auto
  next
    case False
    then have "?esc (c # sub) = c # ?esc sub" by auto
    then show ?thesis using False next_c Cons.prems by (subst subsection_loop.simps) auto
  qed
  then show ?case using Cons by simp
qed


lemma read_section_name:
  "\<forall>c \<in> set sec. iskeychar c \<Longrightarrow> \<not> cs_eof cf \<Longrightarrow>
     get_base_var name (cf\<lparr>cs_rest := sec @ r\<rparr>) = get_base_var (name @ map tolower sec) (cf\<lparr>cs_rest := r\<rparr>)"
proof (induction sec arbitrary: name)
  case (Cons c sec)
  have "\<not> isspace c" "c \<noteq> CHR '']''"
    using Cons.prems iskeychar_facts by (auto simp: isspace_chars iskeychar_def isalnum_iff ctype_iff)
  then have "get_base_var name (cf\<lparr>cs_rest := c # sec @ r\<rparr>) = get_base_var (name @ [tolower c]) (cf\<lparr>cs_rest := sec @ r\<rparr>)"
    using Cons.prems by (subst get_base_var.simps) simp
  then show ?case using Cons by simp
qed simp

lemma section_text:
  assumes "key_parts key sec sub var"
  shows "store_write_section (length (sec @ sub)) key =
    (if sub = [] then ''['' @ sec @ '']'' @ [NL]
     else ''['' @ sec @ '' '' @ [CHR 0x22] @
       concat (map (\<lambda>c. if c = CHR 0x22 \<or> c = CHR 0x5C then [CHR 0x5C, c] else [c]) (tl sub)) @ [CHR 0x22] @ '']'' @ [NL])"
proof -
  have name: "take (length (sec @ sub)) key = sec @ sub" and nodot: "\<forall>c \<in> set sec. c \<noteq> CHR ''.''"
    using assms iskeychar_facts by (auto simp: key_parts_def)
  show ?thesis
  proof (cases sub)
    case Nil
    then show ?thesis using name nodot by (auto simp: store_write_section_def)
  next
    case (Cons d s)
    then have "d = CHR ''.''" using assms by (simp add: key_parts_def)
    then show ?thesis unfolding store_write_section_def name Let_def using nodot Cons
      by (simp add: takeWhile_append2 dropWhile_append2)
  qed
qed

lemma read_section:
  assumes "key_parts key sec sub var" and "\<not> cs_eof cf"
  shows "get_base_var [] (cf\<lparr>cs_rest := tl (store_write_section (length (sec @ sub)) key) @ r\<rparr>) =
    (Some (map tolower sec @ sub), cf\<lparr>cs_rest := NL # r\<rparr>)"
proof -
  have keys: "\<forall>c \<in> set sec. iskeychar c" and nl: "NL \<notin> set sub" and dot: "sub \<noteq> [] \<longrightarrow> hd sub = CHR ''.''"
    using assms(1) by (simp_all add: key_parts_def)
  show ?thesis
  proof (cases sub)
    case Nil
    then have "get_base_var [] (cf\<lparr>cs_rest := tl (store_write_section (length (sec @ sub)) key) @ r\<rparr>) =
        get_base_var (map tolower sec) (cf\<lparr>cs_rest := CHR '']'' # NL # r\<rparr>)"
      using read_section_name [OF keys assms(2), of "[]" "CHR '']'' # NL # r"] section_text [OF assms(1)] by simp
    also have "\<dots> = (Some (map tolower sec), cf\<lparr>cs_rest := NL # r\<rparr>)"
      using assms(2) by (subst get_base_var.simps) simp
    finally show ?thesis using Nil by simp
  next
    case (Cons d s)
    then have d: "d = CHR ''.''" using dot by simp
    let ?esc = "concat (map (\<lambda>c. if c = CHR 0x22 \<or> c = CHR 0x5C then [CHR 0x5C, c] else [c]) s)"
    let ?q = "CHR 0x22 # ?esc @ CHR 0x22 # CHR '']'' # NL # r"
    have "get_base_var [] (cf\<lparr>cs_rest := tl (store_write_section (length (sec @ sub)) key) @ r\<rparr>) =
        get_base_var (map tolower sec) (cf\<lparr>cs_rest := CHR '' '' # ?q\<rparr>)"
      using read_section_name [OF keys assms(2), of "[]" "CHR '' '' # ?q"] section_text [OF assms(1)] Cons by simp
    also have "\<dots> = get_extended_base_var (map tolower sec) CHR '' '' (cf\<lparr>cs_rest := ?q\<rparr>)"
      using assms(2) by (subst get_base_var.simps) (simp add: isspace_iff)
    also have "spaces_loop CHR '' '' (cf\<lparr>cs_rest := ?q\<rparr>) =
        (Some CHR 0x22, cf\<lparr>cs_rest := ?esc @ CHR 0x22 # CHR '']'' # NL # r\<rparr>)"
      by (subst spaces_loop.simps) (simp add: isspace_iff)
    then have "get_extended_base_var (map tolower sec) CHR '' '' (cf\<lparr>cs_rest := ?q\<rparr>) =
        (Some (map tolower sec @ CHR ''.'' # s), cf\<lparr>cs_rest := NL # r\<rparr>)"
      using read_subsection [where sub = s and name = "map tolower sec @ ''.''" and cf = cf and r = "CHR '']'' # NL # r"] nl Cons
      by (simp add: get_extended_base_var_def)
    finally show ?thesis using Cons d by simp
  qed
qed

text \<open>Two characters of the file that \<open>git_parse_source\<close> passes over.\<close>

lemma source_skip_space:
  "isspace c \<Longrightarrow> c \<noteq> CR \<Longrightarrow> c \<noteq> NL \<Longrightarrow>
     source_loop fn d None comment baselen var (cf\<lparr>cs_rest := c # r\<rparr>) = source_loop fn d None comment baselen var (cf\<lparr>cs_rest := r\<rparr>)"
  by (subst source_loop.simps) simp

lemma source_skip_newline:
  "\<not> cs_eof cf \<Longrightarrow> source_loop fn d None comment baselen var (cf\<lparr>cs_rest := NL # r\<rparr>) =
     source_loop fn d None False baselen var (cf\<lparr>cs_rest := r, cs_linenr := cs_linenr cf + 1\<rparr>)"
  by (subst source_loop.simps) simp

lemma source_section:
  "get_base_var [] (cf\<lparr>cs_rest := r\<rparr>) = (Some name, cf') \<Longrightarrow> name \<noteq> [] \<Longrightarrow>
     source_loop fn d (Some utf8_bom) False baselen var (cf\<lparr>cs_rest := CHR ''['' # r\<rparr>) =
     source_loop fn d None False (length name + 1) (name @ ''.'') cf'"
  by (subst source_loop.simps) (simp add: isspace_iff)

text \<open>The callback that collects what it is given.\<close>

definition collect :: "(string \<times> string option) list config_fn" where
  "collect cf name val d = (0, d @ [(name, val)])"

lemma skip_to_equals: "skip_blanks CHR '' '' (cf\<lparr>cs_rest := CHR ''='' # r\<rparr>) = (CHR ''='', cf\<lparr>cs_rest := r\<rparr>)"
  by (subst skip_blanks.simps, simp, subst skip_blanks.simps, simp)

lemma read_pair:
  assumes "key_parts key sec sub var" and "c_string val" and "CR \<notin> set val" and "c_string key" and "\<not> cs_eof cf"
  shows "source_loop collect d None False (length base) base
      (cf\<lparr>cs_rest := store_write_pair (length (sec @ sub)) key val @ after\<rparr>) =
    source_loop collect (d @ [(c_str (base @ map tolower var), Some val)]) None False (length base) (base @ map tolower var)
      (cf\<lparr>cs_rest := after, cs_linenr := cs_linenr cf + 1\<rparr>)"
proof -
  let ?quote = "if val \<noteq> [] \<and> hd val = CHR '' '' \<or> CHR '';'' \<in> set val \<or> CHR ''#'' \<in> set val \<or>
    val \<noteq> [] \<and> last val = CHR '' '' then [CHR 0x22] else []"
  let ?text = "CHR '' '' # ?quote @ concat (map value_char val) @ ?quote @ NL # after"
  obtain v vs where var: "var = v # vs" and v: "isalpha v" "iskeychar v" and vs: "\<forall>c \<in> set vs. iskeychar c"
    using assms(1) by (cases var) (auto simp: key_parts_def)
  have line: "store_write_pair (length (sec @ sub)) key val @ after = TAB # v # vs @ CHR '' '' # CHR ''='' # ?text"
    using assms(1) var by (simp add: store_write_pair_def Let_def key_parts_def)
  have name: "name_loop (base @ [tolower v]) (cf\<lparr>cs_rest := vs @ CHR '' '' # CHR ''='' # ?text\<rparr>) =
      (CHR '' '', base @ map tolower var, cf\<lparr>cs_rest := CHR ''='' # ?text\<rparr>)"
    using read_name [OF vs assms(5)] var by simp
  have blank: "skip_blanks CHR '' '' (cf\<lparr>cs_rest := CHR ''='' # ?text\<rparr>) = (CHR ''='', cf\<lparr>cs_rest := ?text\<rparr>)"
    by (rule skip_to_equals)
  have "get_value collect d (base @ [tolower v]) (cf\<lparr>cs_rest := vs @ CHR '' '' # CHR ''='' # ?text\<rparr>) =
      (0, base @ map tolower var, cf\<lparr>cs_rest := after, cs_linenr := cs_linenr cf + 1\<rparr>,
       d @ [(c_str (base @ map tolower var), Some val)])"
    using read_value [OF assms(2,3) refl, where cf = cf and after = after]
    by (simp add: get_value_def name blank collect_def Let_def)
  moreover have "\<not> isspace v" "v \<noteq> CHR ''#''" "v \<noteq> CHR '';''" "v \<noteq> CHR ''[''" "v \<noteq> NL"
    using v(1) by (auto simp: isspace_iff isalpha_iff)
  ultimately have "source_loop collect d None False (length base) base (cf\<lparr>cs_rest := v # vs @ CHR '' '' # CHR ''='' # ?text\<rparr>) =
      source_loop collect (d @ [(c_str (base @ map tolower var), Some val)]) None False (length base) (base @ map tolower var)
        (cf\<lparr>cs_rest := after, cs_linenr := cs_linenr cf + 1\<rparr>)"
    using v by (subst source_loop.simps) simp
  then show ?thesis unfolding line by (subst source_skip_space) (simp_all add: isspace_iff)
qed

lemma write_read:
  assumes "git_config_parse_key key = Inr (store_key, baselen)" and "c_string key" and "c_string val" and "CR \<notin> set val"
  shows "git_parse_source collect [] \<lparr>cs_rest = store_write_section baselen key @ store_write_pair baselen key val,
      cs_linenr = n, cs_eof = False\<rparr> = Parsed [(store_key, Some val)]"
proof -
  obtain sec sub var where parts: "key_parts key sec sub var" and b: "baselen = length (sec @ sub)"
    and sk: "store_key = normal_key sec sub var"
    using assms(1) unfolding parse_key_iff by blast
  let ?cf = "\<lparr>cs_rest = [], cs_linenr = n, cs_eof = False\<rparr>" and ?base = "map tolower sec @ sub"
  let ?pair = "store_write_pair baselen key val"
  have "store_write_section baselen key = CHR ''['' # tl (store_write_section baselen key)"
    unfolding b section_text [OF parts] by simp
  then have eq: "store_write_section baselen key @ ?pair = CHR ''['' # tl (store_write_section baselen key) @ ?pair"
    by (metis append_Cons)
  have "git_parse_source collect [] \<lparr>cs_rest = store_write_section baselen key @ ?pair, cs_linenr = n, cs_eof = False\<rparr> =
      source_loop collect [] (Some utf8_bom) False 0 [] (?cf\<lparr>cs_rest := CHR ''['' # tl (store_write_section baselen key) @ ?pair\<rparr>)"
    by (subst eq) (simp add: git_parse_source_def)
  also have "\<dots> = source_loop collect [] None False (length (?base @ ''.'')) (?base @ ''.'') (?cf\<lparr>cs_rest := NL # ?pair\<rparr>)"
    unfolding b using read_section [OF parts, of ?cf] parts
    by (subst source_section) (auto simp: key_parts_def)
  also have "\<dots> = source_loop collect [] None False (length (?base @ ''.'')) (?base @ ''.'')
      (?cf\<lparr>cs_rest := ?pair, cs_linenr := n + 1\<rparr>)"
    by (subst source_skip_newline) simp_all
  also have "\<dots> = source_loop collect [(c_str ((?base @ ''.'') @ map tolower var), Some val)] None False (length (?base @ ''.''))
      ((?base @ ''.'') @ map tolower var) (?cf\<lparr>cs_rest := [], cs_linenr := n + 2\<rparr>)"
    using read_pair [OF parts assms(3,4,2), of "?cf\<lparr>cs_linenr := n + 1\<rparr>" "[]" "?base @ ''.''" "[]"] b by (simp add: add.commute)
  also have "\<dots> = Parsed [(c_str ((?base @ ''.'') @ map tolower var), Some val)]"
    by (subst source_loop.simps) (simp add: get_next_char_end)
  also have "c_str ((?base @ ''.'') @ map tolower var) = store_key"
  proof -
    have "NUL \<notin> set store_key"
      using parts assms(2) iskeychar_tolower iskeychar_facts(5)
      by (auto simp: sk normal_key_def key_parts_def c_string_def)
    then show ?thesis unfolding c_str_def sk normal_key_def
      by (subst takeWhile_eq_all_conv [THEN iffD2]) auto
  qed
  finally show ?thesis .
qed


text \<open>A carriage return at the end of a value, or between two other characters, is white space to the reader.\<close>

lemma written_CR_lost:
  "git_parse_source collect []
     \<lparr>cs_rest = store_write_section 4 ''core.x'' @ store_write_pair 4 ''core.x'' [CHR ''a'', CR],
      cs_linenr = 1, cs_eof = False\<rparr> = Parsed [(''core.x'', Some ''a'')]"
  by code_simp

lemma blob_byte_255_is_eof: "config_buf_fgetc [CHR ''a'', CHR 0xFF, CHR ''b''] 1 = (-1, 2)"
  by code_simp

section \<open>Properties\<close>

text \<open>
  A key of the documented form: a section name, a subsection from the first dot on (or none) and a variable name
  that starts with a letter.
\<close>

definition documented_key :: "string \<Rightarrow> string \<Rightarrow> string \<Rightarrow> string \<Rightarrow> bool" where
  "documented_key key sec sub var \<longleftrightarrow>
     key = sec @ sub @ ''.'' @ var \<and>
     sec \<noteq> [] \<and> (\<forall>c \<in> set sec. isalnum c \<or> c = CHR ''-'') \<and>
     (sub = [] \<or> hd sub = CHR ''.'') \<and> NL \<notin> set sub \<and>
     var \<noteq> [] \<and> isalpha (hd var) \<and> (\<forall>c \<in> set var. isalnum c \<or> c = CHR ''-'')"

lemma key_parts_documented: "peek key \<noteq> CHR ''.'' \<Longrightarrow> key_parts key sec sub var \<longleftrightarrow> documented_key key sec sub var"
  by (cases sub) (auto simp: key_parts_def documented_key_def iskeychar_def)

lemma last_dot_None: "last_dot key = None \<longleftrightarrow> CHR ''.'' \<notin> set key"
  by (simp add: last_dot_def)

text \<open>
  C35: of the keys that do not begin with a dot, \<open>git_config_parse_key\<close> accepts exactly those of the documented form
  (a section name of letters, digits and dashes, a subsection without line breaks or none, a variable name that starts with a letter);
  it returns the key with the section and the variable in lower case and the subsection as it was, and that key
  is its own normal form. It fails with -2 when there is no dot or nothing behind the last one, and with -1 in all other cases.
\<close>

theorem parse_key_spec:
  assumes "peek key \<noteq> CHR ''.''"
  shows "(git_config_parse_key key = Inr (store_key, baselen) \<longleftrightarrow>
     (\<exists>sec sub var. documented_key key sec sub var \<and> baselen = length (sec @ sub) \<and>
        store_key = map tolower sec @ sub @ ''.'' @ map tolower var)) \<and>
   (git_config_parse_key key = Inr (store_key, baselen) \<longrightarrow>
     git_config_parse_key store_key = Inr (store_key, baselen)) \<and>
   (git_config_parse_key key = Inl e \<longrightarrow>
     e = (if CHR ''.'' \<notin> set key \<or> last key = CHR ''.'' then -2 else -1))"
proof -
  have "e = (if CHR ''.'' \<notin> set key \<or> last key = CHR ''.'' then -2 else -1)" if "git_config_parse_key key = Inl e"
  proof (cases "last_dot key")
    case None
    with that show ?thesis by (simp add: git_config_parse_key_def last_dot_None)
  next
    case (Some b)
    then obtain var where var: "key = take b key @ CHR ''.'' # var" "CHR ''.'' \<notin> set var"
      "length (take b key) = b" "drop (b + 1) key = var" by (rule last_dot_split)
    have dot: "CHR ''.'' \<in> set key" using Some last_dot_None [of key] by auto
    have "b \<noteq> 0"
    proof
      assume "b = 0"
      then have "key = CHR ''.'' # var" using var(1) by simp
      then show False using assms by simp
    qed
    moreover have "last key = CHR ''.'' \<longleftrightarrow> var = []"
      using var(2) by (subst var(1)) (auto, metis last_in_set)
    ultimately show ?thesis using that Some dot var(4)
      by (auto simp: git_config_parse_key_def split: if_splits option.splits)
  qed
  then show ?thesis
    unfolding parse_key_iff key_parts_documented [OF assms] normal_key_def [symmetric]
    using parse_key_normal parse_key_iff key_parts_documented [OF assms] by blast
qed

lemma parse_key_spec_witness:
  "git_config_parse_key ''Remote.My.Url'' = Inr (''remote.My.url'', 9) \<and>
   git_config_parse_key ''remote.My.url'' = Inr (''remote.My.url'', 9)"
proof -
  have "git_config_parse_key ''Remote.My.Url'' = Inr (''remote.My.url'', 9)" by code_simp
  then show ?thesis using parse_key_spec [of "''Remote.My.Url''" "''remote.My.url''" 9] by simp
qed

text \<open>
  A key that begins with a dot has no section name, and should be refused with -2. The test only finds the ones with a single dot.
\<close>

lemma parse_key_without_section: "git_config_parse_key ''.a.b'' = Inr (''.a.b'', 2)"
  by code_simp

text \<open>C8: a section and a pair written to a new file are read back by the parser as
  that key, normalized, and that value, and nothing else, whatever the value contains except carriage
  returns; subsections may contain quotes, backslashes, brackets and carriage returns.\<close>

theorem config_write_read:
  assumes "git_config_parse_key key = Inr (store_key, baselen)" and "c_string key" and "c_string val" and "CR \<notin> set val"
  shows "git_parse_source collect [] \<lparr>cs_rest = store_write_section baselen key @ store_write_pair baselen key val,
      cs_linenr = n, cs_eof = False\<rparr> = Parsed [(store_key, Some val)]"
  using assms by (rule write_read)

lemma config_write_read_witness:
  "git_parse_source collect [] \<lparr>cs_rest = store_write_section 5 ''a.b]c.De'' @ store_write_pair 5 ''a.b]c.De'' '' #x '',
      cs_linenr = 1, cs_eof = False\<rparr> = Parsed [(''a.b]c.de'', Some '' #x '')]"
proof -
  have "git_config_parse_key ''a.b]c.De'' = Inr (''a.b]c.de'', 5)" by code_simp
  then show ?thesis by (rule config_write_read) (simp_all add: c_string_def)
qed

end
