(* ===== verification/Hashmap.thy ===== *)
theory Hashmap
  imports Compare
begin

text \<open>
  \<^verbatim>\<open>hashmap.c\<close>, \<^verbatim>\<open>hashmap.h\<close>: hash tables with chains that grow and shrink by a factor of four,
  and the pool of interned data built on them. A chain (the \<open>next\<close> pointers from a slot on) is
  the list of its entries; an entry carries its address, which \<open>entry_equals\<close> compares first.
\<close>

record 'a entry =
  he_ptr :: nat
  he_hash :: u32
  he_data :: 'a

record ('a, 'k) hashmap =
  hm_table :: "'a entry list list"
  hm_cmpfn :: "'a entry \<Rightarrow> 'a entry \<Rightarrow> 'k option \<Rightarrow> int"
  hm_size :: u32
  hm_tablesize :: u32
  hm_grow_at :: u32
  hm_shrink_at :: u32

section \<open>FNV hashes\<close>

definition fnv_step :: "u32 \<Rightarrow> u32 \<Rightarrow> u32" where
  "fnv_step hash c = (hash * 0x01000193) XOR c"

definition upcase :: "u32 \<Rightarrow> u32" where
  "upcase c = (if c \<ge> 97 \<and> c \<le> 122 then c - 32 else c)"

fun memhash_loop :: "byte list \<Rightarrow> u32 \<Rightarrow> u32" where
  "memhash_loop [] hash = hash"
| "memhash_loop (c # buf) hash = memhash_loop buf (fnv_step hash (ucast c))"

fun memihash_loop :: "byte list \<Rightarrow> u32 \<Rightarrow> u32" where
  "memihash_loop [] hash = hash"
| "memihash_loop (c # buf) hash = memihash_loop buf (fnv_step hash (upcase (ucast c)))"

definition memhash :: "byte list \<Rightarrow> u32" where
  "memhash buf = memhash_loop buf 0x811c9dc5"

definition memihash :: "byte list \<Rightarrow> u32" where
  "memihash buf = memihash_loop buf 0x811c9dc5"

fun strhash_loop :: "string \<Rightarrow> u32 \<Rightarrow> u32" where
  "strhash_loop [] hash = hash"
| "strhash_loop (c # str) hash = strhash_loop str (fnv_step hash (of_char c))"

fun strihash_loop :: "string \<Rightarrow> u32 \<Rightarrow> u32" where
  "strihash_loop [] hash = hash"
| "strihash_loop (c # str) hash = strihash_loop str (fnv_step hash (upcase (of_char c)))"

definition strhash :: "string \<Rightarrow> u32" where
  "strhash str = strhash_loop str 0x811c9dc5"

definition strihash :: "string \<Rightarrow> u32" where
  "strihash str = strihash_loop str 0x811c9dc5"

section \<open>Tables\<close>

abbreviation HASHMAP_INITIAL_SIZE :: u32 where
  "HASHMAP_INITIAL_SIZE \<equiv> 64"

abbreviation HASHMAP_RESIZE_BITS :: nat where
  "HASHMAP_RESIZE_BITS \<equiv> 2"

definition alloc_table :: "('a, 'k) hashmap \<Rightarrow> u32 \<Rightarrow> ('a, 'k) hashmap" where
  "alloc_table m newsize =
     (let grow_at = ucast ((ucast newsize :: u64) * 80 div 100) :: u32
      in m\<lparr>hm_tablesize := newsize,
             hm_table := replicate (unat newsize) [],
             hm_grow_at := grow_at,
             hm_shrink_at := (if newsize \<le> HASHMAP_INITIAL_SIZE then 0
                              else grow_at div (push_bit HASHMAP_RESIZE_BITS 1 + 1))\<rparr>)"

definition entry_equals :: "('a, 'k) hashmap \<Rightarrow> 'a entry \<Rightarrow> 'a entry \<Rightarrow> 'k option \<Rightarrow> bool" where
  "entry_equals m e1 e2 keydata \<longleftrightarrow>
     he_ptr e1 = he_ptr e2 \<or> (he_hash e1 = he_hash e2 \<and> hm_cmpfn m e1 e2 keydata = 0)"

definition bucket :: "('a, 'k) hashmap \<Rightarrow> 'a entry \<Rightarrow> nat" where
  "bucket m key = unat (he_hash key AND (hm_tablesize m - 1))"

definition push_entry :: "('a, 'k) hashmap \<Rightarrow> 'a entry \<Rightarrow> ('a, 'k) hashmap" where
  "push_entry m e =
     m\<lparr>hm_table := (hm_table m)[bucket m e := e # hm_table m ! bucket m e]\<rparr>"

fun rehash_chain :: "('a, 'k) hashmap \<Rightarrow> 'a entry list \<Rightarrow> ('a, 'k) hashmap" where
  "rehash_chain m [] = m"
| "rehash_chain m (e # next) = rehash_chain (push_entry m e) next"

fun rehash_table :: "('a, 'k) hashmap \<Rightarrow> 'a entry list list \<Rightarrow> ('a, 'k) hashmap" where
  "rehash_table m [] = m"
| "rehash_table m (chain # oldtable) = rehash_table (rehash_chain m chain) oldtable"

definition rehash :: "('a, 'k) hashmap \<Rightarrow> u32 \<Rightarrow> ('a, 'k) hashmap" where
  "rehash m newsize = rehash_table (alloc_table m newsize) (hm_table m)"

text \<open>
  The address of the link that leads to the match is modelled by the two parts of the chain: what
  stands before it, and the rest from the match on (empty when there is none).
\<close>

fun find_chain :: "('a, 'k) hashmap \<Rightarrow> 'a entry \<Rightarrow> 'k option \<Rightarrow> 'a entry list \<Rightarrow> 'a entry list \<times> 'a entry list" where
  "find_chain m key keydata [] = ([], [])"
| "find_chain m key keydata (e # next) =
     (if entry_equals m e key keydata then ([], e # next)
      else let (before, rest) = find_chain m key keydata next in (e # before, rest))"

definition find_entry_ptr :: "('a, 'k) hashmap \<Rightarrow> 'a entry \<Rightarrow> 'k option \<Rightarrow> 'a entry list \<times> 'a entry list" where
  "find_entry_ptr m key keydata = find_chain m key keydata (hm_table m ! bucket m key)"

definition always_equal :: "'a entry \<Rightarrow> 'a entry \<Rightarrow> 'k option \<Rightarrow> int" where
  "always_equal unused1 unused2 unused3 = 0"

text \<open>The loop of \<open>hashmap_init\<close>; a size that has become 0 never ends it.\<close>

partial_function (option) initial_loop :: "u64 \<Rightarrow> u32 \<Rightarrow> u32 option" where
  [code]: "initial_loop initial_size newsize =
     (if initial_size > ucast newsize then initial_loop initial_size (push_bit HASHMAP_RESIZE_BITS newsize)
      else Some newsize)"

definition hashmap_init ::
  "('a entry \<Rightarrow> 'a entry \<Rightarrow> 'k option \<Rightarrow> int) option \<Rightarrow> u64 \<Rightarrow> ('a, 'k) hashmap option" where
  "hashmap_init equals_function initial_size =
     (let initial_size = ucast (ucast (initial_size * 100 div 80) :: u32) :: u64
      in case initial_loop initial_size HASHMAP_INITIAL_SIZE of
           None \<Rightarrow> None
         | Some newsize \<Rightarrow>
             Some (alloc_table \<lparr>hm_table = [],
                                hm_cmpfn = (case equals_function of Some f \<Rightarrow> f | None \<Rightarrow> always_equal),
                                hm_size = 0, hm_tablesize = 0, hm_grow_at = 0, hm_shrink_at = 0\<rparr> newsize))"

definition hashmap_get :: "('a, 'k) hashmap \<Rightarrow> 'a entry \<Rightarrow> 'k option \<Rightarrow> 'a entry option" where
  "hashmap_get m key keydata =
     (case snd (find_entry_ptr m key keydata) of [] \<Rightarrow> None | e # _ \<Rightarrow> Some e)"

text \<open>The chain after \<open>entry\<close>, which is in the map.\<close>

definition hashmap_get_next :: "('a, 'k) hashmap \<Rightarrow> 'a entry \<Rightarrow> 'a entry option" where
  "hashmap_get_next m entry =
     (let e = tl (dropWhile (\<lambda>e. he_ptr e \<noteq> he_ptr entry) (hm_table m ! bucket m entry))
      in find (\<lambda>e. entry_equals m entry e None) e)"

definition hashmap_add :: "('a, 'k) hashmap \<Rightarrow> 'a entry \<Rightarrow> ('a, 'k) hashmap" where
  "hashmap_add m entry =
     (let m = push_entry m entry;
          m = m\<lparr>hm_size := hm_size m + 1\<rparr>
      in if hm_size m > hm_grow_at m
         then rehash m (push_bit HASHMAP_RESIZE_BITS (hm_tablesize m)) else m)"

definition hashmap_remove ::
  "('a, 'k) hashmap \<Rightarrow> 'a entry \<Rightarrow> 'k option \<Rightarrow> ('a, 'k) hashmap \<times> 'a entry option" where
  "hashmap_remove m key keydata =
     (case find_entry_ptr m key keydata of
        (before, []) \<Rightarrow> (m, None)
      | (before, old # next) \<Rightarrow>
          let m = m\<lparr>hm_table := (hm_table m)[bucket m key := before @ next],
                        hm_size := hm_size m - 1\<rparr>
          in (if hm_size m < hm_shrink_at m
              then rehash m (drop_bit HASHMAP_RESIZE_BITS (hm_tablesize m)) else m, Some old))"

definition hashmap_put :: "('a, 'k) hashmap \<Rightarrow> 'a entry \<Rightarrow> ('a, 'k) hashmap \<times> 'a entry option" where
  "hashmap_put m entry =
     (let (m, old) = hashmap_remove m entry None in (hashmap_add m entry, old))"

section \<open>Iteration\<close>

text \<open>\<open>hi_next\<close> is the rest of the chain from \<open>iter->next\<close> on.\<close>

record 'a hashmap_iter =
  hi_next :: "'a entry list"
  hi_tablepos :: nat

definition hashmap_iter_init :: "('a, 'k) hashmap \<Rightarrow> 'a hashmap_iter" where
  "hashmap_iter_init m = \<lparr>hi_next = [], hi_tablepos = 0\<rparr>"

function iter_loop :: "('a, 'k) hashmap \<Rightarrow> 'a entry list \<Rightarrow> nat \<Rightarrow> 'a entry option \<times> 'a hashmap_iter" where
  "iter_loop m current tablepos =
     (case current of
        e # next \<Rightarrow> (Some e, \<lparr>hi_next = next, hi_tablepos = tablepos\<rparr>)
      | [] \<Rightarrow> if tablepos \<ge> unat (hm_tablesize m) then (None, \<lparr>hi_next = [], hi_tablepos = tablepos\<rparr>)
              else iter_loop m (hm_table m ! tablepos) (tablepos + 1))"
  by pat_completeness auto
termination
  by (relation "measure (\<lambda>(m, _, tablepos). unat (hm_tablesize m) - tablepos)") auto

declare iter_loop.simps [simp del]

definition hashmap_iter_next :: "('a, 'k) hashmap \<Rightarrow> 'a hashmap_iter \<Rightarrow> 'a entry option \<times> 'a hashmap_iter" where
  "hashmap_iter_next m iter = iter_loop m (hi_next iter) (hi_tablepos iter)"


text \<open>\<open>while ((e = hashmap_iter_next(&iter)))\<close>, at most \<open>fuel\<close> times.\<close>

fun iter_all :: "nat \<Rightarrow> ('a, 'k) hashmap \<Rightarrow> 'a hashmap_iter \<Rightarrow> 'a entry list option" where
  "iter_all 0 m iter = None"
| "iter_all (Suc fuel) m iter =
     (case hashmap_iter_next m iter of
        (None, iter) \<Rightarrow> Some []
      | (Some e, iter) \<Rightarrow> map_option (Cons e) (iter_all fuel m iter))"

section \<open>The pool of interned data\<close>

text \<open>
  The address of an entry stands for the address of its data; addresses in the pool are positive, 0
  is the address of data outside of it. The keydata is the address and the bytes that are looked up.
\<close>

record pool_entry =
  pe_len :: nat
  pe_data :: "byte list"

definition pool_entry_cmp :: "pool_entry entry \<Rightarrow> pool_entry entry \<Rightarrow> (nat \<times> byte list) option \<Rightarrow> int" where
  "pool_entry_cmp e1 e2 keydata =
     (let (addr, bytes) = (case keydata of Some k \<Rightarrow> k | None \<Rightarrow> (0, []))
      in if he_ptr e1 \<noteq> addr \<and>
            (pe_len (he_data e1) \<noteq> pe_len (he_data e2) \<or>
             memcmp (pe_data (he_data e1)) (take (pe_len (he_data e1)) bytes) \<noteq> 0)
         then 1 else 0)"

text \<open>The static map is all zeros before the first call; \<open>ip_next\<close> is the next address \<open>xmallocz\<close> returns.\<close>

record intern_pool =
  ip_map :: "(pool_entry, nat \<times> byte list) hashmap option"
  ip_next :: nat

definition memintern :: "intern_pool \<Rightarrow> nat \<times> byte list \<Rightarrow> (intern_pool \<times> nat) option" where
  "memintern pool keydata =
     (case (case ip_map pool of Some m \<Rightarrow> Some m | None \<Rightarrow> hashmap_init (Some pool_entry_cmp) 0) of
        None \<Rightarrow> None
      | Some m \<Rightarrow>
          let bytes = snd keydata;
              key = \<lparr>he_ptr = 0, he_hash = memhash bytes, he_data = \<lparr>pe_len = length bytes, pe_data = []\<rparr>\<rparr>
          in case hashmap_get m key (Some keydata) of
               Some e \<Rightarrow> Some (pool\<lparr>ip_map := Some m\<rparr>, he_ptr e)
             | None \<Rightarrow>
                 let e = \<lparr>he_ptr = ip_next pool, he_hash = he_hash key,
                          he_data = \<lparr>pe_len = length bytes, pe_data = bytes\<rparr>\<rparr>
                 in Some (pool\<lparr>ip_map := Some (hashmap_add m e), ip_next := ip_next pool + 1\<rparr>, he_ptr e))"

fun intern_all :: "intern_pool \<Rightarrow> byte list list \<Rightarrow> (intern_pool \<times> nat list) option" where
  "intern_all pool [] = Some (pool, [])"
| "intern_all pool (d # ds) =
     (case memintern pool (0, d) of
        None \<Rightarrow> None
      | Some (pool, p) \<Rightarrow> map_option (\<lambda>(pool, ps). (pool, p # ps)) (intern_all pool ds))"

section \<open>The invariant\<close>

abbreviation entries :: "('a, 'k) hashmap \<Rightarrow> 'a entry list" where
  "entries m \<equiv> concat (hm_table m)"

text \<open>Every entry stands in the chain of its hash.\<close>

definition placed :: "('a, 'k) hashmap \<Rightarrow> bool" where
  "placed m \<longleftrightarrow> 0 < hm_tablesize m \<and> length (hm_table m) = unat (hm_tablesize m) \<and>
     (\<forall>b < length (hm_table m). \<forall>e \<in> set (hm_table m ! b). bucket m e = b)"

definition table_sizes :: "u32 list" where
  "table_sizes = map (\<lambda>k. push_bit (HASHMAP_RESIZE_BITS * k) HASHMAP_INITIAL_SIZE) [0..<13]"

definition hm_ok :: "('a, 'k) hashmap \<Rightarrow> bool" where
  "hm_ok m \<longleftrightarrow> placed m \<and> hm_tablesize m \<in> set table_sizes \<and> unat (hm_size m) = length (entries m) \<and>
     hm_size m \<le> hm_grow_at m \<and>
     hm_grow_at m = hm_grow_at (alloc_table m (hm_tablesize m)) \<and>
     hm_shrink_at m = hm_shrink_at (alloc_table m (hm_tablesize m))"

lemma table_sizes_eval:
  "table_sizes = [64, 256, 1024, 4096, 16384, 65536, 262144, 1048576, 4194304, 16777216, 67108864, 268435456, 1073741824]"
  by (simp add: table_sizes_def upt_rec)

lemma mset_concat_update:
  "b < length xss \<Longrightarrow> mset (concat (xss[b := xs])) + mset (xss ! b) = mset (concat xss) + mset xs"
proof (induction xss arbitrary: b)
  case (Cons ys yss)
  then show ?case by (cases b) (auto simp: algebra_simps)
qed simp

lemma bucket_less: "0 < hm_tablesize m \<Longrightarrow> bucket m e < unat (hm_tablesize m)"
proof -
  assume pos: "0 < hm_tablesize m"
  have "he_hash e AND (hm_tablesize m - 1) \<le> hm_tablesize m - 1" by (rule word_and_le1)
  moreover have "unat (hm_tablesize m - 1) = unat (hm_tablesize m) - 1"
    using pos by (intro unat_minus_one) auto
  then have "hm_tablesize m - 1 < hm_tablesize m" using pos by (simp add: word_less_nat_alt)
  ultimately show ?thesis
    unfolding bucket_def by (meson order_le_less_trans word_less_nat_alt)
qed

lemma placed_bucket: "placed m \<Longrightarrow> bucket m e < length (hm_table m)"
  by (simp add: placed_def bucket_less)

lemma bucket_push [simp]: "bucket (push_entry m e) = bucket m"
  by (simp add: fun_eq_iff bucket_def push_entry_def)

lemma push_entry_fields [simp]:
  "hm_tablesize (push_entry m e) = hm_tablesize m" "hm_cmpfn (push_entry m e) = hm_cmpfn m"
  "hm_size (push_entry m e) = hm_size m" "hm_grow_at (push_entry m e) = hm_grow_at m"
  "hm_shrink_at (push_entry m e) = hm_shrink_at m" "length (hm_table (push_entry m e)) = length (hm_table m)"
  by (simp_all add: push_entry_def)

lemma push_entry_placed:
  assumes "placed m"
  shows "placed (push_entry m e)" "mset (entries (push_entry m e)) = add_mset e (mset (entries m))"
proof -
  note b = placed_bucket [OF assms, of e]
  then show "placed (push_entry m e)"
    using assms by (auto simp: placed_def push_entry_def nth_list_update bucket_def)
  have "mset (entries (push_entry m e)) + mset (hm_table m ! bucket m e) =
      mset (entries m) + mset (e # hm_table m ! bucket m e)"
    unfolding push_entry_def by (simp add: mset_concat_update [OF b, simplified])
  then show "mset (entries (push_entry m e)) = add_mset e (mset (entries m))" by simp
qed

lemma rehash_chain_placed:
  "placed m \<Longrightarrow> placed (rehash_chain m chain) \<and>
     mset (entries (rehash_chain m chain)) = mset (entries m) + mset chain"
  by (induction m chain rule: rehash_chain.induct) (simp_all add: push_entry_placed)

lemma rehash_chain_fields [simp]:
  "hm_tablesize (rehash_chain m chain) = hm_tablesize m" "hm_cmpfn (rehash_chain m chain) = hm_cmpfn m"
  "hm_size (rehash_chain m chain) = hm_size m" "hm_grow_at (rehash_chain m chain) = hm_grow_at m"
  "hm_shrink_at (rehash_chain m chain) = hm_shrink_at m"
  by (induction m chain rule: rehash_chain.induct) simp_all

lemma rehash_table_placed:
  "placed m \<Longrightarrow> placed (rehash_table m old) \<and>
     mset (entries (rehash_table m old)) = mset (entries m) + mset (concat old)"
  by (induction m old rule: rehash_table.induct) (simp_all add: rehash_chain_placed algebra_simps)

lemma rehash_table_fields [simp]:
  "hm_tablesize (rehash_table m old) = hm_tablesize m" "hm_cmpfn (rehash_table m old) = hm_cmpfn m"
  "hm_size (rehash_table m old) = hm_size m" "hm_grow_at (rehash_table m old) = hm_grow_at m"
  "hm_shrink_at (rehash_table m old) = hm_shrink_at m"
  by (induction m old rule: rehash_table.induct) simp_all

lemma alloc_table_placed: "0 < newsize \<Longrightarrow> placed (alloc_table m newsize)" "entries (alloc_table m newsize) = []"
  by (simp_all add: placed_def alloc_table_def Let_def)

lemma alloc_table_fields [simp]:
  "hm_tablesize (alloc_table m newsize) = newsize" "hm_cmpfn (alloc_table m newsize) = hm_cmpfn m"
  "hm_size (alloc_table m newsize) = hm_size m"
  by (simp_all add: alloc_table_def Let_def)

lemma alloc_table_thresholds:
  "hm_grow_at (alloc_table m newsize) = ucast ((ucast newsize :: u64) * 80 div 100)"
  "hm_shrink_at (alloc_table m newsize) =
     (if newsize \<le> HASHMAP_INITIAL_SIZE then 0 else ucast ((ucast newsize :: u64) * 80 div 100) div 5)"
  by (simp_all add: alloc_table_def Let_def)

lemma rehash_placed:
  assumes "0 < newsize"
  shows "placed (rehash m newsize)" "mset (entries (rehash m newsize)) = mset (entries m)"
    "hm_tablesize (rehash m newsize) = newsize" "hm_cmpfn (rehash m newsize) = hm_cmpfn m"
    "hm_size (rehash m newsize) = hm_size m"
    "hm_grow_at (rehash m newsize) = hm_grow_at (alloc_table m newsize)"
    "hm_shrink_at (rehash m newsize) = hm_shrink_at (alloc_table m newsize)"
  using rehash_table_placed [OF alloc_table_placed(1) [OF assms], of m "hm_table m"]
  by (simp_all add: rehash_def alloc_table_placed(2))

text \<open>What the thresholds are at each size the table can have.\<close>

definition next_thresholds :: "u32 \<Rightarrow> bool" where
  "next_thresholds t \<longleftrightarrow>
     (let grow = \<lambda>t. ucast ((ucast t :: u64) * 80 div 100) :: u32
      in (t \<noteq> 1073741824 \<longrightarrow> push_bit 2 t \<in> set table_sizes \<and> grow t + 1 \<le> grow (push_bit 2 t) \<and> grow t < 858993459) \<and>
         (64 < t \<longrightarrow> drop_bit 2 t \<in> set table_sizes \<and> grow t div 5 \<le> grow (drop_bit 2 t)) \<and>
         grow t < grow t + 1)"

lemma thresholds_table: "list_all next_thresholds table_sizes"
  by code_simp

lemma threshold_facts:
  assumes "t \<in> set table_sizes"
  shows "next_thresholds t" "0 < t"
  using assms thresholds_table unfolding list_all_iff by (blast, auto simp: table_sizes_eval)


lemma grow_thresholds:
  "hm_ok m \<Longrightarrow> hm_grow_at m = ucast ((ucast (hm_tablesize m) :: u64) * 80 div 100)"
  "hm_ok m \<Longrightarrow> hm_shrink_at m = (if hm_tablesize m \<le> HASHMAP_INITIAL_SIZE then 0 else hm_grow_at m div 5)"
  by (simp_all add: hm_ok_def alloc_table_thresholds)

lemma rehash_ok:
  assumes "placed m" and "newsize \<in> set table_sizes" and "unat (hm_size m) = length (entries m)"
    and "hm_size m \<le> ucast ((ucast newsize :: u64) * 80 div 100)"
  shows "hm_ok (rehash m newsize)"
proof -
  note pos = threshold_facts(2) [OF assms(2)]
  have "length (entries (rehash m newsize)) = length (entries m)"
    using rehash_placed(2) [OF pos, of m] by (metis size_mset)
  then show ?thesis
    using rehash_placed [OF pos, of m] assms by (simp add: hm_ok_def alloc_table_thresholds)
qed

lemma word_less_Suc: "(a :: u32) < b \<Longrightarrow> unat (a + 1) = Suc (unat a)"
proof -
  assume "a < b"
  then have "unat a < unat b" by (simp add: word_less_nat_alt)
  then have "unat a + 1 < 4294967296" using unat_u32_less [of b] by linarith
  then show ?thesis by (simp add: unat_word_ariths(1))
qed

lemma hashmap_add_ok:
  assumes "hm_ok m" and "length (entries m) < 858993459"
  shows "hm_ok (hashmap_add m e)" "mset (entries (hashmap_add m e)) = add_mset e (mset (entries m))"
    "hm_cmpfn (hashmap_add m e) = hm_cmpfn m"
proof -
  let ?grow = "\<lambda>t. ucast ((ucast t :: u64) * 80 div 100) :: u32"
  let ?p = "(push_entry m e)\<lparr>hm_size := hm_size m + 1\<rparr>" and ?t = "hm_tablesize m"
  have placed: "placed m" and t: "?t \<in> set table_sizes" and n: "unat (hm_size m) = length (entries m)"
    and le: "hm_size m \<le> hm_grow_at m"
    using assms(1) unfolding hm_ok_def by blast+
  note facts = threshold_facts [OF t]
  have "hm_size m < 858993459" using n assms(2) by (simp add: word_less_nat_alt)
  then have Suc: "unat (hm_size m + 1) = Suc (length (entries m))" using n by (simp add: word_less_Suc)
  have pushed: "placed ?p" "mset (entries ?p) = add_mset e (mset (entries m))"
    using push_entry_placed [OF placed, of e] by (simp_all add: placed_def bucket_def)
  then have size: "unat (hm_size ?p) = length (entries ?p)"
    using Suc by (metis size_add_mset size_mset hashmap.select_convs(3) hashmap.update_convs(3) hashmap.surjective)
  have add: "hashmap_add m e = (if hm_size m + 1 > hm_grow_at m then rehash ?p (push_bit 2 ?t) else ?p)"
    by (simp add: hashmap_add_def Let_def)
  have "hm_ok (hashmap_add m e) \<and> mset (entries (hashmap_add m e)) = add_mset e (mset (entries m)) \<and>
    hm_cmpfn (hashmap_add m e) = hm_cmpfn m"
  proof (cases "hm_size m + 1 > hm_grow_at m")
    case False
    then show ?thesis
      using add pushed size assms(1) by (simp add: hm_ok_def alloc_table_thresholds)
  next
    case True
    have "?t \<noteq> 1073741824"
    proof
      assume "?t = 1073741824"
      then have "hm_grow_at m = 858993459" using grow_thresholds(1) [OF assms(1)] by simp
      with True Suc assms(2) show False by (simp add: word_less_nat_alt)
    qed
    with facts(1) have next_t: "push_bit 2 ?t \<in> set table_sizes"
      and room: "?grow ?t + 1 \<le> ?grow (push_bit 2 ?t)" "?grow ?t < ?grow ?t + 1"
      by (simp_all add: next_thresholds_def Let_def)
    have "unat (hm_size m) \<le> unat (?grow ?t)"
      using le grow_thresholds(1) [OF assms(1)] by (simp add: word_le_nat_alt)
    moreover have "unat (?grow ?t + 1) = Suc (unat (?grow ?t))" by (rule word_less_Suc [OF room(2)])
    ultimately have "unat (hm_size m + 1) \<le> unat (?grow (push_bit 2 ?t))"
      using Suc n room(1) unfolding word_le_nat_alt by linarith
    then have "hm_size ?p \<le> ?grow (push_bit 2 ?t)" by (simp add: word_le_nat_alt)
    from rehash_ok [OF pushed(1) next_t size this] rehash_placed [OF threshold_facts(2) [OF next_t], of ?p]
    show ?thesis using add True pushed by simp
  qed
  then show "hm_ok (hashmap_add m e)" "mset (entries (hashmap_add m e)) = add_mset e (mset (entries m))"
    "hm_cmpfn (hashmap_add m e) = hm_cmpfn m" by blast+
qed


lemma find_chain_split:
  "find_chain m key kd chain = (before, rest) \<Longrightarrow>
     chain = before @ rest \<and> (\<forall>e \<in> set before. \<not> entry_equals m e key kd) \<and>
     (rest \<noteq> [] \<longrightarrow> entry_equals m (hd rest) key kd)"
  by (induction chain arbitrary: before) (auto split: if_splits prod.splits)

lemma find_entry_ptr_split:
  assumes "placed m" and "find_entry_ptr m key kd = (before, rest)"
  shows "hm_table m ! bucket m key = before @ rest" "\<forall>e \<in> set before. \<not> entry_equals m e key kd"
    "rest \<noteq> [] \<Longrightarrow> entry_equals m (hd rest) key kd \<and> hd rest \<in> set (entries m)"
proof -
  note split = find_chain_split [OF assms(2) [unfolded find_entry_ptr_def]]
  then show "hm_table m ! bucket m key = before @ rest" "\<forall>e \<in> set before. \<not> entry_equals m e key kd" by blast+
  assume "rest \<noteq> []"
  moreover have "hm_table m ! bucket m key \<in> set (hm_table m)"
    using placed_bucket [OF assms(1)] by (rule nth_mem)
  ultimately show "entry_equals m (hd rest) key kd \<and> hd rest \<in> set (entries m)"
    using split by (metis UN_I append_is_Nil_conv hd_in_set in_set_conv_decomp set_append set_concat UnCI)
qed

lemma hashmap_remove_ok:
  assumes "hm_ok m" and "find_entry_ptr m key kd = (before, old # next)"
    and "hashmap_remove m key kd = (m', res)"
  shows "hm_ok m'" "mset (entries m) = add_mset old (mset (entries m'))" "hm_cmpfn m' = hm_cmpfn m" "res = Some old"
proof -
  let ?b = "bucket m key" and ?t = "hm_tablesize m"
  let ?p = "m\<lparr>hm_table := (hm_table m)[?b := before @ next], hm_size := hm_size m - 1\<rparr>"
  have placed: "placed m" and t: "?t \<in> set table_sizes" and n: "unat (hm_size m) = length (entries m)"
    and le: "hm_size m \<le> hm_grow_at m"
    using assms(1) unfolding hm_ok_def by blast+
  note b = placed_bucket [OF placed, of key] and chain = find_entry_ptr_split(1) [OF placed assms(2)]
  have m': "m' = (if hm_size ?p < hm_shrink_at ?p then rehash ?p (drop_bit 2 ?t) else ?p)" and "res = Some old"
    using assms(2,3) by (auto simp: hashmap_remove_def Let_def)
  have bucket_p: "bucket ?p = bucket m" by (simp add: fun_eq_iff bucket_def)
  have placed_p: "placed ?p"
    using placed chain b by (auto simp: placed_def nth_list_update bucket_p)
  have "mset (entries ?p) + mset (before @ old # next) = mset (entries m) + mset (before @ next)"
    using mset_concat_update [OF b, of "before @ next"] chain by simp
  then have bag: "mset (entries m) = add_mset old (mset (entries ?p))" by simp
  then have len: "length (entries m) = Suc (length (entries ?p))" by (metis size_add_mset size_mset)
  then have "hm_size m \<noteq> 0" using n by auto
  then have size: "unat (hm_size ?p) = length (entries ?p)" using n len by (simp add: unat_minus_one)
  then have le_p: "hm_size ?p \<le> hm_grow_at m" using n len le unfolding word_le_nat_alt by linarith
  have "hm_ok m' \<and> mset (entries m') = mset (entries ?p) \<and> hm_cmpfn m' = hm_cmpfn m"
  proof (cases "hm_size ?p < hm_shrink_at ?p")
    case False
    have "hm_ok ?p"
      using placed_p t size le_p assms(1) unfolding hm_ok_def by (simp add: alloc_table_thresholds)
    then show ?thesis unfolding m' if_not_P [OF False] by simp
  next
    case True
    then have "64 < ?t" using grow_thresholds(2) [OF assms(1)] by (simp add: not_le [symmetric] split: if_splits)
    with threshold_facts(1) [OF t] have next_t: "drop_bit 2 ?t \<in> set table_sizes"
      and room: "ucast ((ucast ?t :: u64) * 80 div 100) div 5 \<le> (ucast ((ucast (drop_bit 2 ?t) :: u64) * 80 div 100) :: u32)"
      by (simp_all add: next_thresholds_def Let_def)
    have "hm_size ?p < hm_grow_at m div 5"
      using True \<open>64 < ?t\<close> grow_thresholds(2) [OF assms(1)] by (auto split: if_splits)
    then have "hm_size ?p \<le> ucast ((ucast (drop_bit 2 ?t) :: u64) * 80 div 100)"
      using room grow_thresholds(1) [OF assms(1)] by simp
    from rehash_ok [OF placed_p next_t size this] rehash_placed [OF threshold_facts(2) [OF next_t], of ?p]
    show ?thesis unfolding m' if_P [OF True] by simp
  qed
  then show "hm_ok m'" "mset (entries m) = add_mset old (mset (entries m'))" "hm_cmpfn m' = hm_cmpfn m"
    using bag by simp_all
  show "res = Some old" by fact
qed

lemma hashmap_remove_none:
  "find_entry_ptr m key kd = (before, []) \<Longrightarrow> hashmap_remove m key kd = (m, None)"
  by (simp add: hashmap_remove_def)


section \<open>The contract of the comparison callback\<close>

text \<open>
  What a user of a hash map provides: \<open>keyof\<close> is the key of an entry that may be stored, \<open>asks\<close>
  the key a lookup with an entry and keydata asks for; equal keys have the same hash, and the callback
  (and the comparison of the addresses) compares the keys.
\<close>

locale entry_keys =
  fixes cmpfn :: "'a entry \<Rightarrow> 'a entry \<Rightarrow> 'k option \<Rightarrow> int"
    and good :: "'a entry \<Rightarrow> bool" and keyof :: "'a entry \<Rightarrow> 'c"
    and query :: "'a entry \<Rightarrow> 'k option \<Rightarrow> bool" and asks :: "'a entry \<Rightarrow> 'k option \<Rightarrow> 'c"
    and hash :: "'c \<Rightarrow> u32"
  assumes good_hash: "good e \<Longrightarrow> he_hash e = hash (keyof e)"
    and query_hash: "query q kd \<Longrightarrow> he_hash q = hash (asks q kd)"
    and compare_keys: "good e \<Longrightarrow> query q kd \<Longrightarrow> he_hash e = he_hash q \<Longrightarrow> cmpfn e q kd = 0 \<longleftrightarrow> keyof e = asks q kd"
    and same_address: "good e \<Longrightarrow> query q kd \<Longrightarrow> he_ptr e = he_ptr q \<Longrightarrow> keyof e = asks q kd"
begin

definition map_ok :: "('a, 'k) hashmap \<Rightarrow> bool" where
  "map_ok m \<longleftrightarrow> hm_ok m \<and> hm_cmpfn m = cmpfn \<and> (\<forall>e \<in> set (entries m). good e) \<and> distinct (map keyof (entries m))"

definition contents :: "('a, 'k) hashmap \<Rightarrow> 'c \<Rightarrow> 'a entry option" where
  "contents m = map_of (map (\<lambda>e. (keyof e, e)) (entries m))"

lemma contents_Some:
  "map_ok m \<Longrightarrow> contents m c = Some e \<longleftrightarrow> e \<in> set (entries m) \<and> keyof e = c"
  unfolding contents_def map_ok_def by (subst map_of_eq_Some_iff) (auto simp: comp_def)

lemma contents_None: "contents m c = None \<longleftrightarrow> c \<notin> keyof ` set (entries m)"
  unfolding contents_def map_of_eq_None_iff by force

lemma equals_iff:
  "map_ok m \<Longrightarrow> e \<in> set (entries m) \<Longrightarrow> query q kd \<Longrightarrow> entry_equals m e q kd \<longleftrightarrow> keyof e = asks q kd"
  unfolding map_ok_def entry_equals_def using good_hash query_hash compare_keys same_address by metis

lemma entry_chain:
  assumes "map_ok m" and "e \<in> set (entries m)" and "query q kd" and "keyof e = asks q kd"
  shows "e \<in> set (hm_table m ! bucket m q)"
proof -
  from assms(2) obtain b where b: "b < length (hm_table m)" "e \<in> set (hm_table m ! b)"
    by (metis UN_E in_set_conv_nth set_concat)
  then have "bucket m e = b" using assms(1) by (auto simp: map_ok_def hm_ok_def placed_def)
  moreover have "he_hash e = he_hash q"
    using assms good_hash query_hash unfolding map_ok_def by metis
  ultimately show ?thesis using b by (simp add: bucket_def)
qed

lemma find_entry_spec:
  assumes "map_ok m" and "query q kd" and "find_entry_ptr m q kd = (before, rest)"
  shows "contents m (asks q kd) = (case rest of [] \<Rightarrow> None | e # _ \<Rightarrow> Some e)"
proof (cases rest)
  case Nil
  have placed: "placed m" using assms(1) by (simp add: map_ok_def hm_ok_def)
  note found = find_entry_ptr_split [OF placed assms(3)]
  have "keyof e \<noteq> asks q kd" if "e \<in> set (entries m)" for e
  proof
    assume key: "keyof e = asks q kd"
    then have "e \<in> set before" using entry_chain [OF assms(1) that assms(2)] found(1) Nil by simp
    then show False using found(2) key equals_iff [OF assms(1) that assms(2)] by blast
  qed
  then have "asks q kd \<notin> keyof ` set (entries m)" by (metis imageE)
  then show ?thesis unfolding Nil contents_None [symmetric] by simp
next
  case (Cons e es)
  have placed: "placed m" using assms(1) by (simp add: map_ok_def hm_ok_def)
  have "entry_equals m e q kd" "e \<in> set (entries m)"
    using find_entry_ptr_split(3) [OF placed assms(3)] Cons by auto
  then show ?thesis using equals_iff [OF assms(1) _ assms(2)] Cons by (simp add: contents_Some assms(1))
qed

lemma get_spec: "map_ok m \<Longrightarrow> query q kd \<Longrightarrow> hashmap_get m q kd = contents m (asks q kd)"
  using find_entry_spec [of m q kd] unfolding hashmap_get_def by (metis prod.collapse)

lemma contents_eqI:
  "map_ok m \<Longrightarrow> map_ok m' \<Longrightarrow> set (entries m) = set (entries m') \<Longrightarrow> contents m = contents m'"
  using contents_Some by (metis (no_types, lifting) ext not_None_eq)

lemma remove_spec:
  assumes "map_ok m" and "query q kd" and "hashmap_remove m q kd = (m', old)"
  shows "map_ok m'" "old = contents m (asks q kd)" "contents m' = (contents m)(asks q kd := None)"
    "length (entries m') \<le> length (entries m)"
proof -
  obtain before rest where find: "find_entry_ptr m q kd = (before, rest)" by fastforce
  note found = find_entry_spec [OF assms(1,2) find]
  have "map_ok m' \<and> old = contents m (asks q kd) \<and> contents m' = (contents m)(asks q kd := None) \<and>
    length (entries m') \<le> length (entries m)"
  proof (cases rest)
    case Nil
    then have "m' = m" "old = None" "contents m (asks q kd) = None"
      using hashmap_remove_none [OF find [unfolded Nil]] assms(3) found Nil by auto
    then show ?thesis using assms(1) by (simp add: fun_upd_idem)
  next
    case (Cons e es)
    have "hm_ok m" using assms(1) by (simp add: map_ok_def)
    note removed = hashmap_remove_ok [OF this find [unfolded Cons] assms(3)]
    have "mset (map keyof (entries m)) = mset (map keyof (e # entries m'))" using removed(2) by simp
    then have dist: "distinct (map keyof (e # entries m'))"
      using assms(1) unfolding map_ok_def by (metis mset_eq_imp_distinct_iff)
    have sets: "set (entries m) = insert e (set (entries m'))" using removed(2) by (metis set_mset_add_mset_insert set_mset_mset)
    then have "\<forall>e \<in> set (entries m'). good e" using assms(1) unfolding map_ok_def by (metis insertI2)
    then have ok: "map_ok m'" using assms(1) removed dist unfolding map_ok_def by simp
    have key: "keyof e = asks q kd" using found Cons contents_Some [OF assms(1)] by auto
    have "contents m' c = ((contents m)(asks q kd := None)) c" for c
    proof (cases "c = asks q kd")
      case True
      then show ?thesis using dist key contents_None [of m' c] by auto
    next
      case False
      then have "contents m' c = Some x \<longleftrightarrow> contents m c = Some x" for x
        using sets key by (auto simp: contents_Some [OF ok] contents_Some [OF assms(1)])
      then have "contents m' c = contents m c" by (metis not_None_eq)
      with False show ?thesis by simp
    qed
    moreover have "length (entries m') \<le> length (entries m)" using removed(2) by (metis le_Suc_eq size_add_mset size_mset order_refl)
    ultimately show ?thesis using ok found Cons removed(4) by auto
  qed
  then show "map_ok m'" "old = contents m (asks q kd)" "contents m' = (contents m)(asks q kd := None)"
    "length (entries m') \<le> length (entries m)" by blast+
qed

lemma add_spec:
  assumes "map_ok m" and "good e" and "contents m (keyof e) = None" and "length (entries m) < 858993459"
  shows "map_ok (hashmap_add m e)" "contents (hashmap_add m e) = (contents m)(keyof e \<mapsto> e)"
    "length (entries (hashmap_add m e)) = Suc (length (entries m))"
proof -
  have "hm_ok m" using assms(1) by (simp add: map_ok_def)
  note added = hashmap_add_ok [OF this assms(4), of e]
  have sets: "set (entries (hashmap_add m e)) = insert e (set (entries m))"
    using added(2) by (metis set_mset_add_mset_insert set_mset_mset)
  have "mset (map keyof (entries (hashmap_add m e))) = mset (map keyof (e # entries m))" using added(2) by simp
  moreover have "distinct (map keyof (e # entries m))"
    using assms(1,3) by (simp add: contents_None map_ok_def image_iff)
  ultimately have "distinct (map keyof (entries (hashmap_add m e)))" by (metis mset_eq_imp_distinct_iff)
  then show ok: "map_ok (hashmap_add m e)" using assms(1,2) added sets by (simp add: map_ok_def)
  show "contents (hashmap_add m e) = (contents m)(keyof e \<mapsto> e)"
  proof
    fix c
    have "contents (hashmap_add m e) c = Some x \<longleftrightarrow> ((contents m)(keyof e \<mapsto> e)) c = Some x" for x
    proof -
      have "contents (hashmap_add m e) c = Some x \<longleftrightarrow> (x = e \<or> x \<in> set (entries m)) \<and> keyof x = c"
        by (simp only: contents_Some [OF ok] sets insert_iff)
      moreover have "((contents m)(keyof e \<mapsto> e)) c = Some x \<longleftrightarrow>
          (if c = keyof e then x = e else x \<in> set (entries m) \<and> keyof x = c)"
        by (auto simp: contents_Some [OF assms(1)] simp del: set_concat)
      moreover have "x \<in> set (entries m) \<Longrightarrow> keyof x \<noteq> keyof e"
        using assms(3) unfolding contents_None by (metis imageI)
      ultimately show ?thesis by (metis (full_types))
    qed
    then show "contents (hashmap_add m e) c = ((contents m)(keyof e \<mapsto> e)) c" by (metis not_None_eq)
  qed
  show "length (entries (hashmap_add m e)) = Suc (length (entries m))" using added(2) by (metis size_add_mset size_mset)
qed

lemma put_spec:
  assumes "map_ok m" and "good e" and "query e None" and "asks e None = keyof e"
    and "length (entries m) < 858993459" and "hashmap_put m e = (m', old)"
  shows "map_ok m'" "old = contents m (keyof e)" "contents m' = (contents m)(keyof e \<mapsto> e)"
    "length (entries m') \<le> Suc (length (entries m))"
proof -
  obtain m1 where rem: "hashmap_remove m e None = (m1, old)" and m': "m' = hashmap_add m1 e"
    using assms(6) by (auto simp: hashmap_put_def split: prod.splits)
  note r = remove_spec [OF assms(1,3) rem]
  have "length (entries m1) < 858993459" "contents m1 (keyof e) = None" using r(3,4) assms(4,5) by simp_all
  note a = add_spec [OF r(1) assms(2) this(2,1)]
  show "map_ok m'" "contents m' = (contents m)(keyof e \<mapsto> e)" "length (entries m') \<le> Suc (length (entries m))"
    using a r(3,4) m' assms(4) by simp_all
  show "old = contents m (keyof e)" using r(2) assms(4) by simp
qed

end


section \<open>Initialisation and iteration\<close>

lemma initial_loop_sizes:
  assumes "newsize \<in> set table_sizes" and "initial_size \<le> 1073741824"
  shows "\<exists>s \<in> set table_sizes. initial_loop initial_size newsize = Some s \<and> initial_size \<le> ucast s"
  using assms(1)
proof (induction "4294967296 - unat newsize" arbitrary: newsize rule: less_induct)
  case less
  show ?case
  proof (cases "initial_size > ucast newsize")
    case True
    with assms(2) have "newsize \<noteq> 1073741824" by auto
    with threshold_facts(1) [OF less.prems] have "push_bit 2 newsize \<in> set table_sizes"
      by (simp add: next_thresholds_def Let_def)
    moreover have "unat newsize < unat (push_bit 2 newsize)" "unat (push_bit 2 newsize) < 4294967296"
      using less.prems \<open>newsize \<noteq> 1073741824\<close> by (auto simp: table_sizes_eval)
    then have "4294967296 - unat (push_bit 2 newsize) < 4294967296 - unat newsize" by linarith
    ultimately show ?thesis
      using less.hyps [of "push_bit 2 newsize"] True
      by (subst initial_loop.simps) simp
  next
    case False
    then show ?thesis using less.prems by (subst initial_loop.simps) (auto simp: not_less)
  qed
qed

lemma initial_loop_zero: "initial_loop initial_size newsize = Some s \<Longrightarrow> initial_size > 0 \<longrightarrow> newsize \<noteq> 0"
  by (erule initial_loop.raw_induct [rotated]) (auto split: if_splits; blast)

lemma initial_loop_hangs: "initial_size > 1073741824 \<Longrightarrow> initial_loop initial_size 64 = None"
proof -
  assume big: "initial_size > 1073741824"
  have step: "initial_loop initial_size s = initial_loop initial_size (push_bit 2 s)" if "ucast s \<le> (1073741824 :: u64)" for s
    using big that by (subst initial_loop.simps) auto
  have "initial_loop initial_size 0 = None"
    using initial_loop_zero [of initial_size 0] big by (metis not_None_eq order_le_less_trans word_zero_le)
  moreover have zero: "push_bit 2 (1073741824 :: u32) = 0" by code_simp
  ultimately show ?thesis
    using step [of 64] step [of 256] step [of 1024] step [of 4096] 
      step [of 16384] step [of 65536] step [of 262144] step [of 1048576] step [of 4194304] 
      step [of 16777216] step [of 67108864] step [of 268435456] step [of 1073741824, unfolded zero] by simp
qed

lemma unat_ucast_u64: "unat (ucast (w :: u32) :: u64) = unat w"
proof -
  have "unat w < 18446744073709551616" using unat_u32_less [of w] by linarith
  then have "unat w < 2 ^ 64" by simp
  then show ?thesis by (simp add: unsigned_ucast_eq take_bit_nat_eq_self)
qed

lemma hashmap_init_ok:
  assumes "ucast (initial_size * 100 div 80) \<le> (1073741824 :: u32)"
  shows "\<exists>m. hashmap_init f initial_size = Some m \<and> hm_ok m \<and> entries m = [] \<and>
    hm_cmpfn m = (case f of Some f \<Rightarrow> f | None \<Rightarrow> always_equal)"
proof -
  let ?n = "ucast (ucast (initial_size * 100 div 80) :: u32) :: u64"
  have "?n \<le> 1073741824"
    using assms unat_ucast_u64 [of "ucast (initial_size * 100 div 80)"] by (simp only: word_le_nat_alt) simp
  then obtain s where s: "s \<in> set table_sizes" "initial_loop ?n 64 = Some s"
    using initial_loop_sizes [of 64 ?n] by (auto simp: table_sizes_eval)
  let ?base = "\<lparr>hm_table = [], hm_cmpfn = (case f of Some f \<Rightarrow> f | None \<Rightarrow> always_equal),
    hm_size = 0, hm_tablesize = 0, hm_grow_at = 0, hm_shrink_at = 0\<rparr>"
  note placed = alloc_table_placed(1) [OF threshold_facts(2) [OF s(1)], of ?base]
  have empty: "entries (alloc_table ?base s) = []" by (rule alloc_table_placed(2))
  then have "hm_ok (alloc_table ?base s)"
    using placed s(1) by (simp add: hm_ok_def alloc_table_thresholds)
  then show ?thesis using s(2) empty by (simp add: hashmap_init_def Let_def)
qed

lemma iter_loop_spec:
  assumes "placed m"
  shows "case iter_loop m current pos of
      (None, it) \<Rightarrow> current @ concat (drop pos (hm_table m)) = []
    | (Some e, it) \<Rightarrow> current @ concat (drop pos (hm_table m)) = e # hi_next it @ concat (drop (hi_tablepos it) (hm_table m))"
  using assms
proof (induction m current pos rule: iter_loop.induct)
  case (1 m current pos)
  show ?case
  proof (cases current)
    case (Cons e es)
    show ?thesis unfolding Cons by (subst iter_loop.simps) simp
  next
    case Nil
    show ?thesis
    proof (cases "pos \<ge> unat (hm_tablesize m)")
      case True
      then show ?thesis using 1(2) unfolding Nil by (subst iter_loop.simps) (simp add: placed_def)
    next
      case False
      then have "drop pos (hm_table m) = hm_table m ! pos # drop (pos + 1) (hm_table m)"
        using 1(2) by (simp add: placed_def Cons_nth_drop_Suc)
      moreover have "iter_loop m current pos = iter_loop m (hm_table m ! pos) (pos + 1)"
        using False unfolding Nil by (subst iter_loop.simps) simp
      ultimately show ?thesis using 1(1) [OF Nil False 1(2)]
        unfolding Nil by (simp split: prod.splits option.splits)
    qed
  qed
qed

lemma iter_all_spec:
  assumes "placed m"
  shows "length (hi_next it @ concat (drop (hi_tablepos it) (hm_table m))) < fuel \<Longrightarrow>
    iter_all fuel m it = Some (hi_next it @ concat (drop (hi_tablepos it) (hm_table m)))"
proof (induction fuel arbitrary: it)
  case (Suc fuel)
  obtain r it' where step: "hashmap_iter_next m it = (r, it')" by fastforce
  note spec = iter_loop_spec [OF assms, of "hi_next it" "hi_tablepos it",
      folded hashmap_iter_next_def, unfolded step prod.case]
  show ?case
  proof (cases r)
    case None
    then show ?thesis using step spec by simp
  next
    case (Some e)
    then have rest: "hi_next it @ concat (drop (hi_tablepos it) (hm_table m)) =
        e # hi_next it' @ concat (drop (hi_tablepos it') (hm_table m))" using spec by simp
    with Suc.prems have "length (hi_next it' @ concat (drop (hi_tablepos it') (hm_table m))) < fuel" by simp
    from Suc.IH [OF this] show ?thesis unfolding rest using step Some by simp
  qed
qed simp


section \<open>The pool\<close>

text \<open>Entries of the pool, and the lookups \<open>memintern\<close> makes for data outside of it.\<close>

definition pool_good :: "pool_entry entry \<Rightarrow> bool" where
  "pool_good e \<longleftrightarrow> 0 < he_ptr e \<and> he_hash e = memhash (pe_data (he_data e)) \<and>
     pe_len (he_data e) = length (pe_data (he_data e))"

definition pool_query :: "pool_entry entry \<Rightarrow> (nat \<times> byte list) option \<Rightarrow> bool" where
  "pool_query q kd \<longleftrightarrow> he_ptr q = 0 \<and>
     (case kd of None \<Rightarrow> False
      | Some (addr, bytes) \<Rightarrow> addr = 0 \<and> he_hash q = memhash bytes \<and> pe_len (he_data q) = length bytes)"

definition pool_asks :: "pool_entry entry \<Rightarrow> (nat \<times> byte list) option \<Rightarrow> byte list" where
  "pool_asks q kd = (case kd of None \<Rightarrow> [] | Some (addr, bytes) \<Rightarrow> bytes)"

interpretation pool: entry_keys pool_entry_cmp pool_good "\<lambda>e. pe_data (he_data e)" pool_query pool_asks memhash
proof (unfold_locales, goal_cases)
  case (1 e)
  then show ?case by (simp add: pool_good_def)
next
  case (2 q kd)
  then show ?case by (auto simp: pool_query_def pool_asks_def split: option.splits prod.splits)
next
  case (3 e q kd)
  then show ?case
    by (auto simp: pool_good_def pool_query_def pool_asks_def pool_entry_cmp_def split: option.splits prod.splits)
next
  case (4 e q kd)
  then show ?case by (simp add: pool_good_def pool_query_def)
qed

text \<open>The pool between two calls: distinct entries have distinct addresses, all below the next one.\<close>

definition pool_ok :: "intern_pool \<Rightarrow> bool" where
  "pool_ok p \<longleftrightarrow> 0 < ip_next p \<and>
     (case ip_map p of None \<Rightarrow> True
      | Some m \<Rightarrow> pool.map_ok m \<and> inj_on he_ptr (set (entries m)) \<and> (\<forall>e \<in> set (entries m). he_ptr e < ip_next p))"

definition pool_entries :: "intern_pool \<Rightarrow> pool_entry entry list" where
  "pool_entries p = (case ip_map p of None \<Rightarrow> [] | Some m \<Rightarrow> entries m)"

lemma fresh_pool:
  "\<exists>m. hashmap_init (Some pool_entry_cmp) 0 = Some m \<and> pool.map_ok m \<and> entries m = []"
proof -
  obtain m where m: "hashmap_init (Some pool_entry_cmp) 0 = Some m" "hm_ok m" "entries m = []"
      "hm_cmpfn m = pool_entry_cmp"
    using hashmap_init_ok [of 0 "Some pool_entry_cmp"] by auto
  then have "pool.map_ok m" unfolding pool.map_ok_def m(3) by simp
  with m show ?thesis by blast
qed

lemma memintern_step:
  assumes "pool_ok p" and "length (pool_entries p) < 858993459"
  shows "\<exists>p' ptr. memintern p (0, d) = Some (p', ptr) \<and> pool_ok p' \<and>
    length (pool_entries p') \<le> Suc (length (pool_entries p)) \<and> set (pool_entries p) \<subseteq> set (pool_entries p') \<and>
    (\<exists>e \<in> set (pool_entries p'). he_ptr e = ptr \<and> pe_data (he_data e) = d)"
proof -
  obtain m where m: "(case ip_map p of Some m \<Rightarrow> Some m | None \<Rightarrow> hashmap_init (Some pool_entry_cmp) 0) = Some m"
    and ok: "pool.map_ok m" and es: "entries m = pool_entries p"
    and ptrs: "inj_on he_ptr (set (entries m))" "\<forall>e \<in> set (entries m). he_ptr e < ip_next p" "0 < ip_next p"
  proof (cases "ip_map p")
    case None
    obtain m where "hashmap_init (Some pool_entry_cmp) 0 = Some m" "pool.map_ok m" "entries m = []"
      using fresh_pool by blast
    then show thesis using None assms(1)
      by (intro that [of m]) (simp_all add: pool_ok_def pool_entries_def del: set_concat concat_eq_Nil_conv)
  next
    case (Some m)
    then show thesis using assms(1) by (intro that [of m]) (auto simp: pool_ok_def pool_entries_def)
  qed
  let ?q = "\<lparr>he_ptr = 0, he_hash = memhash d, he_data = \<lparr>pe_len = length d, pe_data = []\<rparr>\<rparr>"
  let ?e = "\<lparr>he_ptr = ip_next p, he_hash = memhash d, he_data = \<lparr>pe_len = length d, pe_data = d\<rparr>\<rparr>"
  have "pool_query ?q (Some (0, d))" "pool_asks ?q (Some (0, d)) = d" by (simp_all add: pool_query_def pool_asks_def)
  then have get: "hashmap_get m ?q (Some (0, d)) = pool.contents m d" using pool.get_spec [OF ok] by metis
  show ?thesis
  proof (cases "pool.contents m d")
    case (Some e)
    then have "memintern p (0, d) = Some (p\<lparr>ip_map := Some m\<rparr>, he_ptr e)" using m get by (simp add: memintern_def)
    moreover have "e \<in> set (entries m)" "pe_data (he_data e) = d" using Some pool.contents_Some [OF ok] by auto
    ultimately show ?thesis
      using ok ptrs es by (auto simp: pool_ok_def pool_entries_def simp del: set_concat)
  next
    case None
    let ?m = "hashmap_add m ?e"
    have run: "memintern p (0, d) = Some (p\<lparr>ip_map := Some ?m, ip_next := ip_next p + 1\<rparr>, ip_next p)"
      using m get None by (simp add: memintern_def)
    have "pool_good ?e" using ptrs(3) by (simp add: pool_good_def)
    from pool.add_spec [OF ok this] None assms(2) es
    have add: "pool.map_ok ?m" "length (entries ?m) = Suc (length (entries m))" by simp_all
    have "hm_ok m" using ok by (simp add: pool.map_ok_def)
    from hashmap_add_ok(2) [OF this] assms(2) es
    have sets: "set (entries ?m) = insert ?e (set (entries m))" by (metis set_mset_add_mset_insert set_mset_mset)
    have "inj_on he_ptr (set (entries ?m))" unfolding sets using ptrs by (auto simp: inj_on_insert simp del: set_concat)
    moreover have "\<forall>e \<in> set (entries ?m). he_ptr e < ip_next p + 1" unfolding sets using ptrs(2) by (auto simp del: set_concat)
    ultimately show ?thesis
      using run add sets es by (auto simp: pool_ok_def pool_entries_def simp del: set_concat)
  qed
qed

lemma intern_all_spec:
  assumes "pool_ok p" and "length (pool_entries p) + length ds < 858993459"
  shows "\<exists>p' ps. intern_all p ds = Some (p', ps) \<and> pool_ok p' \<and> set (pool_entries p) \<subseteq> set (pool_entries p') \<and>
    length ps = length ds \<and>
    (\<forall>i < length ds. \<exists>e \<in> set (pool_entries p'). he_ptr e = ps ! i \<and> pe_data (he_data e) = ds ! i)"
  using assms
proof (induction ds arbitrary: p)
  case (Cons d ds)
  then have "length (pool_entries p) < 858993459" by simp
  from memintern_step [OF Cons.prems(1) this] obtain p1 ptr e
    where step: "memintern p (0, d) = Some (p1, ptr)" "pool_ok p1"
      "length (pool_entries p1) \<le> Suc (length (pool_entries p))" "set (pool_entries p) \<subseteq> set (pool_entries p1)"
      "e \<in> set (pool_entries p1)" "he_ptr e = ptr" "pe_data (he_data e) = d" by blast
  from step(3) Cons.prems(2) have "length (pool_entries p1) + length ds < 858993459" by simp
  from Cons.IH [OF step(2) this] obtain p' ps
    where rest: "intern_all p1 ds = Some (p', ps)" "pool_ok p'" "set (pool_entries p1) \<subseteq> set (pool_entries p')"
      "length ps = length ds"
      "\<forall>i < length ds. \<exists>e \<in> set (pool_entries p'). he_ptr e = ps ! i \<and> pe_data (he_data e) = ds ! i" by blast
  have "\<exists>e \<in> set (pool_entries p'). he_ptr e = (ptr # ps) ! i \<and> pe_data (he_data e) = (d # ds) ! i"
    if "i < length (d # ds)" for i
    using that rest(3,5) step(5-7) by (cases i) auto
  then show ?case using step rest by auto
qed simp

text \<open>
  C10. Let fewer than 858993459 buffers be interned, one after the other, into an empty pool, none of them lying
  inside the pool's own copies. Then all calls return, and two buffers get the same pointer exactly when they hold the same bytes: the
  pool keeps one copy of each, through all the growing of its table.
\<close>

theorem interned_once:
  assumes "length ds < 858993459"
  shows "\<exists>pool ps. intern_all \<lparr>ip_map = None, ip_next = 1\<rparr> ds = Some (pool, ps) \<and> length ps = length ds \<and>
    (\<forall>i < length ds. \<forall>j < length ds. ps ! i = ps ! j \<longleftrightarrow> ds ! i = ds ! j)"
proof -
  let ?p = "\<lparr>ip_map = None, ip_next = 1\<rparr>"
  have "pool_ok ?p" "pool_entries ?p = []" by (simp_all add: pool_ok_def pool_entries_def)
  with assms obtain p' ps where run: "intern_all ?p ds = Some (p', ps)" "pool_ok p'" "length ps = length ds"
    "\<forall>i < length ds. \<exists>e \<in> set (pool_entries p'). he_ptr e = ps ! i \<and> pe_data (he_data e) = ds ! i"
    using intern_all_spec [of ?p ds] by auto
  have "he_ptr e1 = he_ptr e2 \<longleftrightarrow> pe_data (he_data e1) = pe_data (he_data e2)"
    if es: "e1 \<in> set (pool_entries p')" "e2 \<in> set (pool_entries p')" for e1 e2
  proof -
    obtain m where m: "ip_map p' = Some m" using es by (cases "ip_map p'") (auto simp: pool_entries_def)
    then have S: "e1 \<in> set (entries m)" "e2 \<in> set (entries m)" using es by (simp_all add: pool_entries_def)
    have inj: "inj_on he_ptr (set (entries m))" "inj_on (\<lambda>e. pe_data (he_data e)) (set (entries m))"
      using run(2) m by (simp_all add: pool_ok_def pool.map_ok_def distinct_map del: set_concat)
    then show ?thesis using inj_on_eq_iff [OF inj(1) S] inj_on_eq_iff [OF inj(2) S] by simp
  qed
  with run(4) have "\<forall>i < length ds. \<forall>j < length ds. ps ! i = ps ! j \<longleftrightarrow> ds ! i = ds ! j" by metis
  with run show ?thesis by blast
qed

lemma interned_once_witness:
  "\<exists>pool ps. intern_all \<lparr>ip_map = None, ip_next = 1\<rparr> [[1, 2], [3], [1, 2]] = Some (pool, ps) \<and>
     ps ! 0 = ps ! 2 \<and> ps ! 0 \<noteq> ps ! 1"
proof -
  let ?ds = "[[1, 2], [3], [1, 2]] :: byte list list"
  have "length ?ds < 858993459" by simp
  from interned_once [OF this] obtain pool ps
    where run: "intern_all \<lparr>ip_map = None, ip_next = 1\<rparr> ?ds = Some (pool, ps)"
      and same: "\<And>i j. i < 3 \<Longrightarrow> j < 3 \<Longrightarrow> ps ! i = ps ! j \<longleftrightarrow> ?ds ! i = ?ds ! j" by auto
  with same [of 0 2] same [of 0 1] show ?thesis by auto
qed

text \<open>
  Bytes that already are in the pool are a different matter: the pointer of an interned string with a
  shorter length finds that string when its hash is the hash of the prefix, although the lengths differ.
\<close>

definition ascii :: "string \<Rightarrow> byte list" where
  "ascii s = map of_char s"

lemma intern_prefix_collision:
  "(case memintern \<lparr>ip_map = None, ip_next = 1\<rparr> (0, ascii ''psfwpvz'') of
      None \<Rightarrow> False
    | Some (pool, ptr) \<Rightarrow> map_option snd (memintern pool (ptr, ascii ''psfwpv'')) = Some ptr)"
  by code_simp

end
