(* ===== verification/Quote.thy ===== *)
theory Quote
  imports Ctype
begin

text \<open>
  \<^verbatim>\<open>quote.c\<close>: quoting for the shell and back, C-style quoting of path names and back, and quoting
  as string literals of Perl, Python and Tcl. A \<open>strbuf\<close> that a function appends to is the string
  it holds; the in-place writes of \<open>sq_dequote_step\<close> trail its reads, so they are a string of their
  own. \<open>die\<close> and NULL are \<open>None\<close>.
\<close>

definition strcspn :: "string \<Rightarrow> string \<Rightarrow> nat" where
  "strcspn s reject = length (takeWhile (\<lambda>c. c \<notin> set reject) s)"

abbreviation SQ :: char where "SQ \<equiv> CHR 0x27"
abbreviation DQ :: char where "DQ \<equiv> CHR 0x22"
abbreviation BS :: char where "BS \<equiv> CHR 0x5c"

section \<open>Shell quoting\<close>

definition need_bs_quote :: "char \<Rightarrow> bool" where
  "need_bs_quote c \<longleftrightarrow> c = SQ \<or> c = CHR ''!''"

text \<open>The inner loop of \<open>sq_quote_buf\<close>, over a run of characters that need a backslash.\<close>

fun sq_quote_run :: "string \<Rightarrow> string \<times> string" where
  "sq_quote_run [] = ([], [])"
| "sq_quote_run (c # src) =
     (if need_bs_quote c
      then let (dst, src) = sq_quote_run src in (SQ # BS # c # SQ # dst, src)
      else ([], c # src))"

lemma sq_quote_run_length: "length (snd (sq_quote_run s)) \<le> length s"
  by (induction s rule: sq_quote_run.induct) (auto split: prod.splits)

lemma sq_quote_run_step:
  "src \<noteq> [] \<Longrightarrow> length (snd (sq_quote_run (drop (strcspn src [SQ, CHR ''!'']) src))) < length src"
proof (cases src)
  case (Cons c cs)
  have "length (snd (sq_quote_run (drop (strcspn src [SQ, CHR ''!'']) src))) \<le> length cs"
  proof (cases "need_bs_quote c")
    case True
    then show ?thesis
      using Cons sq_quote_run_length [of cs] by (auto simp: strcspn_def need_bs_quote_def split: prod.splits)
  next
    case False
    then have "strcspn src [SQ, CHR ''!''] = Suc (strcspn cs [SQ, CHR ''!''])"
      using Cons by (simp add: strcspn_def need_bs_quote_def)
    then show ?thesis
      using Cons sq_quote_run_length [of "drop (strcspn cs [SQ, CHR ''!'']) cs"] by simp
  qed
  with Cons show ?thesis by simp
qed simp

function sq_quote_loop :: "string \<Rightarrow> string" where
  "sq_quote_loop src =
     (if src = [] then []
      else let len = strcspn src [SQ, CHR ''!''];
               (dst, src') = sq_quote_run (drop len src)
           in take len src @ dst @ sq_quote_loop src')"
  by pat_completeness auto
termination
proof (relation "measure length", goal_cases)
  case (2 src len x dst src')
  then show ?case using sq_quote_run_step [of src] by (metis in_measure snd_conv)
qed simp

declare sq_quote_loop.simps [simp del]

definition sq_quote_buf :: "string \<Rightarrow> string \<Rightarrow> string" where
  "sq_quote_buf dst src = dst @ [SQ] @ sq_quote_loop src @ [SQ]"

fun sq_quote_argv :: "string \<Rightarrow> string list \<Rightarrow> nat \<Rightarrow> string option" where
  "sq_quote_argv dst [] maxlen = Some dst"
| "sq_quote_argv dst (arg # argv) maxlen =
     (let dst = sq_quote_buf (dst @ '' '') arg in
      if maxlen \<noteq> 0 \<and> maxlen < length dst then None else sq_quote_argv dst argv maxlen)"

text \<open>
  \<open>sq_dequote_step\<close>: \<open>has_next\<close> says that the caller passed a place for the rest. The result is
  the dequoted string with the rest, whose \<open>None\<close> is the end of the string. \<open>after_quote\<close> is what
  follows the last test of the switch: \<open>src\<close> stands behind the closing quote, or behind what was
  read of a backslash sequence that did not match.
\<close>

definition after_quote :: "bool \<Rightarrow> string \<Rightarrow> string \<Rightarrow> (string \<times> string option) option" where
  "after_quote has_next src dst =
     (if \<not> has_next \<or> \<not> isspace (peek src) then None
      else Some (dst, Some (dropWhile isspace (tl src))))"

fun dequote_loop :: "bool \<Rightarrow> string \<Rightarrow> string \<Rightarrow> (string \<times> string option) option" where
  "dequote_loop has_next [] dst = None"
| "dequote_loop has_next (c # src) dst =
     (if c \<noteq> SQ then dequote_loop has_next src (dst @ [c])
      else case src of
        [] \<Rightarrow> Some (dst, None)
      | b # src1 \<Rightarrow>
          if b \<noteq> BS then after_quote has_next src dst
          else case src1 of
            [] \<Rightarrow> after_quote has_next src1 dst
          | c # src2 \<Rightarrow>
              if \<not> need_bs_quote c then after_quote has_next src1 dst
              else case src2 of
                [] \<Rightarrow> after_quote has_next src2 dst
              | q # src3 \<Rightarrow>
                  if q = SQ then dequote_loop has_next src3 (dst @ [c])
                  else after_quote has_next src2 dst)"

definition sq_dequote_step :: "bool \<Rightarrow> string \<Rightarrow> (string \<times> string option) option" where
  "sq_dequote_step has_next arg = (if peek arg \<noteq> SQ then None else dequote_loop has_next (tl arg) [])"

definition sq_dequote :: "string \<Rightarrow> string option" where
  "sq_dequote arg = map_option fst (sq_dequote_step False arg)"

text \<open>
  A rest that \<open>sq_dequote_step\<close> hands out is shorter than what it was given, so the loop over the
  arguments ends. On an error (\<open>-1\<close>) the arguments read before it stay in the array.
\<close>

lemma after_quote_shorter:
  "after_quote has_next src dst = Some (d, Some next) \<Longrightarrow> length next \<le> length src"
  by (auto simp: after_quote_def split: if_splits intro: order_trans [OF length_dropWhile_le])

lemma dequote_loop_shorter:
  "dequote_loop has_next src dst = Some (d, Some next) \<Longrightarrow> length next < length src"
proof (induction has_next src dst rule: dequote_loop.induct)
  case (2 has_next c src dst)
  then show ?case
    by (fastforce split: if_splits list.splits dest: after_quote_shorter)
qed simp

lemma sq_dequote_step_shorter:
  "sq_dequote_step has_next arg = Some (d, Some next) \<Longrightarrow> length next < length arg"
  by (cases arg) (auto simp: sq_dequote_step_def split: if_splits dest: dequote_loop_shorter)

function dequote_args :: "string \<Rightarrow> string list \<Rightarrow> int \<times> string list" where
  "dequote_args next argv =
     (case sq_dequote_step True next of
        None \<Rightarrow> (-1, argv)
      | Some (dequoted, None) \<Rightarrow> (0, argv @ [dequoted])
      | Some (dequoted, Some next) \<Rightarrow> dequote_args next (argv @ [dequoted]))"
  by pat_completeness auto
termination
  by (relation "measure (\<lambda>(next, _). length next)") (auto dest: sq_dequote_step_shorter)

declare dequote_args.simps [simp del]

definition sq_dequote_to_argv :: "string \<Rightarrow> string list \<Rightarrow> int \<times> string list" where
  "sq_dequote_to_argv arg argv = (if arg = [] then (0, argv) else dequote_args arg argv)"

section \<open>C-style quoting\<close>

definition sq_lookup :: "int list" where
  "sq_lookup =
     [1, 1, 1, 1, 1, 1, 1, 97,
      98, 116, 110, 118, 102, 114, 1, 1] @
     replicate 16 1 @
     [-1, -1, 34, -1, -1, -1, -1, -1] @
     replicate 48 (-1) @
     [-1, -1, -1, -1, 92, -1, -1, -1] @
     replicate 16 (-1) @ replicate 8 (-1) @
     [-1, -1, -1, -1, -1, -1, -1, 1] @
     replicate 128 0"

abbreviation lookup_char :: "char \<Rightarrow> int" where
  "lookup_char c \<equiv> sq_lookup ! nat (char_code c)"

text \<open>\<open>fully\<close> is the global \<open>quote_path_fully\<close>.\<close>

definition sq_must_quote :: "int \<Rightarrow> char \<Rightarrow> bool" where
  "sq_must_quote fully c \<longleftrightarrow> lookup_char c + fully > 0"

definition next_quote_pos :: "int \<Rightarrow> string \<Rightarrow> int \<Rightarrow> nat" where
  "next_quote_pos fully s maxlen =
     length (takeWhile (\<lambda>c. \<not> sq_must_quote fully c) (if maxlen < 0 then s else take (nat maxlen) s))"

definition octal_digit :: "int \<Rightarrow> char" where
  "octal_digit n = char_of (n mod 8 + 48)"

text \<open>What stands behind the backslash: the letter of the table, or three octal digits.\<close>

definition escape_char :: "char \<Rightarrow> string" where
  "escape_char c =
     (let ch = char_code c in
      if lookup_char c \<ge> 32 then [char_of (lookup_char c)]
      else [octal_digit (ch div 64 mod 4), octal_digit (ch div 8), octal_digit ch])"

text \<open>
  The loop; \<open>first\<close> is \<open>p == name\<close>. The result is what was emitted, without the closing quote,
  and whether \<open>p\<close> is still \<open>name\<close>.
\<close>

function quote_loop :: "int \<Rightarrow> bool \<Rightarrow> bool \<Rightarrow> string \<Rightarrow> int \<Rightarrow> string \<times> bool" where
  "quote_loop fully no_dq first p maxlen =
     (let len = next_quote_pos fully p maxlen in
      if int len = maxlen \<or> (maxlen < 0 \<and> peek (drop len p) = NUL) then (take len p, first)
      else
        let p' = drop len p;
            (out, _) = quote_loop fully no_dq False (tl p')
                         (if maxlen \<ge> 0 then maxlen - (int len + 1) else maxlen)
        in ((if \<not> no_dq \<and> first then [DQ] else []) @ take len p @ [BS] @ escape_char (peek p') @ out, False))"
  by pat_completeness auto
termination
proof (relation "measure (\<lambda>(_, _, _, p, maxlen). length p + nat maxlen)", goal_cases)
  case (2 fully no_dq first p maxlen len p')
  have "int len \<le> maxlen" if "0 \<le> maxlen"
    using that 2(1) length_takeWhile_le [of "\<lambda>c. \<not> sq_must_quote fully c" "take (nat maxlen) p"]
    by (simp add: next_quote_pos_def le_nat_iff)
  moreover have "length (tl p') < length p" if "maxlen < 0"
    using that 2 by (cases "drop len p") (auto simp: less_eq_Suc_le dest: arg_cong [of _ _ length])
  ultimately show ?case using 2 by (cases "maxlen < 0") auto
qed simp

declare quote_loop.simps [simp del]

text \<open>The count that is returned, and what is appended.\<close>

definition quote_c_style_counted :: "int \<Rightarrow> string \<Rightarrow> int \<Rightarrow> bool \<Rightarrow> nat \<times> string" where
  "quote_c_style_counted fully name maxlen no_dq =
     (let (out, untouched) = quote_loop fully no_dq True name maxlen in
      if untouched then (0, out)
      else let out = out @ (if no_dq then [] else [DQ]) in (length out, out))"

definition quote_c_style :: "int \<Rightarrow> string \<Rightarrow> bool \<Rightarrow> nat \<times> string" where
  "quote_c_style fully name no_dq = quote_c_style_counted fully name (-1) no_dq"

definition quote_two_c_style :: "int \<Rightarrow> string \<Rightarrow> string \<Rightarrow> string \<Rightarrow> bool \<Rightarrow> string" where
  "quote_two_c_style fully sb prefix path nodq =
     (if fst (quote_c_style fully prefix False) \<noteq> 0 \<or> fst (quote_c_style fully path False) \<noteq> 0 then
        sb @ (if nodq then [] else [DQ]) @ snd (quote_c_style fully prefix True) @
          snd (quote_c_style fully path True) @ (if nodq then [] else [DQ])
      else sb @ prefix @ path)"

definition write_name_quoted :: "int \<Rightarrow> string \<Rightarrow> char \<Rightarrow> string" where
  "write_name_quoted fully name terminator =
     (if terminator \<noteq> NUL then snd (quote_c_style fully name False) else name) @ [terminator]"

text \<open>
  The character behind the backslash with what follows it: a letter, a verbatim backslash or double
  quote, or three octal digits of which the first is at most 3.
\<close>

definition unescape_letter :: "char \<Rightarrow> char option" where
  "unescape_letter ch =
     (if ch = CHR ''a'' then Some (CHR 0x07)
      else if ch = CHR ''b'' then Some (CHR 0x08)
      else if ch = CHR ''f'' then Some (CHR 0x0c)
      else if ch = CHR ''n'' then Some (CHR 0x0a)
      else if ch = CHR ''r'' then Some (CHR 0x0d)
      else if ch = CHR ''t'' then Some (CHR 0x09)
      else if ch = CHR ''v'' then Some (CHR 0x0b)
      else if ch = BS \<or> ch = DQ then Some ch
      else None)"

abbreviation octal :: "char \<Rightarrow> bool" where
  "octal ch \<equiv> 48 \<le> char_code ch \<and> char_code ch \<le> 55"

definition unescape :: "string \<Rightarrow> (char \<times> string) option" where
  "unescape quoted =
     (case quoted of
        [] \<Rightarrow> None
      | ch # q \<Rightarrow>
          (case unescape_letter ch of
             Some c \<Rightarrow> Some (c, q)
           | None \<Rightarrow>
               if 48 \<le> char_code ch \<and> char_code ch \<le> 51 then
                 (case q of
                    ch1 # ch2 # q \<Rightarrow>
                      if octal ch1 \<and> octal ch2
                      then Some (char_of ((char_code ch - 48) * 64 + (char_code ch1 - 48) * 8 + (char_code ch2 - 48)), q)
                      else None
                  | _ \<Rightarrow> None)
               else None))"

lemma unescape_shorter: "unescape quoted = Some (ch, q) \<Longrightarrow> length q < length quoted"
  by (auto simp: unescape_def split: list.splits option.splits if_splits)

function unquote_loop :: "string \<Rightarrow> string \<Rightarrow> (string \<times> string) option" where
  "unquote_loop sb quoted =
     (let len = strcspn quoted [DQ, BS] in
      case drop len quoted of
        [] \<Rightarrow> None
      | c # q \<Rightarrow>
          if c = DQ then Some (sb @ take len quoted, q)
          else (case unescape q of
                  None \<Rightarrow> None
                | Some (ch, q) \<Rightarrow> unquote_loop (sb @ take len quoted @ [ch]) q))"
  by pat_completeness auto
termination
proof (relation "measure (length \<circ> snd)", goal_cases)
  case (2 sb quoted len c q r ch q')
  have "length q' < length q" using unescape_shorter 2 by auto
  moreover have "length (c # q) \<le> length quoted" using arg_cong [OF 2(2), of length] by simp
  ultimately show ?case by simp
qed simp

declare unquote_loop.simps [simp del]

text \<open>The status, the buffer (untouched on an error), and the place behind the closing quote.\<close>

definition unquote_c_style :: "string \<Rightarrow> string \<Rightarrow> int \<times> string \<times> string option" where
  "unquote_c_style sb quoted =
     (if peek quoted \<noteq> DQ then (-1, sb, None)
      else case unquote_loop sb (tl quoted) of
        None \<Rightarrow> (-1, sb, None)
      | Some (sb, endp) \<Rightarrow> (0, sb, Some endp))"

section \<open>Other languages\<close>

definition perl_quote_buf :: "string \<Rightarrow> string \<Rightarrow> string" where
  "perl_quote_buf sb src =
     sb @ [SQ] @ concat (map (\<lambda>c. if c = SQ \<or> c = BS then [BS, c] else [c]) src) @ [SQ]"

definition python_quote_buf :: "string \<Rightarrow> string \<Rightarrow> string" where
  "python_quote_buf sb src =
     sb @ [SQ] @
     concat (map (\<lambda>c. if c = CHR 0x0a then [BS, CHR ''n'']
                      else if c = SQ \<or> c = BS then [BS, c] else [c]) src) @ [SQ]"

definition tcl_quote_buf :: "string \<Rightarrow> string \<Rightarrow> string" where
  "tcl_quote_buf sb src =
     sb @ [DQ] @
     concat (map (\<lambda>c. if c \<in> {CHR ''['', CHR '']'', CHR ''{'', CHR ''}'', CHR ''$'', BS, DQ} then [BS, c]
                      else if c = CHR 0x0c then [BS, CHR ''f'']
                      else if c = CHR 0x0d then [BS, CHR ''r'']
                      else if c = CHR 0x0a then [BS, CHR ''n'']
                      else if c = CHR 0x09 then [BS, CHR ''t'']
                      else if c = CHR 0x0b then [BS, CHR ''v''] else [c]) src) @ [DQ]"

section \<open>The shell quoting is undone\<close>

definition sq_esc :: "char \<Rightarrow> string" where
  "sq_esc c = (if need_bs_quote c then [SQ, BS, c, SQ] else [c])"

lemma sq_quote_run_spec:
  "sq_quote_run s = (dst, rest) \<Longrightarrow> \<exists>run. s = run @ rest \<and> dst = concat (map sq_esc run)"
proof (induction s arbitrary: dst rest)
  case (Cons c s)
  then show ?case
    by (auto simp: sq_esc_def split: if_splits prod.splits)
qed simp

lemma sq_esc_plain: "set s \<inter> {SQ, CHR ''!''} = {} \<Longrightarrow> concat (map sq_esc s) = s"
  by (induction s) (auto simp: sq_esc_def need_bs_quote_def)

lemma take_strcspn: "set (take (strcspn s r) s) \<inter> set r = {}"
  unfolding strcspn_def by (auto simp flip: takeWhile_eq_take dest: set_takeWhileD)

lemma sq_quote_loop_spec: "sq_quote_loop s = concat (map sq_esc s)"
proof (induction s rule: sq_quote_loop.induct)
  case (1 src)
  let ?len = "strcspn src [SQ, CHR ''!'']"
  obtain dst src' where run: "sq_quote_run (drop ?len src) = (dst, src')" by fastforce
  from sq_quote_run_spec [OF run] obtain r where r: "drop ?len src = r @ src'" "dst = concat (map sq_esc r)"
    by blast
  have "src = take ?len src @ r @ src'" using r(1) by (metis append_take_drop_id)
  then have "concat (map sq_esc src) = concat (map sq_esc (take ?len src @ r @ src'))" by (rule arg_cong)
  also have "\<dots> = take ?len src @ dst @ concat (map sq_esc src')"
    using r(2) sq_esc_plain [of "take ?len src"] take_strcspn [of src "[SQ, CHR ''!'']"] by simp
  finally have "concat (map sq_esc src) = take ?len src @ dst @ concat (map sq_esc src')" .
  with 1 run show ?case by (subst sq_quote_loop.simps) (auto simp: Let_def)
qed

lemma dequote_esc:
  "dequote_loop has_next (concat (map sq_esc s) @ rest) dst = dequote_loop has_next rest (dst @ s)"
  by (induction s arbitrary: dst) (auto simp: sq_esc_def need_bs_quote_def)

lemma sq_quote_buf_dequote:
  "sq_dequote_step has_next (sq_quote_buf [] s @ rest) = dequote_loop has_next (SQ # rest) s"
  by (simp add: sq_dequote_step_def sq_quote_buf_def sq_quote_loop_spec dequote_esc)

lemma sq_quote_argv_spec:
  "sq_quote_argv dst argv 0 = Some (dst @ concat (map (\<lambda>a. CHR '' '' # sq_quote_buf [] a) argv))"
  by (induction argv arbitrary: dst) (auto simp: sq_quote_buf_def)

lemma dequote_args_spec:
  "dequote_args (sq_quote_buf [] a @ concat (map (\<lambda>a. CHR '' '' # sq_quote_buf [] a) argv)) acc
     = (0, acc @ a # argv)"
proof (induction argv arbitrary: a acc)
  case Nil
  show ?case
    by (subst dequote_args.simps) (use sq_quote_buf_dequote [of True a "[]"] in simp)
next
  case (Cons b argv)
  have "dequote_loop True (SQ # CHR '' '' # sq_quote_buf [] b @ rest) a = Some (a, Some (sq_quote_buf [] b @ rest))" for rest
    by (simp add: after_quote_def isspace_iff sq_quote_buf_def)
  then show ?case
    using sq_quote_buf_dequote [of True a] Cons [of b "acc @ [a]"] by (subst dequote_args.simps) simp
qed

text \<open>
  C24. \<^verbatim>\<open>sq_dequote\<close> undoes \<^verbatim>\<open>sq_quote_buf\<close> on every string, and
  \<^verbatim>\<open>sq_dequote_to_argv\<close> splits what \<^verbatim>\<open>sq_quote_argv\<close> wrote (behind its leading space) into the
  very arguments.
\<close>

theorem sq_dequote_quote:
  "sq_dequote (sq_quote_buf [] s) = Some s \<and>
   (\<exists>cmd. sq_quote_argv [] argv 0 = Some cmd \<and> sq_dequote_to_argv (tl cmd) [] = (0, argv))"
proof
  show "sq_dequote (sq_quote_buf [] s) = Some s"
    using sq_quote_buf_dequote [of False s "[]"] by (simp add: sq_dequote_def)
  show "\<exists>cmd. sq_quote_argv [] argv 0 = Some cmd \<and> sq_dequote_to_argv (tl cmd) [] = (0, argv)"
    using dequote_args_spec [of "hd argv" "tl argv" "[]"]
    by (cases argv) (auto simp: sq_quote_argv_spec sq_dequote_to_argv_def sq_quote_buf_def)
qed

text \<open>
  The fall-through of the switch: a backslash sequence that does not match is skipped when a space
  follows, where the loop over arguments should report a syntax error.
\<close>

lemma sq_dequote_drops_escape:
  "sq_dequote_to_argv (SQ # ''a'' @ [SQ, BS] @ ''! '' @ SQ # ''b'' @ [SQ]) [] = (0, [''a'', ''b''])"
  by (simp add: sq_dequote_to_argv_def dequote_args.simps sq_dequote_step_def after_quote_def need_bs_quote_def isspace_iff)

section \<open>The C-style quoting is undone\<close>

lemma length_sq_lookup: "length sq_lookup = 256"
  by (simp add: sq_lookup_def)

lemma plain_table:
  "list_all (\<lambda>(n, t). t \<le> 0 \<longrightarrow> n \<noteq> 0 \<and> n \<noteq> 34 \<and> n \<noteq> 92) (enumerate 0 sq_lookup)"
  by code_simp

lemma letter_table:
  "list_all (\<lambda>(n, t). if t \<ge> 32 then unescape_letter (char_of t) = Some (char_of n) else True) (enumerate 0 sq_lookup)"
  by code_simp

lemma not_must_quote:
  "\<not> sq_must_quote fully c \<Longrightarrow> 0 \<le> fully \<Longrightarrow> c \<noteq> NUL \<and> c \<noteq> DQ \<and> c \<noteq> BS"
  using table_nth [OF plain_table length_sq_lookup, of c] by (auto simp: sq_must_quote_def)

lemma must_quote_lookup: "sq_must_quote fully c \<Longrightarrow> fully \<le> 1 \<Longrightarrow> 0 \<le> lookup_char c"
  by (simp add: sq_must_quote_def)

lemma char_code_octal [simp]: "char_code (octal_digit n) = n mod 8 + 48"
  using pos_mod_bound [of 8 n] by (simp add: octal_digit_def del: pos_mod_bound)

lemma octal_no_letter: "unescape_letter (octal_digit n) = None"
proof -
  have "list_all (\<lambda>d. unescape_letter (char_of (d + 48)) = None) [0, 1, 2, 3, 4, 5, 6, 7 :: int]"
    by code_simp
  moreover have "0 \<le> n mod 8" "n mod 8 < 8" by simp_all
  then have "n mod 8 \<in> set [0, 1, 2, 3, 4, 5, 6, 7]" by auto
  ultimately show ?thesis unfolding octal_digit_def list_all_iff by blast
qed

lemma octal_value:
  "0 \<le> n \<Longrightarrow> n < 256 \<Longrightarrow> (n div 64 mod 4) mod 8 * 64 + n div 8 mod 8 * 8 + n mod 8 = (n :: int)"
proof -
  assume "0 \<le> n" and "n < 256"
  then have a: "n = 8 * (n div 8) + n mod 8" "0 \<le> n div 8" "n div 8 < 32" by simp_all
  then have b: "n div 8 = 8 * (n div 8 div 8) + n div 8 mod 8" "0 \<le> n div 8 div 8" "n div 8 div 8 < 4"
    by simp_all
  have "n div 64 = n div 8 div 8" by (simp flip: zdiv_zmult2_eq)
  then have "n div 64 mod 4 mod 8 = n div 8 div 8" using b(2,3) by (simp add: mod_pos_pos_trivial)
  with a(1) b(1) show ?thesis by linarith
qed

lemma unescape_escape: "0 \<le> lookup_char c \<Longrightarrow> unescape (escape_char c @ rest) = Some (c, rest)"
proof (cases "lookup_char c \<ge> 32")
  case True
  then have "unescape_letter (char_of (lookup_char c)) = Some c"
    using table_nth [OF letter_table length_sq_lookup, of c] by simp
  with True show ?thesis by (simp add: escape_char_def unescape_def Let_def)
next
  case False
  have mod8: "x mod 8 \<le> 7" for x :: int using pos_mod_bound [of 8 x] by linarith
  have "0 \<le> char_code c div 64 mod 4" "char_code c div 64 mod 4 < 4" by simp_all
  then have "(char_code c div 64 mod 4) mod 8 \<le> 3" by (simp add: mod_pos_pos_trivial)
  moreover note mod8 [of "char_code c div 8"] mod8 [of "char_code c"]
  moreover have "char_of ((char_code c div 64 mod 4) mod 8 * 64 + char_code c div 8 mod 8 * 8 + char_code c mod 8) = c"
    using octal_value [OF char_code_range] by (simp add: char_code_def)
  ultimately show ?thesis
    using False by (simp add: escape_char_def unescape_def Let_def octal_no_letter)
qed

definition c_esc :: "int \<Rightarrow> char \<Rightarrow> string" where
  "c_esc fully c = (if sq_must_quote fully c then BS # escape_char c else [c])"

lemma unquote_loop_plain: "c \<noteq> DQ \<Longrightarrow> c \<noteq> BS \<Longrightarrow> unquote_loop sb (c # q) = unquote_loop (sb @ [c]) q"
  by (subst (1 2) unquote_loop.simps) (simp add: strcspn_def Let_def split: list.split option.split)

lemma unquote_loop_escape: "unescape q = Some (c, q') \<Longrightarrow> unquote_loop sb (BS # q) = unquote_loop (sb @ [c]) q'"
  by (subst unquote_loop.simps) (simp add: strcspn_def)

lemma unquote_loop_end: "unquote_loop sb (DQ # q) = Some (sb, q)"
  by (subst unquote_loop.simps) (simp add: strcspn_def)

lemma unquote_esc:
  "0 \<le> fully \<Longrightarrow> fully \<le> 1 \<Longrightarrow> unquote_loop sb (concat (map (c_esc fully) p) @ DQ # rest) = Some (sb @ p, rest)"
proof (induction p arbitrary: sb)
  case (Cons c p)
  then show ?case
    using not_must_quote [of fully c] unescape_escape [OF must_quote_lookup [of fully c]]
    by (cases "sq_must_quote fully c") (simp_all add: c_esc_def unquote_loop_plain unquote_loop_escape)
qed (simp add: unquote_loop_end)

lemma c_esc_plain: "\<forall>c \<in> set p. \<not> sq_must_quote fully c \<Longrightarrow> concat (map (c_esc fully) p) = p"
  by (induction p) (auto simp: c_esc_def)

lemma quote_loop_spec:
  assumes "0 \<le> fully"
  shows "c_string p \<Longrightarrow> maxlen = -1 \<or> maxlen = int (length p) \<Longrightarrow>
    quote_loop fully no_dq first p maxlen =
      (if \<forall>c \<in> set p. \<not> sq_must_quote fully c then (p, first)
       else ((if \<not> no_dq \<and> first then [DQ] else []) @ concat (map (c_esc fully) p), False))"
proof (induction fully no_dq first p maxlen rule: quote_loop.induct)
  case (1 fully no_dq first p maxlen)
  let ?plain = "takeWhile (\<lambda>c. \<not> sq_must_quote fully c) p"
  have len: "next_quote_pos fully p maxlen = length ?plain"
    using "1.prems"(2) by (auto simp: next_quote_pos_def)
  have tail: "drop (length ?plain) p = dropWhile (\<lambda>c. \<not> sq_must_quote fully c) p"
    by (metis dropWhile_eq_drop)
  have front: "take (length ?plain) p = ?plain" by (metis takeWhile_eq_take)
  show ?case
  proof (cases "drop (length ?plain) p")
    case Nil
    then have plain: "\<forall>c \<in> set p. \<not> sq_must_quote fully c"
      using tail by (simp add: dropWhile_eq_Nil_conv)
    then have eq: "?plain = p" by simp
    show ?thesis using "1.prems"(2) plain by (subst quote_loop.simps) (auto simp: len eq Let_def)
  next
    case (Cons c q)
    define l where "l = ?plain"
    have must: "sq_must_quote fully c" using tail Cons by (metis dropWhile_eq_Cons_conv)
    have p: "p = l @ c # q" using Cons front unfolding l_def by (metis append_take_drop_id)
    have plain: "\<forall>x \<in> set l. \<not> sq_must_quote fully x" unfolding l_def by (auto dest: set_takeWhileD)
    have pos: "next_quote_pos fully p maxlen = length l" using len by (simp add: l_def)
    have parts: "take (length l) p = l" "drop (length l) p = c # q" using p by simp_all
    let ?maxlen = "if maxlen \<ge> 0 then maxlen - (int (length l) + 1) else maxlen"
    have go: "\<not> (int (length l) = maxlen \<or> maxlen < 0 \<and> peek (c # q) = NUL)"
      using "1.prems" p by auto
    have q: "c_string q" and m: "?maxlen = -1 \<or> ?maxlen = int (length q)" using "1.prems" p by auto
    have IH: "quote_loop fully no_dq False q ?maxlen =
      (if \<forall>c \<in> set q. \<not> sq_must_quote fully c then (q, False) else (concat (map (c_esc fully) q), False))"
      using "1.IH" [OF pos [symmetric] go [folded parts(2)] refl, unfolded parts list.sel, OF q m]
      by (simp only: if_False simp_thms append_Nil)
    have "concat (map (c_esc fully) p) = l @ BS # escape_char c @ concat (map (c_esc fully) q)"
      using must plain p by (simp add: c_esc_plain) (simp add: c_esc_def)
    moreover have not: "\<not> (\<forall>c \<in> set p. \<not> sq_must_quote fully c)" using must p by auto
    moreover have "quote_loop fully no_dq first p maxlen =
      ((if \<not> no_dq \<and> first then [DQ] else []) @ l @ BS # escape_char c @ concat (map (c_esc fully) q), False)"
      using IH go c_esc_plain [of q fully] by (subst quote_loop.simps) (simp add: pos parts Let_def)
    ultimately show ?thesis unfolding if_not_P [OF not] by simp
  qed
qed

text \<open>
  C25. When \<^verbatim>\<open>quote_c_style\<close> returns 0 the name goes out as it is and does not start with a
  double quote; otherwise what it wrote has the returned length and \<^verbatim>\<open>unquote_c_style\<close> reads the name
  back from it, stopping right behind the closing quote. Both settings of \<^verbatim>\<open>quote_path_fully\<close>, and a
  name given with its length, behave so.
\<close>

theorem unquote_quote:
  assumes "c_string name" and "fully \<in> {0, 1}" and "maxlen \<in> {- 1, int (length name)}"
    and "quote_c_style_counted fully name maxlen False = (n, out)"
  shows "if \<forall>c \<in> set name. \<not> sq_must_quote fully c then n = 0 \<and> out = name \<and> peek out \<noteq> DQ
         else n = length out \<and> n \<noteq> 0 \<and> unquote_c_style sb (out @ rest) = (0, sb @ name, Some rest)"
proof -
  have f: "0 \<le> fully" "fully \<le> 1" using assms(2) by auto
  have m: "maxlen = - 1 \<or> maxlen = int (length name)" using assms(3) by simp
  note spec = quote_loop_spec [OF f(1) assms(1) m, of False True]
  show ?thesis
  proof (cases "\<forall>c \<in> set name. \<not> sq_must_quote fully c")
    case True
    then show ?thesis
      using assms(4) not_must_quote [OF _ f(1), of "hd name"] spec
      by (cases name) (auto simp: quote_c_style_counted_def)
  next
    case False
    then show ?thesis
      using assms(4) unquote_esc [OF f, of sb name rest] spec [unfolded if_not_P [OF False]]
      unfolding if_not_P [OF False]
      by (auto simp: quote_c_style_counted_def unquote_c_style_def Let_def)
  qed
qed

theorem unquote_quote_witness:
  "\<exists>n out. quote_c_style_counted 1 [CHR ''a'', CHR 0x0a] 2 False = (n, out) \<and>
     n = length out \<and> unquote_c_style [] (out @ ''x'') = (0, [CHR ''a'', CHR 0x0a], Some ''x'')"
proof -
  obtain n out where q: "quote_c_style_counted 1 [CHR ''a'', CHR 0x0a] 2 False = (n, out)" by fastforce
  have "\<not> (\<forall>c \<in> set [CHR ''a'', CHR 0x0a]. \<not> sq_must_quote 1 c)" by code_simp
  then show ?thesis
    using unquote_quote [of "[CHR ''a'', CHR 0x0a]" 1 2 n out "[]" "''x''"] q by auto
qed

text \<open>
  Lemma quote_two_is_quote. \<^verbatim>\<open>quote_two_c_style\<close> writes exactly what \<^verbatim>\<open>quote_c_style\<close> writes for the
  concatenation of its two strings.
\<close>

theorem quote_two_is_quote:
  assumes "c_string prefix" and "c_string path" and "fully \<in> {0, 1}"
  shows "quote_two_c_style fully sb prefix path nodq = sb @ snd (quote_c_style fully (prefix @ path) nodq)"
proof -
  have "0 \<le> fully" using assms(3) by auto
  note spec = quote_loop_spec [OF this, where maxlen = "- 1"]
  show ?thesis
    using assms(1,2) c_esc_plain [of prefix fully] c_esc_plain [of path fully]
    by (auto simp: quote_two_c_style_def quote_c_style_def quote_c_style_counted_def spec Let_def)
qed

theorem quote_two_is_quote_witness:
  "quote_two_c_style 1 [] ''a/'' ''b c'' False = snd (quote_c_style 1 ''a/b c'' False)"
  using quote_two_is_quote [of "''a/''" "''b c''" 1 "[]" False] by simp

section \<open>Literals of other languages\<close>

text \<open>
  How the three languages read such a literal, from behind its opening quote: the value and the rest.
\<close>

fun perl_literal :: "string \<Rightarrow> (string \<times> string) option" where
  "perl_literal [] = None"
| "perl_literal (c # s) =
     (if c = SQ then Some ([], s)
      else case s of
        d # t \<Rightarrow>
          if c = BS \<and> (d = SQ \<or> d = BS) then map_option (\<lambda>(v, r). (d # v, r)) (perl_literal t)
          else map_option (\<lambda>(v, r). (c # v, r)) (perl_literal s)
      | [] \<Rightarrow> None)"

fun escape_literal :: "char \<Rightarrow> (char \<Rightarrow> char) \<Rightarrow> string \<Rightarrow> (string \<times> string) option" where
  "escape_literal q esc [] = None"
| "escape_literal q esc (c # s) =
     (if c = q then Some ([], s)
      else if c = BS then
        (case s of [] \<Rightarrow> None | d # t \<Rightarrow> map_option (\<lambda>(v, r). (esc d # v, r)) (escape_literal q esc t))
      else map_option (\<lambda>(v, r). (c # v, r)) (escape_literal q esc s))"

definition python_escape :: "char \<Rightarrow> char" where
  "python_escape c = (if c = CHR ''n'' then CHR 0x0a else c)"

definition tcl_escape :: "char \<Rightarrow> char" where
  "tcl_escape c =
     (if c = CHR ''f'' then CHR 0x0c else if c = CHR ''r'' then CHR 0x0d else if c = CHR ''n'' then CHR 0x0a
      else if c = CHR ''t'' then CHR 0x09 else if c = CHR ''v'' then CHR 0x0b else c)"

lemma perl_quote_read: "perl_literal (tl (perl_quote_buf [] s) @ rest) = Some (s, rest)"
proof -
  have "perl_literal (concat (map (\<lambda>c. if c = SQ \<or> c = BS then [BS, c] else [c]) s) @ SQ # rest) = Some (s, rest)"
  proof (induction s)
    case (Cons c s)
    then show ?case
      by (cases "concat (map (\<lambda>c. if c = SQ \<or> c = BS then [BS, c] else [c]) s) @ SQ # rest") auto
  qed simp
  then show ?thesis by (simp add: perl_quote_buf_def)
qed

lemma python_quote_read: "escape_literal SQ python_escape (tl (python_quote_buf [] s) @ rest) = Some (s, rest)"
proof -
  have "escape_literal SQ python_escape
    (concat (map (\<lambda>c. if c = CHR 0x0a then [BS, CHR ''n''] else if c = SQ \<or> c = BS then [BS, c] else [c]) s)
      @ SQ # rest) = Some (s, rest)"
    by (induction s) (auto simp: python_escape_def)
  then show ?thesis by (simp add: python_quote_buf_def)
qed

lemma tcl_quote_read: "escape_literal DQ tcl_escape (tl (tcl_quote_buf [] s) @ rest) = Some (s, rest)"
  by (induction s) (auto simp: tcl_quote_buf_def tcl_escape_def)

text \<open>
  Lemma literals_read_back. The literals that \<^verbatim>\<open>perl_quote_buf\<close>, \<^verbatim>\<open>python_quote_buf\<close> and
  \<^verbatim>\<open>tcl_quote_buf\<close> append are read by their languages as the string that was quoted: no byte of
  it ends the literal early.
\<close>

theorem literals_read_back:
  "perl_literal (tl (perl_quote_buf [] s) @ rest) = Some (s, rest) \<and>
   escape_literal SQ python_escape (tl (python_quote_buf [] s) @ rest) = Some (s, rest) \<and>
   escape_literal DQ tcl_escape (tl (tcl_quote_buf [] s) @ rest) = Some (s, rest)"
  by (simp add: perl_quote_read python_quote_read tcl_quote_read)

end
