(* ===== verification/Config_Set.thy ===== *)
theory Config_Set
  imports Config_Parse Hashmap Quote
begin

text \<open>
  \<^verbatim>\<open>config.c\<close>: the cache of configuration values (a hash map of keys over a list of all pairs in
  their order) and the parameters of the command line, which travel quoted in an environment variable.
\<close>

section \<open>The parameters of the command line\<close>

text \<open>The length of a piece is an \<open>int\<close>; \<open>None\<close> is a piece of 2 GiB or more, whose length does not fit.\<close>

function split_buf_loop :: "string \<Rightarrow> char \<Rightarrow> int \<Rightarrow> int \<Rightarrow> string list option" where
  "split_buf_loop str terminator limit nr =
     (if str = [] then Some []
      else let len = (if (limit \<le> 0 \<or> nr + 1 < limit) \<and> terminator \<in> set str
                      then length (takeWhile (\<lambda>c. c \<noteq> terminator) str) + 1 else length str)
           in if 2 ^ 31 \<le> len then None
              else map_option (Cons (take len str)) (split_buf_loop (drop len str) terminator limit (nr + 1)))"
  by pat_completeness auto
termination
  by (relation "measure (\<lambda>(str, _). length str)") auto

declare split_buf_loop.simps [simp del]

definition strbuf_split_buf :: "string \<Rightarrow> char \<Rightarrow> int \<Rightarrow> string list option" where
  "strbuf_split_buf str terminator limit = split_buf_loop str terminator limit 0"

definition strbuf_rtrim :: "string \<Rightarrow> string" where
  "strbuf_rtrim sb = rev (dropWhile isspace (rev sb))"

definition strbuf_ltrim :: "string \<Rightarrow> string" where
  "strbuf_ltrim sb = dropWhile isspace sb"

definition strbuf_trim :: "string \<Rightarrow> string" where
  "strbuf_trim sb = strbuf_ltrim (strbuf_rtrim sb)"

definition strbuf_tolower :: "string \<Rightarrow> string" where
  "strbuf_tolower sb = map tolower sb"

type_synonym 'd param_fn = "string \<Rightarrow> string option \<Rightarrow> 'd \<Rightarrow> int \<times> 'd"

definition git_config_parse_parameter :: "string \<Rightarrow> 'd param_fn \<Rightarrow> 'd \<Rightarrow> (int \<times> 'd) option" where
  "git_config_parse_parameter str fn d =
     (case strbuf_split_buf str CHR ''='' 2 of
        None \<Rightarrow> None
      | Some [] \<Rightarrow> Some (-1, d)
      | Some (p0 # pair) \<Rightarrow>
          let (p0, val) = (if p0 \<noteq> [] \<and> last p0 = CHR ''='' then
                             (butlast p0, Some (case pair of [] \<Rightarrow> [] | p1 # _ \<Rightarrow> p1))
                           else (p0, None));
              p0 = strbuf_trim p0
          in if p0 = [] then Some (-1, d)
             else let (ret, d) = fn (strbuf_tolower p0) val d in Some (if ret < 0 then -1 else 0, d))"

fun parameters_loop :: "string list \<Rightarrow> 'd param_fn \<Rightarrow> 'd \<Rightarrow> (int \<times> 'd) option" where
  "parameters_loop [] fn d = Some (0, d)"
| "parameters_loop (arg # argv) fn d =
     (case git_config_parse_parameter arg fn d of
        None \<Rightarrow> None
      | Some (ret, d) \<Rightarrow> if ret < 0 then Some (-1, d) else parameters_loop argv fn d)"

text \<open>\<open>env\<close> is the value of the environment variable, if it is set.\<close>

definition git_config_push_parameter :: "string option \<Rightarrow> string \<Rightarrow> string option" where
  "git_config_push_parameter env str =
     Some (sq_quote_buf (case env of None \<Rightarrow> [] | Some old \<Rightarrow> old @ '' '') str)"

definition git_config_from_parameters :: "string option \<Rightarrow> 'd param_fn \<Rightarrow> 'd \<Rightarrow> (int \<times> 'd) option" where
  "git_config_from_parameters env fn d =
     (case env of
        None \<Rightarrow> Some (0, d)
      | Some envw \<Rightarrow>
          let (r, argv) = sq_dequote_to_argv envw []
          in if r < 0 then Some (-1, d)
             else case parameters_loop argv fn d of
                    None \<Rightarrow> None
                  | Some (r, d) \<Rightarrow> Some (if r < 0 then (-1, d) else (if length argv > 0 then 1 else 0, d)))"

section \<open>The set\<close>

text \<open>
  An element is allocated once and never moves; the hash map holds its key, \<open>cs_values\<close> its value
  list by address. \<open>kv_info\<close> is the file and the line of a value. \<open>cs_next\<close> is the next address.
\<close>

record config_value =
  cv_string :: "string option"
  cv_info :: "string option \<times> int"

record config_set =
  cs_hash :: "(string, unit) hashmap"
  cs_values :: "nat \<Rightarrow> config_value list"
  cs_list :: "(nat \<times> string \<times> nat) list"
  cs_next :: nat

definition config_set_element_cmp :: "string entry \<Rightarrow> string entry \<Rightarrow> unit option \<Rightarrow> int" where
  "config_set_element_cmp e1 e2 unused = strcmp (he_data e1) (he_data e2)"

definition git_configset_init :: "config_set option" where
  "git_configset_init =
     map_option (\<lambda>m. \<lparr>cs_hash = m, cs_values = (\<lambda>_. []), cs_list = [], cs_next = 1\<rparr>)
       (hashmap_init (Some config_set_element_cmp) 0)"

definition configset_find_element :: "config_set \<Rightarrow> string \<Rightarrow> string entry option" where
  "configset_find_element cs key =
     (case git_config_parse_key key of
        Inl _ \<Rightarrow> None
      | Inr (normalized_key, _) \<Rightarrow>
          hashmap_get (cs_hash cs)
            \<lparr>he_ptr = 0, he_hash = strhash normalized_key, he_data = normalized_key\<rparr> None)"

text \<open>\<open>cf\<close> is the file being read and its line, \<open>None\<close> for the command line.\<close>

definition configset_add_value :: "(string \<times> int) option \<Rightarrow> config_set \<Rightarrow> string \<Rightarrow> string option \<Rightarrow> config_set" where
  "configset_add_value cf cs key val =
     (let (cs, e) = (case configset_find_element cs key of
                       Some e \<Rightarrow> (cs, e)
                     | None \<Rightarrow>
                         let e = \<lparr>he_ptr = cs_next cs, he_hash = strhash key, he_data = key\<rparr>
                         in (cs\<lparr>cs_hash := hashmap_add (cs_hash cs) e,
                                cs_values := (cs_values cs)(he_ptr e := []),
                                cs_next := cs_next cs + 1\<rparr>, e));
          si = \<lparr>cv_string = val,
                cv_info = (case cf of None \<Rightarrow> (None, -1) | Some (filename, linenr) \<Rightarrow> (Some filename, linenr))\<rparr>;
          p = he_ptr e; vs = cs_values cs p @ [si]
      in cs\<lparr>cs_values := (cs_values cs)(p := vs), cs_list := cs_list cs @ [(p, he_data e, length vs - 1)]\<rparr>)"

definition git_configset_get_value_multi :: "config_set \<Rightarrow> string \<Rightarrow> config_value list option" where
  "git_configset_get_value_multi cs key =
     map_option (\<lambda>e. cs_values cs (he_ptr e)) (configset_find_element cs key)"

definition git_configset_get_value :: "config_set \<Rightarrow> string \<Rightarrow> string option option" where
  "git_configset_get_value cs key =
     map_option (\<lambda>vs. cv_string (last vs)) (git_configset_get_value_multi cs key)"

text \<open>The callback gets the pairs in their order; a negative status ends the loop, and the program.\<close>

fun configset_iter :: "config_set \<Rightarrow> (nat \<times> string \<times> nat) list \<Rightarrow> 'd param_fn \<Rightarrow> 'd \<Rightarrow> 'd + config_value" where
  "configset_iter cs [] fn d = Inl d"
| "configset_iter cs ((e, key, value_index) # items) fn d =
     (let si = cs_values cs e ! value_index; (ret, d) = fn key (cv_string si) d
      in if ret < 0 then Inr si else configset_iter cs items fn d)"


section \<open>The set against the list of pairs\<close>

definition element_good :: "string entry \<Rightarrow> bool" where
  "element_good e \<longleftrightarrow> 0 < he_ptr e \<and> he_hash e = strhash (he_data e)"

definition element_query :: "string entry \<Rightarrow> unit option \<Rightarrow> bool" where
  "element_query q kd \<longleftrightarrow> he_ptr q = 0 \<and> he_hash q = strhash (he_data q)"

interpretation elements: entry_keys config_set_element_cmp element_good he_data element_query "\<lambda>q kd. he_data q" strhash
  by unfold_locales (auto simp: element_good_def element_query_def config_set_element_cmp_def strcmp_zero)

definition values_of :: "string \<Rightarrow> (string \<times> string option) list \<Rightarrow> string option list" where
  "values_of key kvs = map snd (filter (\<lambda>kv. fst kv = key) kvs)"

lemma values_of_append [simp]: "values_of key (kvs @ [(k, v)]) = values_of key kvs @ (if k = key then [v] else [])"
  by (simp add: values_of_def)

lemma values_of_Nil: "values_of key kvs = [] \<longleftrightarrow> key \<notin> fst ` set kvs"
  by (auto simp: values_of_def filter_empty_conv)

text \<open>The set after the pairs \<open>kvs\<close> have been added.\<close>

definition holds_pairs :: "config_set \<Rightarrow> (string \<times> string option) list \<Rightarrow> bool" where
  "holds_pairs cs kvs \<longleftrightarrow>
     elements.map_ok (cs_hash cs) \<and> length (entries (cs_hash cs)) \<le> length kvs \<and> 0 < cs_next cs \<and>
     inj_on he_ptr (set (entries (cs_hash cs))) \<and> (\<forall>e \<in> set (entries (cs_hash cs)). he_ptr e < cs_next cs) \<and>
     (\<forall>key. case elements.contents (cs_hash cs) key of
        None \<Rightarrow> values_of key kvs = []
      | Some e \<Rightarrow> values_of key kvs \<noteq> [] \<and> map cv_string (cs_values cs (he_ptr e)) = values_of key kvs) \<and>
     (\<forall>(p, k, j) \<in> set (cs_list cs). p < cs_next cs \<and> j < length (cs_values cs p)) \<and>
     map (\<lambda>(p, k, j). (k, cv_string (cs_values cs p ! j))) (cs_list cs) = kvs"

lemma holds_pairsI:
  assumes "elements.map_ok (cs_hash cs)" and "length (entries (cs_hash cs)) \<le> length kvs" and "0 < cs_next cs"
    and "inj_on he_ptr (set (entries (cs_hash cs)))" and "\<And>e. e \<in> set (entries (cs_hash cs)) \<Longrightarrow> he_ptr e < cs_next cs"
    and "\<And>key. case elements.contents (cs_hash cs) key of
        None \<Rightarrow> values_of key kvs = []
      | Some e \<Rightarrow> values_of key kvs \<noteq> [] \<and> map cv_string (cs_values cs (he_ptr e)) = values_of key kvs"
    and "\<And>p k j. (p, k, j) \<in> set (cs_list cs) \<Longrightarrow> p < cs_next cs \<and> j < length (cs_values cs p)"
    and "map (\<lambda>(p, k, j). (k, cv_string (cs_values cs p ! j))) (cs_list cs) = kvs"
  shows "holds_pairs cs kvs"
  using assms unfolding holds_pairs_def by blast

lemma find_element_spec:
  assumes "holds_pairs cs kvs"
  shows "configset_find_element cs key =
    (case git_config_parse_key key of Inl _ \<Rightarrow> None | Inr (k, _) \<Rightarrow> elements.contents (cs_hash cs) k)"
proof (cases "git_config_parse_key key")
  case (Inr r)
  have "elements.map_ok (cs_hash cs)" using assms by (simp add: holds_pairs_def)
  from elements.get_spec [OF this, of "\<lparr>he_ptr = 0, he_hash = strhash (fst r), he_data = fst r\<rparr>" None]
  show ?thesis using Inr by (cases r) (simp add: configset_find_element_def element_query_def)
qed (simp add: configset_find_element_def)

lemma init_holds_nothing: "\<exists>cs. git_configset_init = Some cs \<and> holds_pairs cs []"
proof -
  obtain m where m: "hashmap_init (Some config_set_element_cmp) 0 = Some m" "hm_ok m" "entries m = []"
      "hm_cmpfn m = config_set_element_cmp"
    using hashmap_init_ok [of 0 "Some config_set_element_cmp"] by auto
  then have "elements.map_ok m" unfolding elements.map_ok_def m(3) by simp
  moreover have "elements.contents m key = None" for key unfolding elements.contents_def m(3) by simp
  ultimately show ?thesis
    unfolding git_configset_init_def m(1) holds_pairs_def by (simp add: m(3) values_of_def del: concat_eq_Nil_conv set_concat)
qed

text \<open>Appending a value to the list of an element that is there.\<close>

lemma append_holds:
  assumes "elements.map_ok m" and "inj_on he_ptr (set (entries m))" and "e \<in> set (entries m)" and "he_data e = k"
    and old: "\<And>key. case elements.contents m key of
        None \<Rightarrow> values_of key kvs = []
      | Some e \<Rightarrow> (key \<noteq> k \<longrightarrow> values_of key kvs \<noteq> []) \<and> map cv_string (values (he_ptr e)) = values_of key kvs"
    and "cv_string si = v"
  shows "case elements.contents m key of
      None \<Rightarrow> values_of key (kvs @ [(k, v)]) = []
    | Some e' \<Rightarrow> values_of key (kvs @ [(k, v)]) \<noteq> [] \<and>
        map cv_string ((values (he_ptr e := values (he_ptr e) @ [si])) (he_ptr e')) = values_of key (kvs @ [(k, v)])"
proof (cases "elements.contents m key")
  case None
  have "elements.contents m k = Some e" using assms(1,3,4) by (simp add: elements.contents_Some)
  then show ?thesis using None old [of key] by auto
next
  case (Some e')
  then have e': "e' \<in> set (entries m)" "he_data e' = key" using elements.contents_Some [OF assms(1)] by auto
  have "he_ptr e' = he_ptr e \<longleftrightarrow> e' = e" using inj_on_eq_iff [OF assms(2) e'(1) assms(3)] by simp
  moreover have "e' = e" if "key = k" using that Some elements.contents_Some [OF assms(1), of k e] assms(3,4) by simp
  ultimately show ?thesis using Some old [of key] e'(2) assms(4,6) by auto
qed

lemma items_kept:
  assumes "\<forall>(p, k, j) \<in> set items. p < n \<and> j < length (values p)"
    and "\<And>p j. p < n \<Longrightarrow> j < length (values p) \<Longrightarrow> values' p ! j = values p ! j"
  shows "map (\<lambda>(p, k, j). (k, cv_string (values' p ! j))) items = map (\<lambda>(p, k, j). (k, cv_string (values p ! j))) items"
  using assms by (intro map_cong [OF refl]) fastforce

lemma add_holds:
  assumes "holds_pairs cs kvs" and "git_config_parse_key k = Inr (k, b)" and "length kvs < 858993459"
  shows "holds_pairs (configset_add_value cf cs k v) (kvs @ [(k, v)])"
proof -
  let ?m = "cs_hash cs"
  have ok: "elements.map_ok ?m" and len: "length (entries ?m) \<le> length kvs" and pos: "0 < cs_next cs"
    and inj: "inj_on he_ptr (set (entries ?m))" and below: "\<forall>e \<in> set (entries ?m). he_ptr e < cs_next cs"
    and vals: "\<And>key. case elements.contents ?m key of None \<Rightarrow> values_of key kvs = []
      | Some e \<Rightarrow> values_of key kvs \<noteq> [] \<and> map cv_string (cs_values cs (he_ptr e)) = values_of key kvs"
    and items: "\<forall>(p, k, j) \<in> set (cs_list cs). p < cs_next cs \<and> j < length (cs_values cs p)"
    and pairs: "map (\<lambda>(p, k, j). (k, cv_string (cs_values cs p ! j))) (cs_list cs) = kvs"
    using assms(1) by (simp_all add: holds_pairs_def del: set_concat)
  obtain si where si: "si = \<lparr>cv_string = v,
      cv_info = (case cf of None \<Rightarrow> (None, -1) | Some (filename, linenr) \<Rightarrow> (Some filename, linenr))\<rparr>" by blast
  have find: "configset_find_element cs k = elements.contents ?m k"
    using find_element_spec [OF assms(1)] assms(2) by simp
  show ?thesis
  proof (cases "elements.contents ?m k")
    case (Some e)
    then have e: "e \<in> set (entries ?m)" "he_data e = k" using elements.contents_Some [OF ok] by auto
    let ?vs = "cs_values cs (he_ptr e) @ [si]"
    have add: "configset_add_value cf cs k v = cs\<lparr>cs_values := (cs_values cs)(he_ptr e := ?vs),
        cs_list := cs_list cs @ [(he_ptr e, k, length ?vs - 1)]\<rparr>"
      using find Some e(2) by (simp add: configset_add_value_def si Let_def)
    have old: "case elements.contents ?m key of
        None \<Rightarrow> values_of key kvs = []
      | Some e \<Rightarrow> (key \<noteq> k \<longrightarrow> values_of key kvs \<noteq> []) \<and> map cv_string (cs_values cs (he_ptr e)) = values_of key kvs" for key
      using vals [of key] by (simp split: option.splits)
    have vals': "case elements.contents ?m key of
        None \<Rightarrow> values_of key (kvs @ [(k, v)]) = []
      | Some e' \<Rightarrow> values_of key (kvs @ [(k, v)]) \<noteq> [] \<and>
          map cv_string (((cs_values cs)(he_ptr e := ?vs)) (he_ptr e')) = values_of key (kvs @ [(k, v)])" for key
      by (rule append_holds [OF ok inj e old]) (simp add: si)
    have pairs': "map (\<lambda>(p, k, j). (k, cv_string (((cs_values cs)(he_ptr e := ?vs)) p ! j))) (cs_list cs) = kvs"
      by (rule trans [OF items_kept [OF items] pairs]) (auto simp: nth_append)
    have items': "p < cs_next cs \<and> j < length (((cs_values cs)(he_ptr e := ?vs)) p)"
      if "(p, k', j) \<in> set (cs_list cs @ [(he_ptr e, k, length ?vs - 1)])" for p k' j
      using that items below e(1) by (auto simp del: set_concat)
    show ?thesis
      unfolding add
    proof (rule holds_pairsI, goal_cases)
      case (6 key)
      show ?case using vals' [of key] by (cases "elements.contents (cs_hash cs) key") (simp_all del: values_of_append)
    next
      case (7 p k j)
      then show ?case using items' by simp
    next
      case 8
      show ?case using pairs' by (simp add: si)
    qed (use ok len pos inj below in \<open>auto simp del: set_concat\<close>)
  next
    case None
    let ?e = "\<lparr>he_ptr = cs_next cs, he_hash = strhash k, he_data = k\<rparr>"
    let ?m' = "hashmap_add ?m ?e" and ?heap = "(cs_values cs)(cs_next cs := [])"
    have add: "configset_add_value cf cs k v = cs\<lparr>cs_hash := ?m', cs_next := cs_next cs + 1,
        cs_values := ?heap(cs_next cs := ?heap (cs_next cs) @ [si]),
        cs_list := cs_list cs @ [(cs_next cs, k, 0)]\<rparr>"
      using find None by (simp add: configset_add_value_def si Let_def)
    have good: "element_good ?e" using pos by (simp add: element_good_def)
    have "length (entries ?m) < 858993459" using len assms(3) by simp
    note added = elements.add_spec [OF ok good _ this, simplified, OF None]
    have "hm_ok ?m" using ok by (simp add: elements.map_ok_def)
    from hashmap_add_ok(2) [OF this \<open>length (entries ?m) < 858993459\<close>]
    have sets: "set (entries ?m') = insert ?e (set (entries ?m))" by (metis set_mset_add_mset_insert set_mset_mset)
    have inj': "inj_on he_ptr (set (entries ?m'))" unfolding sets using inj below by (auto simp: inj_on_insert simp del: set_concat)
    have "case elements.contents ?m' key of
        None \<Rightarrow> values_of key kvs = []
      | Some e \<Rightarrow> (key \<noteq> k \<longrightarrow> values_of key kvs \<noteq> []) \<and> map cv_string (?heap (he_ptr e)) = values_of key kvs" for key
    proof (cases "key = k")
      case True
      then show ?thesis using added(2) vals [of k] None by simp
    next
      case False
      have "he_ptr e \<noteq> cs_next cs" if "elements.contents ?m key = Some e" for e
        using that below elements.contents_Some [OF ok] by (auto simp del: set_concat)
      then show ?thesis using added(2) vals [of key] False by (auto split: option.splits)
    qed
    note old = this
    have "?e \<in> set (entries ?m')" "he_data ?e = k" "cv_string si = v" using sets by (simp_all add: si del: set_concat)
    note vals' = append_holds [OF added(1) inj' this(1,2) old this(3), unfolded entry.select_convs]
    have pairs': "map (\<lambda>(p, k, j). (k, cv_string ((?heap(cs_next cs := [si])) p ! j))) (cs_list cs) = kvs"
      by (rule trans [OF items_kept [OF items] pairs]) simp
    have items': "p < cs_next cs + 1 \<and> j < length ((?heap(cs_next cs := [si])) p)"
      if "(p, k', j) \<in> set (cs_list cs @ [(cs_next cs, k, 0)])" for p k' j
      using that items by auto
    show ?thesis
      unfolding add
    proof (rule holds_pairsI, goal_cases)
      case (5 e)
      then show ?case using sets below by (auto simp del: set_concat)
    next
      case (6 key)
      show ?case using vals' [of key] by (cases "elements.contents (cs_hash cs) key"; cases "elements.contents ?m' key") (simp_all del: values_of_append)
    next
      case (7 p k j)
      then show ?case using items' by simp
    next
      case 8
      show ?case using pairs' by (simp add: si)
    qed (use added(1,3) len inj' pos in \<open>auto simp del: set_concat\<close>)
  qed
qed


abbreviation add_pairs :: "(string \<times> int) option \<Rightarrow> config_set \<Rightarrow> (string \<times> string option) list \<Rightarrow> config_set" where
  "add_pairs cf \<equiv> foldl (\<lambda>cs (k, v). configset_add_value cf cs k v)"

lemma add_pairs_holds:
  "holds_pairs cs kvs \<Longrightarrow> \<forall>(k, v) \<in> set new. \<exists>b. git_config_parse_key k = Inr (k, b) \<Longrightarrow>
     length kvs + length new < 858993459 \<Longrightarrow> holds_pairs (add_pairs cf cs new) (kvs @ new)"
proof (induction new arbitrary: cs kvs)
  case (Cons kv new)
  obtain k v where kv: "kv = (k, v)" by fastforce
  then obtain b where "git_config_parse_key k = Inr (k, b)" using Cons.prems(2) by auto
  with Cons.prems(1,3) have "holds_pairs (configset_add_value cf cs k v) (kvs @ [(k, v)])" by (intro add_holds) auto
  from Cons.IH [OF this] Cons.prems(2,3) kv show ?case by auto
qed simp

text \<open>The values under a key, in the order in which they were added.\<close>

definition stored_values :: "string \<Rightarrow> (string \<times> string option) list \<Rightarrow> string option list option" where
  "stored_values key kvs =
     (case git_config_parse_key key of
        Inl _ \<Rightarrow> None
      | Inr (k, _) \<Rightarrow> if k \<in> fst ` set kvs then Some (values_of k kvs) else None)"

lemma get_value_multi_spec:
  assumes "holds_pairs cs kvs"
  shows "map_option (map cv_string) (git_configset_get_value_multi cs key) = stored_values key kvs"
proof (cases "git_config_parse_key key")
  case (Inr r)
  have "case elements.contents (cs_hash cs) (fst r) of None \<Rightarrow> values_of (fst r) kvs = []
    | Some e \<Rightarrow> values_of (fst r) kvs \<noteq> [] \<and> map cv_string (cs_values cs (he_ptr e)) = values_of (fst r) kvs"
    using assms by (simp add: holds_pairs_def)
  then show ?thesis
    using find_element_spec [OF assms, of key] Inr values_of_Nil [of "fst r" kvs]
    by (cases r; cases "elements.contents (cs_hash cs) (fst r)")
       (auto simp: git_configset_get_value_multi_def stored_values_def)
qed (use find_element_spec [OF assms, of key] in \<open>simp add: git_configset_get_value_multi_def stored_values_def\<close>)

lemma stored_values_not_Nil: "stored_values key kvs \<noteq> Some []"
proof (cases "git_config_parse_key key")
  case (Inr r)
  then show ?thesis using values_of_Nil [of "fst r" kvs] by (cases r) (simp add: stored_values_def)
qed (simp add: stored_values_def)

lemma get_value_spec:
  assumes "holds_pairs cs kvs"
  shows "git_configset_get_value cs key = map_option last (stored_values key kvs)"
proof (cases "git_configset_get_value_multi cs key")
  case None
  then show ?thesis using get_value_multi_spec [OF assms, of key] by (simp add: git_configset_get_value_def)
next
  case (Some vs)
  then have vs: "stored_values key kvs = Some (map cv_string vs)" using get_value_multi_spec [OF assms, of key] by simp
  then have "vs \<noteq> []" using stored_values_not_Nil [of key kvs] by auto
  then show ?thesis using Some vs by (simp add: git_configset_get_value_def last_map)
qed

definition collect_pairs :: "(string \<times> string option) list param_fn" where
  "collect_pairs k v d = (0, d @ [(k, v)])"

lemma iter_collects:
  "configset_iter cs items collect_pairs d = Inl (d @ map (\<lambda>(p, k, j). (k, cv_string (cs_values cs p ! j))) items)"
  by (induction cs items "collect_pairs" d rule: configset_iter.induct) (auto simp: collect_pairs_def)

lemma split_at_equals:
  assumes "CHR ''='' \<notin> set k" and "length k + 1 < 2 ^ 31" and "length v < 2 ^ 31"
  shows "strbuf_split_buf (k @ CHR ''='' # v) CHR ''='' 2 = Some ((k @ ''='') # (if v = [] then [] else [v]))"
proof -
  have "takeWhile (\<lambda>c. c \<noteq> CHR ''='') (k @ CHR ''='' # v) = k"
  proof -
    have "takeWhile (\<lambda>c. c \<noteq> CHR ''='') k = k" using assms(1) unfolding takeWhile_eq_all_conv by blast
    then show ?thesis by (simp add: takeWhile_tail del: takeWhile_eq_all_conv)
  qed
  moreover have "split_buf_loop v CHR ''='' 2 1 = Some (if v = [] then [] else [v])"
    using assms(3) by (subst split_buf_loop.simps, subst split_buf_loop.simps) (simp add: Let_def)
  ultimately show ?thesis
    using assms(2) unfolding strbuf_split_buf_def by (subst split_buf_loop.simps) (simp add: Let_def)
qed

lemma trim_word: "\<forall>c \<in> set k. \<not> isspace c \<Longrightarrow> strbuf_trim k = k"
proof -
  have keep: "dropWhile isspace l = l" if "\<forall>c \<in> set l. \<not> isspace c" for l using that by (cases l) auto
  assume "\<forall>c \<in> set k. \<not> isspace c"
  then show ?thesis using keep [of k] keep [of "rev k"] by (simp add: strbuf_trim_def strbuf_rtrim_def strbuf_ltrim_def)
qed

lemma parse_parameter_pair:
  "CHR ''='' \<notin> set k \<Longrightarrow> k \<noteq> [] \<Longrightarrow> \<forall>c \<in> set k. \<not> isspace c \<Longrightarrow> length k + 1 < 2 ^ 31 \<Longrightarrow> length v < 2 ^ 31 \<Longrightarrow>
     git_config_parse_parameter (k @ ''='' @ v) fn d =
       (let (ret, d) = fn (map tolower k) (Some v) d in Some (if ret < 0 then -1 else 0, d))"
  by (simp add: git_config_parse_parameter_def split_at_equals trim_word strbuf_tolower_def)

text \<open>What the key of a parameter must be so that it is read as a key of a file would be.\<close>

definition parameter_ok :: "string \<times> string \<Rightarrow> bool" where
  "parameter_ok kv \<longleftrightarrow>
     (case kv of (k, v) \<Rightarrow>
        CHR ''='' \<notin> set k \<and> (\<forall>c \<in> set k. \<not> isspace c) \<and> length k + 1 < 2 ^ 31 \<and> length v < 2 ^ 31 \<and>
        (\<exists>sec sub var. key_parts k sec sub var \<and> (\<forall>c \<in> set sub. \<not> isupper c)))"

definition file_key :: "string \<Rightarrow> string" where
  "file_key k = (case git_config_parse_key k of Inr (nk, _) \<Rightarrow> nk | Inl _ \<Rightarrow> [])"

lemma parameter_ok_key: "parameter_ok (k, v) \<Longrightarrow> k \<noteq> [] \<and> file_key k = map tolower k"
proof -
  assume "parameter_ok (k, v)"
  then obtain sec sub var where parts: "key_parts k sec sub var" and sub: "\<forall>c \<in> set sub. \<not> isupper c"
    by (auto simp: parameter_ok_def)
  have "git_config_parse_key k = Inr (normal_key sec sub var, length (sec @ sub))" using parts parse_key_iff by blast
  moreover have "map tolower sub = sub" using sub by (simp add: map_idI tolower_fixed)
  moreover have "tolower CHR ''.'' = CHR ''.''" by code_simp
  ultimately show ?thesis using parts by (auto simp: file_key_def normal_key_def key_parts_def)
qed

lemma parameters_collect:
  "\<forall>kv \<in> set kvs. parameter_ok kv \<Longrightarrow>
     parameters_loop (map (\<lambda>(k, v). k @ ''='' @ v) kvs) collect_pairs d =
       Some (0, d @ map (\<lambda>(k, v). (file_key k, Some v)) kvs)"
proof (induction kvs arbitrary: d)
  case (Cons kv kvs)
  obtain k v where kv: "kv = (k, v)" by fastforce
  then have ok: "parameter_ok (k, v)" using Cons.prems by simp
  note key = parameter_ok_key [OF ok]
  have "git_config_parse_parameter (k @ ''='' @ v) collect_pairs d = Some (0, d @ [(file_key k, Some v)])"
    using ok key by (subst parse_parameter_pair) (auto simp: collect_pairs_def parameter_ok_def)
  then show ?case using Cons kv by simp
qed simp

lemma pushed_environment:
  "foldl git_config_push_parameter (Some env) ts = Some (env @ concat (map (\<lambda>a. CHR '' '' # sq_quote_buf [] a) ts))"
  by (induction ts arbitrary: env) (auto simp: git_config_push_parameter_def sq_quote_buf_def)

lemma pushed_arguments:
  assumes "foldl git_config_push_parameter None ts = env"
  shows "git_config_from_parameters env fn d =
    map_option (\<lambda>(r, d). if r < 0 then (-1, d) else (if ts = [] then 0 else 1, d)) (parameters_loop ts fn d)"
proof (cases ts)
  case Nil
  then show ?thesis using assms by (auto simp: git_config_from_parameters_def)
next
  case (Cons t us)
  then have "env = Some (sq_quote_buf [] t @ concat (map (\<lambda>a. CHR '' '' # sq_quote_buf [] a) us))"
    using assms pushed_environment [of "sq_quote_buf [] t" us] by (simp add: git_config_push_parameter_def)
  moreover have "sq_quote_buf [] t \<noteq> []" by (simp add: sq_quote_buf_def)
  ultimately show ?thesis
    using dequote_args_spec [of t us "[]"] Cons
    by (auto simp: git_config_from_parameters_def sq_dequote_to_argv_def Let_def split: option.split)
qed

section \<open>Properties\<close>

text \<open>C17: after any list of pairs with normalized keys has been added to a new set, a
  lookup, with the key in any spelling, returns the values of that key in their order, the single value is
  the last one, and the iteration gives all pairs back in the order in which they were added.\<close>

theorem configset_is_multimap:
  assumes "\<forall>(k, v) \<in> set kvs. \<exists>b. git_config_parse_key k = Inr (k, b)" and "length kvs < 858993459"
  shows "\<exists>cs0. git_configset_init = Some cs0 \<and>
    (let cs = foldl (\<lambda>cs (k, v). configset_add_value cf cs k v) cs0 kvs
     in map_option (map cv_string) (git_configset_get_value_multi cs key) = stored_values key kvs \<and>
        git_configset_get_value cs key = map_option last (stored_values key kvs) \<and>
        configset_iter cs (cs_list cs) collect_pairs [] = Inl kvs)"
proof -
  obtain cs0 where "git_configset_init = Some cs0" "holds_pairs cs0 []" using init_holds_nothing by blast
  moreover from this(2) assms have "holds_pairs (add_pairs cf cs0 kvs) kvs" using add_pairs_holds [of cs0 "[]" kvs cf] by simp
  moreover from this have "configset_iter (add_pairs cf cs0 kvs) (cs_list (add_pairs cf cs0 kvs)) collect_pairs [] = Inl kvs"
    by (simp add: iter_collects holds_pairs_def)
  ultimately show ?thesis using get_value_multi_spec get_value_spec by (metis (no_types, lifting))
qed

lemma configset_is_multimap_witness:
  "\<exists>cs0. git_configset_init = Some cs0 \<and>
    (let cs = foldl (\<lambda>cs (k, v). configset_add_value None cs k v) cs0
       [(''a.B.x'', Some ''1''), (''c.y'', None), (''a.B.x'', Some ''2'')]
     in git_configset_get_value cs ''A.B.X'' = Some (Some ''2''))"
proof -
  let ?kvs = "[(''a.B.x'', Some ''1''), (''c.y'', None), (''a.B.x'', Some ''2'')]"
  have "git_config_parse_key ''a.B.x'' = Inr (''a.B.x'', 3)" "git_config_parse_key ''c.y'' = Inr (''c.y'', 1)"
    by code_simp+
  then have "\<forall>(k, v) \<in> set ?kvs. \<exists>b. git_config_parse_key k = Inr (k, b)" by auto
  moreover have "stored_values ''A.B.X'' ?kvs = Some [Some ''1'', Some ''2'']" by code_simp
  ultimately show ?thesis using configset_is_multimap [of ?kvs None "''A.B.X''"] by (auto simp: Let_def)
qed

text \<open>
  C37: the key-value pairs pushed one after the other into the environment variable are read back from it, the
  keys in the normal form that \<open>git_config_parse_key\<close> gives a key of a file, the values as they were, whatever quotes and spaces they
  contain. The keys are valid keys without white space and \<open>=\<close> whose subsection has no capital letter; key and value are below 2 GiB.
\<close>

theorem parameters_round_trip:
  assumes "\<forall>(k, v) \<in> set kvs. CHR ''='' \<notin> set k \<and> (\<forall>c \<in> set k. \<not> isspace c) \<and> length k + 1 < 2 ^ 31 \<and> length v < 2 ^ 31 \<and>
      (\<exists>sec sub var. key_parts k sec sub var \<and> (\<forall>c \<in> set sub. \<not> isupper c))"
  shows "\<exists>nks. list_all2 (\<lambda>(k, v) nk. \<exists>baselen. git_config_parse_key k = Inr (nk, baselen)) kvs nks \<and>
    git_config_from_parameters (foldl git_config_push_parameter None (map (\<lambda>(k, v). k @ ''='' @ v) kvs)) collect_pairs [] =
      Some (if kvs = [] then 0 else 1, zip nks (map (\<lambda>(k, v). Some v) kvs))"
proof (intro exI conjI)
  have ok: "\<forall>kv \<in> set kvs. parameter_ok kv" using assms by (auto simp: parameter_ok_def)
  have "\<exists>baselen. git_config_parse_key k = Inr (file_key k, baselen)" if "(k, v) \<in> set kvs" for k v
  proof -
    have "parameter_ok (k, v)" using ok that by blast
    then obtain sec sub var where "key_parts k sec sub var" by (auto simp: parameter_ok_def)
    then have "git_config_parse_key k = Inr (normal_key sec sub var, length (sec @ sub))" using parse_key_iff by blast
    then show ?thesis by (simp add: file_key_def)
  qed
  then show "list_all2 (\<lambda>(k, v) nk. \<exists>baselen. git_config_parse_key k = Inr (nk, baselen)) kvs (map (\<lambda>(k, v). file_key k) kvs)"
    by (induction kvs) auto
  have z: "zip (map (\<lambda>(k, v). file_key k) kvs) (map (\<lambda>(k, v). Some v) kvs) = map (\<lambda>(k, v). (file_key k, Some v)) kvs"
    by (induction kvs) auto
  show "git_config_from_parameters (foldl git_config_push_parameter None (map (\<lambda>(k, v). k @ ''='' @ v) kvs)) collect_pairs [] =
      Some (if kvs = [] then 0 else 1, zip (map (\<lambda>(k, v). file_key k) kvs) (map (\<lambda>(k, v). Some v) kvs))"
    unfolding z using pushed_arguments [OF refl, of "map (\<lambda>(k, v). k @ ''='' @ v) kvs" collect_pairs "[]"] parameters_collect [OF ok, of "[]"]
    by simp
qed

lemma parameters_round_trip_witness:
  "git_config_from_parameters (foldl git_config_push_parameter None [''a.b=x y'', ''C.d=don!'' @ [CHR 0x27]]) collect_pairs [] =
    Some (1, [(''a.b'', Some ''x y''), (''c.d'', Some (''don!'' @ [CHR 0x27]))])"
proof -
  let ?kvs = "[(''a.b'', ''x y''), (''C.d'', ''don!'' @ [CHR 0x27])]"
  have "key_parts ''a.b'' ''a'' [] ''b''" "key_parts ''C.d'' ''C'' [] ''d''"
    unfolding key_parts_def by code_simp+
  then have "\<forall>(k, v) \<in> set ?kvs. CHR ''='' \<notin> set k \<and> (\<forall>c \<in> set k. \<not> isspace c) \<and> length k + 1 < 2 ^ 31 \<and> length v < 2 ^ 31 \<and>
      (\<exists>sec sub var. key_parts k sec sub var \<and> (\<forall>c \<in> set sub. \<not> isupper c))"
    by (force simp: isspace_iff)
  from parameters_round_trip [OF this] obtain nks where
    keys: "list_all2 (\<lambda>(k, v) nk. \<exists>baselen. git_config_parse_key k = Inr (nk, baselen)) ?kvs nks" and
    run: "git_config_from_parameters (foldl git_config_push_parameter None (map (\<lambda>(k, v). k @ ''='' @ v) ?kvs)) collect_pairs [] =
      Some (if ?kvs = [] then 0 else 1, zip nks (map (\<lambda>(k, v). Some v) ?kvs))" by blast
  have "git_config_parse_key ''a.b'' = Inr (''a.b'', 1)" "git_config_parse_key ''C.d'' = Inr (''c.d'', 1)" by code_simp+
  then have "nks = [''a.b'', ''c.d'']" using keys by (auto simp: list_all2_Cons1)
  then show ?thesis using run by simp
qed

text \<open>\<open>strbuf_tolower\<close> also changes a subsection with capitals, which the key of a file keeps.\<close>

lemma parameter_lowers_subsection:
  "git_config_parse_parameter ''url.My.x=1'' collect_pairs [] = Some (0, [(''url.my.x'', Some ''1'')])"
  "git_config_parse_key ''url.My.x'' = Inr (''url.My.x'', 6)"
  by (simp add: git_config_parse_parameter_def strbuf_split_buf_def split_buf_loop.simps, code_simp, code_simp)

end
