(* ===== verification/String_List.thy ===== *)
theory String_List
  imports Key_Table Qsort
begin

text \<open>
  \<^verbatim>\<open>string-list.c\<close>: lists of strings with a pointer each, used sorted (as a map) or unsorted. The array
  is a list; a pointer to an item is its index; the growth of the array and the freeing of strings
  are not modelled. A comparison of NULL stands for \<open>strcmp\<close>.
\<close>

record 'u string_list_item =
  si_string :: string
  si_util :: "'u option"

record 'u string_list =
  sl_items :: "'u string_list_item list"
  sl_dup :: bool
  sl_cmp :: "(string \<Rightarrow> string \<Rightarrow> int) option"

abbreviation strings :: "'u string_list_item list \<Rightarrow> string list" where
  "strings items \<equiv> map si_string items"

definition string_list_init :: "bool \<Rightarrow> 'u string_list" where
  "string_list_init strdup_strings = \<lparr>sl_items = [], sl_dup = strdup_strings, sl_cmp = None\<rparr>"

definition list_cmp :: "'u string_list \<Rightarrow> string \<Rightarrow> string \<Rightarrow> int" where
  "list_cmp list = (case sl_cmp list of Some cmp \<Rightarrow> cmp | None \<Rightarrow> strcmp)"

section \<open>Sorted lists\<close>

text \<open>The bisection; \<open>left\<close> starts at -1.\<close>

function entry_loop :: "(string \<Rightarrow> string \<Rightarrow> int) \<Rightarrow> 'u string_list_item list \<Rightarrow> string \<Rightarrow> int \<Rightarrow> int \<Rightarrow> bool \<times> int" where
  "entry_loop cmp items str left right =
     (if left + 1 < right then
        let middle = (left + right) div 2;
            compare = cmp str (si_string (items ! nat middle))
        in if compare < 0 then entry_loop cmp items str left middle
           else if compare > 0 then entry_loop cmp items str middle right
           else (True, middle)
      else (False, right))"
  by pat_completeness auto
termination
  by (relation "measure (\<lambda>(_, _, _, left, right). nat (right - left))") auto

declare entry_loop.simps [simp del]

definition get_entry_index :: "'u string_list \<Rightarrow> string \<Rightarrow> bool \<times> int" where
  "get_entry_index list str =
     entry_loop (list_cmp list) (sl_items list) str (-1) (int (length (sl_items list)))"

text \<open>Returns the list and the index, or \<open>-1 - index\<close> when the string is there already.\<close>

definition add_entry :: "int \<Rightarrow> 'u string_list \<Rightarrow> string \<Rightarrow> 'u string_list \<times> int" where
  "add_entry insert_at list str =
     (let (exact_match, index) =
            (if insert_at \<noteq> -1 then (False, insert_at) else get_entry_index list str)
      in if exact_match then (list, -1 - index)
         else (list\<lparr>sl_items := take (nat index) (sl_items list) @ \<lparr>si_string = str, si_util = None\<rparr> #
                                 drop (nat index) (sl_items list)\<rparr>, index))"

definition string_list_insert :: "'u string_list \<Rightarrow> string \<Rightarrow> 'u string_list \<times> nat" where
  "string_list_insert list str =
     (let (list, index) = add_entry (-1) list str
      in (list, nat (if index < 0 then -1 - index else index)))"

definition string_list_has_string :: "'u string_list \<Rightarrow> string \<Rightarrow> bool" where
  "string_list_has_string list str = fst (get_entry_index list str)"

definition string_list_find_insert_index :: "'u string_list \<Rightarrow> string \<Rightarrow> bool \<Rightarrow> int" where
  "string_list_find_insert_index list str negative_existing_index =
     (let (exact_match, index) = get_entry_index list str
      in if exact_match then -1 - (if negative_existing_index then index else 0) else index)"

definition string_list_lookup :: "'u string_list \<Rightarrow> string \<Rightarrow> nat option" where
  "string_list_lookup list str =
     (let (exact_match, i) = get_entry_index list str in if \<not> exact_match then None else Some (nat i))"

text \<open>The loop keeps the items before \<open>dst\<close>; the last of them is compared with the next one.\<close>

fun dedup_loop ::
  "(string \<Rightarrow> string \<Rightarrow> int) \<Rightarrow> 'u string_list_item list \<Rightarrow> 'u string_list_item list \<Rightarrow> 'u string_list_item list" where
  "dedup_loop cmp dst [] = dst"
| "dedup_loop cmp dst (item # src) =
     (if cmp (si_string (last dst)) (si_string item) = 0 then dedup_loop cmp dst src
      else dedup_loop cmp (dst @ [item]) src)"

definition string_list_remove_duplicates :: "'u string_list \<Rightarrow> 'u string_list" where
  "string_list_remove_duplicates list =
     (if length (sl_items list) > 1
      then list\<lparr>sl_items := dedup_loop (list_cmp list) [hd (sl_items list)] (tl (sl_items list))\<rparr>
      else list)"

section \<open>All lists\<close>

text \<open>The callback returns a status and its data; a status that is not 0 ends the loop.\<close>

fun for_each_item ::
  "('u string_list_item \<Rightarrow> 'd \<Rightarrow> int \<times> 'u string_list_item \<times> 'd) \<Rightarrow> 'u string_list_item list \<Rightarrow> 'd \<Rightarrow>
     int \<times> 'u string_list_item list \<times> 'd" where
  "for_each_item fn [] cb_data = (0, [], cb_data)"
| "for_each_item fn (item # items) cb_data =
     (let (ret, item, cb_data) = fn item cb_data in
      if ret \<noteq> 0 then (ret, item # items, cb_data)
      else let (ret, items, cb_data) = for_each_item fn items cb_data in (ret, item # items, cb_data))"

definition for_each_string_list ::
  "'u string_list \<Rightarrow> ('u string_list_item \<Rightarrow> 'd \<Rightarrow> int \<times> 'u string_list_item \<times> 'd) \<Rightarrow> 'd \<Rightarrow>
     int \<times> 'u string_list \<times> 'd" where
  "for_each_string_list list fn cb_data =
     (let (ret, items, cb_data) = for_each_item fn (sl_items list) cb_data
      in (ret, list\<lparr>sl_items := items\<rparr>, cb_data))"

fun filter_items :: "('u string_list_item \<Rightarrow> bool) \<Rightarrow> 'u string_list_item list \<Rightarrow> 'u string_list_item list \<Rightarrow> 'u string_list_item list" where
  "filter_items want dst [] = dst"
| "filter_items want dst (item # src) =
     (if want item then filter_items want (dst @ [item]) src else filter_items want dst src)"

definition filter_string_list :: "'u string_list \<Rightarrow> ('u string_list_item \<Rightarrow> bool) \<Rightarrow> 'u string_list" where
  "filter_string_list list want = list\<lparr>sl_items := filter_items want [] (sl_items list)\<rparr>"

definition item_is_not_empty :: "'u string_list_item \<Rightarrow> bool" where
  "item_is_not_empty item \<longleftrightarrow> si_string item \<noteq> []"

definition string_list_remove_empty_items :: "'u string_list \<Rightarrow> 'u string_list" where
  "string_list_remove_empty_items list = filter_string_list list item_is_not_empty"

definition string_list_clear :: "'u string_list \<Rightarrow> 'u string_list" where
  "string_list_clear list = list\<lparr>sl_items := []\<rparr>"

definition string_list_append :: "'u string_list \<Rightarrow> string \<Rightarrow> 'u string_list" where
  "string_list_append list str = list\<lparr>sl_items := sl_items list @ [\<lparr>si_string = str, si_util = None\<rparr>]\<rparr>"

text \<open>\<open>qsort\<close> is the replacement of \<^verbatim>\<open>compat/qsort.c\<close>.\<close>

definition string_list_sort :: "'u string_list \<Rightarrow> 'u string_list" where
  "string_list_sort list =
     list\<lparr>sl_items := git_qsort (\<lambda>one two. list_cmp list (si_string one) (si_string two)) (sl_items list)\<rparr>"

fun lookup_item :: "(string \<Rightarrow> string \<Rightarrow> int) \<Rightarrow> 'u string_list_item list \<Rightarrow> string \<Rightarrow> nat option" where
  "lookup_item cmp [] str = None"
| "lookup_item cmp (item # items) str =
     (if cmp str (si_string item) = 0 then Some 0 else map_option Suc (lookup_item cmp items str))"

definition unsorted_string_list_lookup :: "'u string_list \<Rightarrow> string \<Rightarrow> nat option" where
  "unsorted_string_list_lookup list str = lookup_item (list_cmp list) (sl_items list) str"

definition unsorted_string_list_has_string :: "'u string_list \<Rightarrow> string \<Rightarrow> bool" where
  "unsorted_string_list_has_string list str \<longleftrightarrow> unsorted_string_list_lookup list str \<noteq> None"

definition unsorted_string_list_delete_item :: "'u string_list \<Rightarrow> nat \<Rightarrow> 'u string_list" where
  "unsorted_string_list_delete_item list i =
     list\<lparr>sl_items := butlast ((sl_items list)[i := last (sl_items list)])\<rparr>"

text \<open>\<open>maxsplit\<close> is negative for no limit; the die of a list that does not copy is \<open>None\<close>.\<close>

function split_loop :: "'u string_list \<Rightarrow> string \<Rightarrow> char \<Rightarrow> int \<Rightarrow> int \<Rightarrow> 'u string_list \<times> int" where
  "split_loop list p delim maxsplit cnt =
     (let cnt = cnt + 1 in
      if maxsplit \<ge> 0 \<and> cnt > maxsplit then (string_list_append list p, cnt)
      else if delim \<in> set p then
        split_loop (string_list_append list (takeWhile (\<lambda>c. c \<noteq> delim) p))
          (tl (dropWhile (\<lambda>c. c \<noteq> delim) p)) delim maxsplit cnt
      else (string_list_append list p, cnt))"
  by pat_completeness auto
termination
proof (relation "measure (\<lambda>(_, p, _). length p)", goal_cases)
  case (2 list p delim maxsplit cnt cnt')
  then have "p \<noteq> []" by auto
  then show ?case using length_tl_dropWhile_less by auto
qed simp

declare split_loop.simps [simp del]

definition string_list_split :: "'u string_list \<Rightarrow> string \<Rightarrow> char \<Rightarrow> int \<Rightarrow> ('u string_list \<times> int) option" where
  "string_list_split list str delim maxsplit =
     (if \<not> sl_dup list then None else Some (split_loop list str delim maxsplit 0))"

text \<open>
  The same on a string that the list may keep pointers into: the delimiters are overwritten by
  NULs. \<open>pre\<close> is what stands in the buffer before \<open>p\<close>; it is returned with the list.
\<close>

function split_in_place_loop ::
  "'u string_list \<Rightarrow> string \<Rightarrow> string \<Rightarrow> char \<Rightarrow> int \<Rightarrow> int \<Rightarrow> 'u string_list \<times> int \<times> string" where
  "split_in_place_loop list pre p delim maxsplit cnt =
     (let cnt = cnt + 1 in
      if maxsplit \<ge> 0 \<and> cnt > maxsplit then (string_list_append list p, cnt, pre @ p)
      else if delim \<in> set p then
        let str = takeWhile (\<lambda>c. c \<noteq> delim) p
        in split_in_place_loop (string_list_append list str) (pre @ str @ [NUL])
             (tl (dropWhile (\<lambda>c. c \<noteq> delim) p)) delim maxsplit cnt
      else (string_list_append list p, cnt, pre @ p))"
  by pat_completeness auto
termination
proof (relation "measure (\<lambda>(_, _, p, _). length p)", goal_cases)
  case (2 list pre p delim maxsplit cnt cnt' str)
  then have "p \<noteq> []" by auto
  then show ?case using length_tl_dropWhile_less by auto
qed simp

declare split_in_place_loop.simps [simp del]

definition string_list_split_in_place ::
  "'u string_list \<Rightarrow> string \<Rightarrow> char \<Rightarrow> int \<Rightarrow> ('u string_list \<times> int \<times> string) option" where
  "string_list_split_in_place list str delim maxsplit =
     (if sl_dup list then None else Some (split_in_place_loop list [] str delim maxsplit 0))"

text \<open>
  \<open>splits cmp str xs i\<close>: what stands before \<open>i\<close> is smaller than \<open>str\<close>, what stands from
  \<open>i\<close> on is greater.
\<close>

definition splits :: "('a \<Rightarrow> 'a \<Rightarrow> int) \<Rightarrow> 'a \<Rightarrow> 'a list \<Rightarrow> nat \<Rightarrow> bool" where
  "splits cmp str xs i \<longleftrightarrow>
     i \<le> length xs \<and> (\<forall>j < i. 0 < cmp str (xs ! j)) \<and> (\<forall>j < length xs. i \<le> j \<longrightarrow> cmp str (xs ! j) < 0)"

context cmp_order
begin

lemma below_middle:
  assumes "sorted_cmp xs" and "0 < cmp str (xs ! m)" and "m < length xs" and "j \<le> m"
  shows "0 < cmp str (xs ! j)"
proof -
  have "cmp (xs ! j) (xs ! m) \<le> 0"
    using assms(1,3,4) by (cases "j = m") (auto simp: sorted_wrt_iff_nth_less)
  moreover have "cmp (xs ! m) str < 0" using assms(2) cmp_swap by blast
  ultimately have "cmp (xs ! j) str < 0" by (rule cmp_le_less_trans)
  then show ?thesis using cmp_swap by blast
qed

lemma above_middle:
  assumes "sorted_cmp xs" and "cmp str (xs ! m) < 0" and "m \<le> j" and "j < length xs"
  shows "cmp str (xs ! j) < 0"
proof -
  have "cmp (xs ! m) (xs ! j) \<le> 0"
    using assms(1,3,4) by (cases "j = m") (auto simp: sorted_wrt_iff_nth_less)
  then show ?thesis using assms(2) cmp_less_le_trans by blast
qed

lemma splits_unique: "splits cmp str xs i \<Longrightarrow> splits cmp str xs j \<Longrightarrow> i = j"
  unfolding splits_def by (metis le_cases le_neq_implies_less less_asym less_le_trans not_less)

end

lemma entry_loop_spec:
  assumes ord: "cmp_order cmp" and sorted: "sorted_wrt (\<lambda>x y. cmp x y \<le> 0) (strings items)"
  shows "-1 \<le> left \<Longrightarrow> left < right \<Longrightarrow> right \<le> int (length items) \<Longrightarrow>
    \<forall>j. int j \<le> left \<longrightarrow> 0 < cmp str (strings items ! j) \<Longrightarrow>
    \<forall>j < length items. right \<le> int j \<longrightarrow> cmp str (strings items ! j) < 0 \<Longrightarrow>
    entry_loop cmp items str left right = (found, i) \<Longrightarrow>
    (if found then 0 \<le> i \<and> i < int (length items) \<and> cmp str (strings items ! nat i) = 0
     else 0 \<le> i \<and> splits cmp str (strings items) (nat i))"
proof (induction "nat (right - left)" arbitrary: left right rule: less_induct)
  case less
  let ?m = "(left + right) div 2"
  show ?case
  proof (cases "left + 1 < right")
    case False
    with less.prems have "right = left + 1" "\<not> found" "i = right"
      by (simp_all add: entry_loop.simps [of cmp items str left right])
    moreover have "cmp str (strings items ! j) > 0" if "j < nat (left + 1)" for j
      using less.prems(4) that by (auto simp: zless_nat_eq_int_zless)
    moreover have "cmp str (strings items ! j) < 0" if "j < length items" "nat (left + 1) \<le> j" for j
      using less.prems(5) that \<open>right = left + 1\<close> by (auto simp: nat_le_iff)
    ultimately show ?thesis using less.prems(1,3) by (auto simp: splits_def nat_le_iff)
  next
    case True
    then have m: "left < ?m" "?m < right" "0 \<le> ?m" using less.prems(1) by linarith+
    then have in_range: "nat ?m < length items" using less.prems(3) by linarith
    have mid: "cmp str (si_string (items ! nat ?m)) = cmp str (strings items ! nat ?m)" using in_range by simp
    consider "cmp str (strings items ! nat ?m) < 0" | "0 < cmp str (strings items ! nat ?m)"
      | "cmp str (strings items ! nat ?m) = 0" by linarith
    then show ?thesis
    proof cases
      case 1
      have step: "entry_loop cmp items str left right = entry_loop cmp items str left ?m"
        using True 1 mid by (subst entry_loop.simps) (simp add: Let_def)
      have above: "\<forall>j < length items. ?m \<le> int j \<longrightarrow> cmp str (strings items ! j) < 0"
        using cmp_order.above_middle [OF ord sorted 1] by auto
      have "nat (?m - left) < nat (right - left)" using m by linarith
      from less.hyps [OF this less.prems(1) m(1) _ less.prems(4) above] less.prems(3,6) m(2) step
      show ?thesis by simp
    next
      case 2
      have step: "entry_loop cmp items str left right = entry_loop cmp items str ?m right"
        using True 2 mid by (subst entry_loop.simps) (simp add: Let_def)
      have below: "\<forall>j. int j \<le> ?m \<longrightarrow> 0 < cmp str (strings items ! j)"
        using cmp_order.below_middle [OF ord sorted 2] in_range by (auto simp: le_nat_iff m(3))
      have "nat (right - ?m) < nat (right - left)" using m by linarith
      from less.hyps [OF this _ m(2) less.prems(3) below less.prems(5)] less.prems(6) m(3) step
      show ?thesis by simp
    next
      case 3
      have "entry_loop cmp items str left right = (True, ?m)"
        using True 3 mid by (subst entry_loop.simps) (simp add: Let_def)
      then show ?thesis using less.prems(6) m(3) in_range 3 by auto
    qed
  qed
qed

lemma get_entry_index_spec:
  assumes "cmp_order (list_cmp list)" and "sorted_wrt (\<lambda>x y. list_cmp list x y \<le> 0) (strings (sl_items list))"
    and "get_entry_index list str = (found, i)"
  shows "if found then 0 \<le> i \<and> i < int (length (sl_items list)) \<and> list_cmp list str (strings (sl_items list) ! nat i) = 0
     else 0 \<le> i \<and> splits (list_cmp list) str (strings (sl_items list)) (nat i)"
  using entry_loop_spec [where cmp = "list_cmp list" and items = "sl_items list" and left = "-1"
      and right = "int (length (sl_items list))" and str = str and found = found and i = i] assms
  by (simp add: get_entry_index_def)


section \<open>Sorted lists: insertion and lookup\<close>

definition sl_strict :: "'u string_list \<Rightarrow> bool" where
  "sl_strict list \<longleftrightarrow> sorted_wrt (\<lambda>x y. list_cmp list x y < 0) (strings (sl_items list))"

lemma list_cmp_items [simp]: "list_cmp (list\<lparr>sl_items := items\<rparr>) = list_cmp list"
  by (simp add: list_cmp_def)

context cmp_order
begin

lemma strict_sorted_weak: "sorted_wrt (\<lambda>x y. cmp x y < 0) xs \<Longrightarrow> sorted_cmp xs"
  by (rule sorted_wrt_mono_rel) auto

lemma splits_insert:
  assumes "sorted_wrt (\<lambda>x y. cmp x y < 0) xs" and "splits cmp str xs i"
  shows "sorted_wrt (\<lambda>x y. cmp x y < 0) (take i xs @ str # drop i xs)"
proof -
  have split: "sorted_wrt (\<lambda>x y. cmp x y < 0) (take i xs @ drop i xs)" using assms(1) by simp
  have below: "cmp x str < 0" if x: "x \<in> set (take i xs)" for x
  proof -
    obtain j where "j < length (take i xs)" "take i xs ! j = x"
      using x unfolding in_set_conv_nth by blast
    then have "j < i" "x = xs ! j" by auto
    then show ?thesis using assms(2) cmp_swap unfolding splits_def by blast
  qed
  have above: "cmp str x < 0" if x: "x \<in> set (drop i xs)" for x
  proof -
    obtain j where "j < length (drop i xs)" "drop i xs ! j = x"
      using x unfolding in_set_conv_nth by blast
    then have "x = xs ! (i + j)" "i + j < length xs" by auto
    then show ?thesis using assms(2) unfolding splits_def by (metis le_add1)
  qed
  show ?thesis using split below above unfolding sorted_wrt_append by auto
qed

lemma splits_absent: "splits cmp str xs i \<Longrightarrow> x \<in> set xs \<Longrightarrow> cmp str x \<noteq> 0"
  unfolding splits_def by (metis in_set_conv_nth less_irrefl not_le)

lemma strict_sorted_hit:
  "sorted_wrt (\<lambda>x y. cmp x y < 0) xs \<Longrightarrow> i < length xs \<Longrightarrow> j < length xs \<Longrightarrow>
     cmp str (xs ! i) = 0 \<Longrightarrow> cmp str (xs ! j) = 0 \<Longrightarrow> i = j"
  by (metis cmp_eq_trans cmp_zero_swap less_irrefl nat_neq_iff strict_sorted_nth)

end

lemma strict_entry_cases:
  assumes "cmp_order (list_cmp list)" and "sl_strict list"
  obtains (present) i where "get_entry_index list str = (True, int i)" "i < length (sl_items list)"
      "list_cmp list str (strings (sl_items list) ! i) = 0"
    | (absent) i where "get_entry_index list str = (False, int i)" "i \<le> length (sl_items list)"
      "splits (list_cmp list) str (strings (sl_items list)) i"
proof -
  obtain found k where entry: "get_entry_index list str = (found, k)" by fastforce
  have "sorted_wrt (\<lambda>x y. list_cmp list x y \<le> 0) (strings (sl_items list))"
    using cmp_order.strict_sorted_weak [OF assms(1)] assms(2) unfolding sl_strict_def by blast
  from get_entry_index_spec [OF assms(1) this entry]
  show thesis using entry present [of "nat k"] absent [of "nat k"]
    by (cases found) (auto simp: splits_def nat_less_iff)
qed

lemma insert_present:
  "get_entry_index list str = (True, int i) \<Longrightarrow> string_list_insert list str = (list, i)"
  by (simp add: string_list_insert_def add_entry_def)

lemma insert_absent:
  "get_entry_index list str = (False, int i) \<Longrightarrow>
     string_list_insert list str =
       (list\<lparr>sl_items := take i (sl_items list) @ \<lparr>si_string = str, si_util = None\<rparr> # drop i (sl_items list)\<rparr>, i)"
  by (simp add: string_list_insert_def add_entry_def)

lemma string_list_insert_spec:
  assumes "cmp_order (list_cmp list)" and "sl_strict list" and "string_list_insert list str = (list', i)"
  shows "sl_strict list'" "list_cmp list' = list_cmp list" "i < length (sl_items list')"
    "list_cmp list str (strings (sl_items list') ! i) = 0"
    "if string_list_has_string list str then list' = list
     else sl_items list' = take i (sl_items list) @ \<lparr>si_string = str, si_util = None\<rparr> # drop i (sl_items list)"
proof -
  have "sl_strict list' \<and> list_cmp list' = list_cmp list \<and> i < length (sl_items list') \<and>
    list_cmp list str (strings (sl_items list') ! i) = 0 \<and>
    (if string_list_has_string list str then list' = list
     else sl_items list' = take i (sl_items list) @ \<lparr>si_string = str, si_util = None\<rparr> # drop i (sl_items list))"
    using assms(1,2)
  proof (cases rule: strict_entry_cases [where str = str])
    case (present k)
    then show ?thesis using assms(2,3) insert_present [OF present(1)]
      by (auto simp: string_list_has_string_def)
  next
    case (absent k)
    have "sorted_wrt (\<lambda>x y. list_cmp list x y < 0) (take k (strings (sl_items list)) @ str # drop k (strings (sl_items list)))"
      using cmp_order.splits_insert [OF assms(1)] assms(2) absent(3) unfolding sl_strict_def by blast
    then show ?thesis using assms(1,3) insert_absent [OF absent(1)] absent(1,2)
      by (auto simp: string_list_has_string_def sl_strict_def take_map drop_map nth_append
          cmp_order.cmp_refl)
  qed
  then show "sl_strict list'" "list_cmp list' = list_cmp list" "i < length (sl_items list')"
    "list_cmp list str (strings (sl_items list') ! i) = 0"
    "if string_list_has_string list str then list' = list
     else sl_items list' = take i (sl_items list) @ \<lparr>si_string = str, si_util = None\<rparr> # drop i (sl_items list)"
    by blast+
qed

lemma string_list_lookup_Some:
  assumes "cmp_order (list_cmp list)" and "sl_strict list"
  shows "string_list_lookup list str = Some i \<longleftrightarrow>
    i < length (sl_items list) \<and> list_cmp list str (strings (sl_items list) ! i) = 0"
  using assms
proof (cases rule: strict_entry_cases [where str = str])
  case (present k)
  then show ?thesis
    using cmp_order.strict_sorted_hit [OF assms(1), of "strings (sl_items list)" k i str] assms(2)
    by (auto simp: string_list_lookup_def sl_strict_def)
next
  case (absent k)
  then show ?thesis
    using cmp_order.splits_absent [OF assms(1) absent(3)]
    by (auto simp: string_list_lookup_def)
qed


section \<open>A sorted list with utils is a table\<close>

text \<open>How the callers of \<^verbatim>\<open>string-list.h\<close> keep a map: \<open>string_list_insert(...)->util = v\<close>.\<close>

definition set_util :: "'u string_list \<Rightarrow> string \<Rightarrow> 'u \<Rightarrow> 'u string_list" where
  "set_util list str v =
     (let (list, i) = string_list_insert list str
      in list\<lparr>sl_items := (sl_items list)[i := (sl_items list ! i)\<lparr>si_util := Some v\<rparr>]\<rparr>)"

definition get_util :: "'u string_list \<Rightarrow> string \<Rightarrow> 'u option" where
  "get_util list str =
     (case string_list_lookup list str of None \<Rightarrow> None | Some i \<Rightarrow> si_util (sl_items list ! i))"

definition table_list :: "'u string_list \<Rightarrow> bool" where
  "table_list list \<longleftrightarrow> sl_cmp list = None \<and> sl_strict list"

lemma table_list_cmp: "table_list list \<Longrightarrow> list_cmp list = strcmp"
  by (simp add: table_list_def list_cmp_def)

lemma table_list_strict: "table_list list \<Longrightarrow> sorted_wrt (\<lambda>x y. strcmp x y < 0) (strings (sl_items list))"
  unfolding table_list_def sl_strict_def list_cmp_def by (metis option.case(1))

lemma table_list_order: "table_list list \<Longrightarrow> cmp_order (list_cmp list)"
  using strcmp.cmp_order_axioms by (simp add: table_list_cmp)

lemma get_util_Some:
  assumes "table_list list"
  shows "get_util list str = Some v \<longleftrightarrow>
    (\<exists>i < length (sl_items list). strings (sl_items list) ! i = str \<and> si_util (sl_items list ! i) = Some v)"
proof -
  have hit: "string_list_lookup list str = Some i \<longleftrightarrow> i < length (sl_items list) \<and> strings (sl_items list) ! i = str" for i
  proof -
    have "sl_strict list" using assms by (simp add: table_list_def)
    from string_list_lookup_Some [OF table_list_order [OF assms] this]
    show ?thesis unfolding table_list_cmp [OF assms] by (metis strcmp_zero)
  qed
  show ?thesis
  proof (cases "string_list_lookup list str")
    case None
    then show ?thesis unfolding get_util_def by (metis hit option.case(1) option.distinct(1))
  next
    case (Some k)
    then show ?thesis unfolding get_util_def by (metis hit option.case(2) option.inject)
  qed
qed

lemma table_list_unique:
  "table_list list \<Longrightarrow> i < length (sl_items list) \<Longrightarrow> j < length (sl_items list) \<Longrightarrow>
     strings (sl_items list) ! i = strings (sl_items list) ! j \<Longrightarrow> i = j"
proof -
  assume *: "table_list list" "i < length (sl_items list)" "j < length (sl_items list)"
    "strings (sl_items list) ! i = strings (sl_items list) ! j"
  then have "distinct (strings (sl_items list))"
    using strcmp.strict_sorted_distinct table_list_strict by blast
  with * show "i = j" by (metis length_map nth_eq_iff_index_eq)
qed


lemma get_util_Some_iff:
  "table_list list \<Longrightarrow>
     get_util list str = Some v \<longleftrightarrow> (\<exists>item \<in> set (sl_items list). si_string item = str \<and> si_util item = Some v)"
  by (simp add: get_util_Some set_conv_nth Bex_def conj_ac cong: conj_cong) blast

lemma set_update_other: "i < length xs \<Longrightarrow> set (xs[i := y]) = insert y ((!) xs ` ({..<length xs} - {i}))"
  by (auto simp: set_conv_nth nth_list_update image_iff)

lemma set_util_insert:
  assumes "table_list list" and "string_list_insert list str = (list', i)"
  shows "table_list list'" "i < length (sl_items list')" "si_string (sl_items list' ! i) = str"
    "str' \<noteq> str \<Longrightarrow> get_util list' str' = get_util list str'"
proof -
  have "sl_strict list" using assms(1) by (simp add: table_list_def)
  note spec = string_list_insert_spec [OF table_list_order [OF assms(1)] this assms(2)]
  have items: "list' = list \<or>
    sl_items list' = take i (sl_items list) @ \<lparr>si_string = str, si_util = None\<rparr> # drop i (sl_items list)"
    using spec(5) by presburger
  have "sl_cmp list' = None"
    using assms by (auto simp: string_list_insert_def add_entry_def table_list_def Let_def
        split: prod.splits if_splits)
  then show table: "table_list list'" using spec(1) by (simp add: table_list_def)
  show "i < length (sl_items list')" by (rule spec(3))
  then show "si_string (sl_items list' ! i) = str"
    using spec(4) by (simp add: table_list_cmp [OF assms(1)] strcmp_zero)
  assume "str' \<noteq> str"
  from items show "get_util list' str' = get_util list str'"
  proof
    assume new: "sl_items list' = take i (sl_items list) @ \<lparr>si_string = str, si_util = None\<rparr> # drop i (sl_items list)"
    have "set (sl_items list) = set (take i (sl_items list)) \<union> set (drop i (sl_items list))"
      by (metis append_take_drop_id set_append)
    with new have "set (sl_items list') = insert \<lparr>si_string = str, si_util = None\<rparr> (set (sl_items list))"
      by auto
    then have "get_util list' str' = Some v \<longleftrightarrow> get_util list str' = Some v" for v
      by (simp add: get_util_Some_iff assms(1) table)
    then show ?thesis by (metis not_None_eq)
  qed simp
qed

lemma set_util_table:
  assumes "table_list list"
  shows "table_list (set_util list str v)"
    and "get_util (set_util list str v) str' = (if str' = str then Some v else get_util list str')"
proof -
  obtain list' i where ins: "string_list_insert list str = (list', i)" by fastforce
  note ins_facts = set_util_insert [OF assms ins]
  let ?new = "(sl_items list' ! i)\<lparr>si_util := Some v\<rparr>"
  have items: "set_util list str v = list'\<lparr>sl_items := (sl_items list')[i := ?new]\<rparr>"
    by (simp add: set_util_def ins)
  have "strings ((sl_items list')[i := ?new]) = strings (sl_items list')"
    by (simp add: map_update) (metis length_map list_update_id nth_map list_update_beyond not_le)
  then show table: "table_list (set_util list str v)"
    using ins_facts(1) by (simp add: items table_list_def sl_strict_def)
  have hit: "get_util (set_util list str v) str' = Some w \<longleftrightarrow>
    (if str' = str then w = v else get_util list' str' = Some w)" for w
  proof -
    have "get_util (set_util list str v) str' = Some w \<longleftrightarrow> (str' = str \<and> w = v) \<or>
      (\<exists>j < length (sl_items list'). j \<noteq> i \<and> si_string (sl_items list' ! j) = str' \<and> si_util (sl_items list' ! j) = Some w)"
      unfolding get_util_Some_iff [OF table] using ins_facts(2,3)
      by (simp add: items set_update_other) blast
    moreover have "j = i" if "j < length (sl_items list')" "si_string (sl_items list' ! j) = str" for j
      using table_list_unique [OF ins_facts(1), of j i] ins_facts(2,3) that by simp
    ultimately show ?thesis
      unfolding get_util_Some [OF ins_facts(1)] using ins_facts(3) by auto
  qed
  show "get_util (set_util list str v) str' = (if str' = str then Some v else get_util list str')"
    using hit ins_facts(4) by (metis not_None_eq)
qed

interpretation string_table: key_table "string_list_init True" table_list get_util set_util "\<lambda>_. True"
proof (unfold_locales, goal_cases)
  case 1
  then show ?case by (simp add: string_list_init_def table_list_def sl_strict_def)
next
  case (2 k)
  then show ?case
    by (simp add: string_list_init_def get_util_def string_list_lookup_def get_entry_index_def entry_loop.simps)
next
  case (3 s k v)
  then show ?case by (simp add: set_util_table(1))
next
  case (4 s k k' v)
  then show ?case by (simp add: set_util_table(2))
qed


section \<open>Duplicates\<close>

lemma dedup_loop_strings:
  assumes "dst \<noteq> []" and "\<And>x y. cmp x y = 0 \<longleftrightarrow> x = y"
  shows "strings (dedup_loop cmp dst src) =
    butlast (strings dst) @ remdups_adj (last (strings dst) # strings src)"
  using assms
proof (induction cmp dst src rule: dedup_loop.induct)
  case (1 cmp dst)
  then show ?case by simp
next
  case (2 cmp dst item src)
  have dst: "strings dst = butlast (strings dst) @ [last (strings dst)]" and
    last: "si_string (last dst) = last (strings dst)"
    using 2(3) append_butlast_last_id [of "strings dst"] by (auto simp: last_map)
  show ?case
  proof (cases "last (strings dst) = si_string item")
    case True
    then show ?thesis using 2(1) 2(3,4) last by simp
  next
    case False
    then show ?thesis using 2(2) 2(3,4) last dst by simp
  qed
qed

lemma remove_duplicates_strings:
  assumes "\<And>x y. list_cmp list x y = 0 \<longleftrightarrow> x = y"
  shows "strings (sl_items (string_list_remove_duplicates list)) = remdups_adj (strings (sl_items list))"
proof (cases "sl_items list")
  case (Cons item items)
  then show ?thesis
    using dedup_loop_strings [OF _ assms, of "[item]" items]
    by (cases "items = []") (simp_all add: string_list_remove_duplicates_def del: dedup_loop.simps)
qed (simp add: string_list_remove_duplicates_def)

lemma remdups_adj_strict:
  assumes "cmp_strict cmp" and "sorted_wrt (\<lambda>x y. cmp x y \<le> 0) xs"
  shows "sorted_wrt (\<lambda>x y. cmp x y < 0) (remdups_adj xs)"
  using assms(2)
proof (induction xs rule: remdups_adj.induct)
  case (3 x y xs)
  have ord: "cmp_order cmp" using assms(1) by (simp add: cmp_strict_def)
  show ?case
  proof (cases "x = y")
    case False
    have "cmp x z < 0" if "z \<in> set (y # xs)" for z
    proof -
      have "cmp x y < 0"
        using 3(3) False cmp_strict.cmp_zero_iff [OF assms(1), of x y] by (simp add: order_less_le)
      moreover have "cmp y z \<le> 0" using 3(3) that cmp_order.cmp_refl [OF ord] by auto
      ultimately show ?thesis by (rule cmp_order.cmp_less_le_trans [OF ord])
    qed
    then show ?thesis using 3 False by simp
  qed (use 3 in simp)
qed simp_all

text \<open>The first item of each string.\<close>

definition by_string :: "'u string_list_item list \<Rightarrow> (string \<times> 'u string_list_item) list" where
  "by_string items = map (\<lambda>item. (si_string item, item)) items"

lemma map_of_by_string:
  "map_of (by_string items) str = (case filter (\<lambda>item. str = si_string item) items of [] \<Rightarrow> None | item # _ \<Rightarrow> Some item)"
  by (induction items) (auto simp: by_string_def)

lemma dedup_loop_first:
  assumes "dst \<noteq> []" and "\<And>x y. cmp x y = 0 \<longleftrightarrow> x = y"
  shows "map_of (by_string (dedup_loop cmp dst src)) = map_of (by_string (dst @ src))"
  using assms
proof (induction cmp dst src rule: dedup_loop.induct)
  case (2 cmp dst item src)
  have "map_of (by_string (dst @ item # src)) = map_of (by_string (dst @ src))"
    if "si_string (last dst) = si_string item"
  proof -
    have "filter (\<lambda>i. si_string item = si_string i) dst \<noteq> []"
      using 2(3) that by (auto simp: filter_empty_conv intro!: bexI [of _ "last dst"])
    then obtain z zs where "filter (\<lambda>i. si_string item = si_string i) dst = z # zs"
      by (cases "filter (\<lambda>i. si_string item = si_string i) dst") auto
    then show ?thesis by (auto simp: map_of_by_string fun_eq_iff)
  qed
  then show ?case using 2 by simp
qed simp

lemma remove_duplicates_first:
  assumes "\<And>x y. list_cmp list x y = 0 \<longleftrightarrow> x = y"
  shows "map_of (by_string (sl_items (string_list_remove_duplicates list))) = map_of (by_string (sl_items list))"
  using dedup_loop_first [OF _ assms, of "[hd (sl_items list)]" "tl (sl_items list)"]
  by (cases "sl_items list") (simp_all add: string_list_remove_duplicates_def del: dedup_loop.simps)

lemma remove_duplicates_cmp: "list_cmp (string_list_remove_duplicates list) = list_cmp list"
  by (simp add: string_list_remove_duplicates_def)

lemma string_list_sort_sorted:
  assumes "cmp_order (list_cmp list)"
  shows "sorted_wrt (\<lambda>x y. list_cmp list x y \<le> 0) (strings (sl_items (string_list_sort list)))"
  using cmp_order.msort_with_tmp_sorts [OF cmp_order_by [OF assms, of si_string], of "sl_items list"]
  by (simp add: string_list_sort_def git_qsort_def sorted_wrt_map)

lemma string_list_sort_first:
  assumes "sl_cmp list = None"
  shows "map_of (by_string (sl_items (string_list_sort list))) = map_of (by_string (sl_items list))"
proof
  fix str
  have cmp: "list_cmp list = strcmp" using assms by (simp add: list_cmp_def)
  have "filter (\<lambda>y. strcmp (si_string (\<lparr>si_string = str, si_util = None\<rparr> :: 'a string_list_item)) (si_string y) = 0)
        (msort_with_tmp (\<lambda>x y. strcmp (si_string x) (si_string y)) (sl_items list)) =
      filter (\<lambda>y. strcmp (si_string (\<lparr>si_string = str, si_util = None\<rparr> :: 'a string_list_item)) (si_string y) = 0) (sl_items list)"
    using cmp_order.msort_with_tmp_sorts [OF cmp_order_by [OF strcmp.cmp_order_axioms, of si_string], of "sl_items list"]
    by blast
  then show "map_of (by_string (sl_items (string_list_sort list))) str = map_of (by_string (sl_items list)) str"
    by (simp add: map_of_by_string string_list_sort_def git_qsort_def cmp strcmp_zero)
qed

section \<open>Splitting\<close>

fun joined :: "char \<Rightarrow> string list \<Rightarrow> string" where
  "joined delim [] = []"
| "joined delim [p] = p"
| "joined delim (p # ps) = p @ delim # joined delim ps"

lemma joined_Cons: "ps \<noteq> [] \<Longrightarrow> joined delim (p # ps) = p @ delim # joined delim ps"
  by (cases ps) auto

lemma takeWhile_tl_dropWhile: "d \<in> set p \<Longrightarrow> takeWhile (\<lambda>c. c \<noteq> d) p @ d # tl (dropWhile (\<lambda>c. c \<noteq> d) p) = p"
  by (induction p) auto

lemma split_loop_spec:
  "maxsplit < 0 \<or> cnt \<le> maxsplit \<Longrightarrow>
   split_loop list p delim maxsplit cnt = (list', n) \<Longrightarrow>
   \<exists>ps. strings (sl_items list') = strings (sl_items list) @ ps \<and> n = cnt + int (length ps) \<and> ps \<noteq> [] \<and>
     joined delim ps = p \<and> (\<forall>q \<in> set (butlast ps). delim \<notin> set q) \<and>
     (if maxsplit < 0 \<or> n \<le> maxsplit then delim \<notin> set (last ps) else n = maxsplit + 1)"
proof (induction list p delim maxsplit cnt rule: split_loop.induct)
  case (1 list p delim maxsplit cnt)
  consider "maxsplit \<ge> 0" "cnt + 1 > maxsplit"
    | "\<not> (maxsplit \<ge> 0 \<and> cnt + 1 > maxsplit)" "delim \<in> set p"
    | "\<not> (maxsplit \<ge> 0 \<and> cnt + 1 > maxsplit)" "delim \<notin> set p" by blast
  then show ?case
  proof cases
    case 2
    let ?q = "takeWhile (\<lambda>c. c \<noteq> delim) p" and ?rest = "tl (dropWhile (\<lambda>c. c \<noteq> delim) p)"
    have "split_loop list p delim maxsplit cnt =
        split_loop (string_list_append list ?q) ?rest delim maxsplit (cnt + 1)"
      by (subst split_loop.simps) (simp only: Let_def if_not_P [OF 2(1)] if_P [OF 2(2)])
    with 1(3) have "split_loop (string_list_append list ?q) ?rest delim maxsplit (cnt + 1) = (list', n)" by simp
    from 1(1) [OF refl 2 _ this] 2(1) obtain ps
      where ps: "strings (sl_items list') = strings (sl_items (string_list_append list ?q)) @ ps"
        "n = cnt + 1 + int (length ps)" "ps \<noteq> []" "joined delim ps = ?rest"
        "\<forall>q \<in> set (butlast ps). delim \<notin> set q"
        "if maxsplit < 0 \<or> n \<le> maxsplit then delim \<notin> set (last ps) else n = maxsplit + 1"
      by auto
    have "delim \<notin> set ?q" by (auto dest: set_takeWhileD)
    with ps takeWhile_tl_dropWhile [OF 2(2)] show ?thesis
      by (intro exI [of _ "?q # ps"]) (auto simp: string_list_append_def joined_Cons)
  qed (use 1(2,3) in \<open>auto simp: split_loop.simps [of list] Let_def string_list_append_def intro!: exI [of _ "[p]"]\<close>)
qed


lemma length_joined: "length (joined d ps) = length (joined e ps)"
  by (induction d ps rule: joined.induct) (auto simp: joined_Cons)

lemma split_in_place_loop_spec:
  "maxsplit < 0 \<or> cnt \<le> maxsplit \<Longrightarrow>
   split_in_place_loop list pre p delim maxsplit cnt = (list', n, buf) \<Longrightarrow>
   split_loop list p delim maxsplit cnt = (list', n) \<and>
     (\<exists>ps. ps \<noteq> [] \<and> strings (sl_items list') = strings (sl_items list) @ ps \<and> joined delim ps = p \<and>
       buf = pre @ joined NUL ps)"
proof (induction list pre p delim maxsplit cnt rule: split_in_place_loop.induct)
  case (1 list pre p delim maxsplit cnt)
  consider "maxsplit \<ge> 0 \<and> cnt + 1 > maxsplit"
    | "\<not> (maxsplit \<ge> 0 \<and> cnt + 1 > maxsplit)" "delim \<in> set p"
    | "\<not> (maxsplit \<ge> 0 \<and> cnt + 1 > maxsplit)" "delim \<notin> set p" by blast
  then show ?case
  proof cases
    case 1
    then show ?thesis using "1.prems"(2)
      by (auto simp: split_loop.simps [of list] split_in_place_loop.simps [of list] Let_def string_list_append_def
          intro!: exI [of _ "[p]"])
  next
    case 2
    let ?q = "takeWhile (\<lambda>c. c \<noteq> delim) p" and ?rest = "tl (dropWhile (\<lambda>c. c \<noteq> delim) p)"
    have step: "split_loop list p delim maxsplit cnt =
        split_loop (string_list_append list ?q) ?rest delim maxsplit (cnt + 1)"
      by (subst split_loop.simps) (simp only: Let_def if_not_P [OF 2(1)] if_P [OF 2(2)])
    have "split_in_place_loop list pre p delim maxsplit cnt =
        split_in_place_loop (string_list_append list ?q) (pre @ ?q @ [NUL]) ?rest delim maxsplit (cnt + 1)"
      by (subst split_in_place_loop.simps) (simp only: Let_def if_not_P [OF 2(1)] if_P [OF 2(2)])
    with "1.prems"(2) have "split_in_place_loop (string_list_append list ?q) (pre @ ?q @ [NUL]) ?rest delim maxsplit (cnt + 1) =
        (list', n, buf)" by simp
    from "1.IH" [OF refl 2 refl _ this] 2(1) obtain ps
      where ps: "split_loop (string_list_append list ?q) ?rest delim maxsplit (cnt + 1) = (list', n)" "ps \<noteq> []"
        "strings (sl_items list') = strings (sl_items (string_list_append list ?q)) @ ps"
        "joined delim ps = ?rest" "buf = (pre @ ?q @ [NUL]) @ joined NUL ps"
      by auto
    with step takeWhile_tl_dropWhile [OF 2(2)] show ?thesis
      by (intro conjI exI [of _ "?q # ps"]) (auto simp: string_list_append_def joined_Cons)
  next
    case 3
    then show ?thesis using "1.prems"(2)
      by (auto simp: split_loop.simps [of list] split_in_place_loop.simps [of list] Let_def string_list_append_def
          intro!: exI [of _ "[p]"])
  qed
qed

lemma split_pieces:
  assumes "sl_dup list" and "string_list_split list str delim maxsplit = Some (list', n)"
  shows "\<exists>ps. strings (sl_items list') = strings (sl_items list) @ ps \<and> n = int (length ps) \<and> joined delim ps = str \<and>
     (\<forall>q \<in> set (butlast ps). delim \<notin> set q) \<and>
     (if maxsplit < 0 \<or> n \<le> maxsplit then delim \<notin> set (last ps) else n = maxsplit + 1)"
proof -
  have "maxsplit < 0 \<or> 0 \<le> maxsplit" by linarith
  moreover have "split_loop list str delim maxsplit 0 = (list', n)"
    using assms by (simp add: string_list_split_def)
  ultimately have "\<exists>ps. strings (sl_items list') = strings (sl_items list) @ ps \<and> n = 0 + int (length ps) \<and> ps \<noteq> [] \<and>
     joined delim ps = str \<and> (\<forall>q \<in> set (butlast ps). delim \<notin> set q) \<and>
     (if maxsplit < 0 \<or> n \<le> maxsplit then delim \<notin> set (last ps) else n = maxsplit + 1)"
    by (rule split_loop_spec)
  then show ?thesis unfolding add_0 by blast
qed

section \<open>Properties\<close>

text \<open>C20: on a sorted list \<open>string_list_insert\<close> returns the item of the string, adds
  it (without a util, in its place) exactly when \<open>string_list_has_string\<close> says that it is not
  there, and keeps the list sorted and without duplicates; any comparison that is an order will do.\<close>

theorem sorted_insert:
  assumes "cmp_order (list_cmp list)" and "sl_strict list" and "string_list_insert list str = (list', i)"
  shows "sl_strict list' \<and> i < length (sl_items list') \<and>
    list_cmp list' str (si_string (sl_items list' ! i)) = 0 \<and> string_list_lookup list' str = Some i \<and>
    (if string_list_has_string list str then list' = list
     else sl_items list' = take i (sl_items list) @ \<lparr>si_string = str, si_util = None\<rparr> # drop i (sl_items list))"
  using string_list_insert_spec [OF assms] string_list_lookup_Some [of list' str i] assms(1) by simp

lemma sorted_insert_witness:
  "let list = string_list_append (string_list_append (string_list_init True) ''ab'') ''c'' :: nat string_list;
       (list', i) = string_list_insert list ''b''
   in strings (sl_items list') = [''ab'', ''b'', ''c''] \<and> i = 1 \<and> sl_strict list' \<and>
      string_list_lookup list' ''b'' = Some i"
proof -
  let ?l = "string_list_append (string_list_append (string_list_init True) ''ab'') ''c'' :: nat string_list"
  obtain l i where run: "string_list_insert ?l ''b'' = (l, i)" by fastforce
  have "i = snd (string_list_insert ?l ''b'')" "strings (sl_items l) = strings (sl_items (fst (string_list_insert ?l ''b'')))"
    using run by simp_all
  moreover have "snd (string_list_insert ?l ''b'') = 1"
    "strings (sl_items (fst (string_list_insert ?l ''b''))) = [''ab'', ''b'', ''c'']" by code_simp+
  moreover have "cmp_order (list_cmp ?l)"
    by (simp add: list_cmp_def string_list_append_def string_list_init_def strcmp.cmp_order_axioms)
  moreover have "sl_strict ?l" by code_simp
  ultimately show ?thesis using sorted_insert [OF _ _ run] run by (simp add: Let_def)
qed

text \<open>C19: storing key after key in an empty sorted list and then looking a key up
  returns what was stored last under it, and nothing for a key never stored.\<close>

theorem sorted_list_is_map:
  "get_util (foldl (\<lambda>list (k, v). set_util list k v) (string_list_init True) kvs) k = map_of (rev kvs) k"
  by (rule string_table.lookup_filled) simp_all

text \<open>Lemma sort_and_dedup: sorting a list and removing its duplicates leaves each string once, in
  increasing order; the items that stay are the first ones of their string.\<close>

theorem sort_and_dedup:
  assumes "sl_cmp list = None"
  shows "(let list' = string_list_remove_duplicates (string_list_sort list)
    in sl_strict list' \<and> map_of (by_string (sl_items list')) = map_of (by_string (sl_items list)))"
proof -
  have cmp: "list_cmp (list\<lparr>sl_items := items\<rparr>) = strcmp" for items using assms by (simp add: list_cmp_def)
  have zero: "list_cmp (string_list_sort list) x y = 0 \<longleftrightarrow> x = y" for x y
    by (simp add: string_list_sort_def cmp strcmp_zero del: list_cmp_items)
  have cmp': "list_cmp (string_list_remove_duplicates (string_list_sort list)) = strcmp"
    using cmp by (simp add: remove_duplicates_cmp string_list_sort_def)
  have "sorted_wrt (\<lambda>x y. strcmp x y \<le> 0) (strings (sl_items (string_list_sort list)))"
    using string_list_sort_sorted [of list] cmp [of "sl_items list"] strcmp.cmp_order_axioms by simp
  then have "sl_strict (string_list_remove_duplicates (string_list_sort list))"
    unfolding sl_strict_def cmp' remove_duplicates_strings [of "string_list_sort list", OF zero]
    by (rule remdups_adj_strict [OF strcmp.cmp_strict_axioms])
  then show ?thesis
    using remove_duplicates_first [of "string_list_sort list", OF zero] string_list_sort_first [OF assms]
    by (simp add: Let_def)
qed

lemma sort_and_dedup_witness:
  "map si_util (sl_items (string_list_remove_duplicates (string_list_sort
     \<lparr>sl_items = [\<lparr>si_string = ''b'', si_util = Some (1 :: nat)\<rparr>, \<lparr>si_string = ''a'', si_util = Some 2\<rparr>,
        \<lparr>si_string = ''b'', si_util = Some 3\<rparr>], sl_dup = True, sl_cmp = None\<rparr>))) = [Some 2, Some 1] \<and>
   sl_strict (string_list_remove_duplicates (string_list_sort
     \<lparr>sl_items = [\<lparr>si_string = ''b'', si_util = Some (1 :: nat)\<rparr>, \<lparr>si_string = ''a'', si_util = Some 2\<rparr>,
        \<lparr>si_string = ''b'', si_util = Some 3\<rparr>], sl_dup = True, sl_cmp = None\<rparr>))"
  (is "?util \<and> _")
proof
  show ?util by code_simp
qed (use sort_and_dedup [of "\<lparr>sl_items = [\<lparr>si_string = ''b'', si_util = Some (1 :: nat)\<rparr>,
  \<lparr>si_string = ''a'', si_util = Some 2\<rparr>, \<lparr>si_string = ''b'', si_util = Some 3\<rparr>], sl_dup = True, sl_cmp = None\<rparr>"]
  in \<open>simp add: Let_def\<close>)

text \<open>C34: the strings that \<open>string_list_split\<close> appends are the pieces between
  the delimiters: joining them again gives the string, there are as many as the returned number, none
  but the last contains a delimiter, and the last one only when the limit was reached. Splitting in
  place appends the same pieces and overwrites exactly the delimiters between them.\<close>

theorem split_round_trip:
  "sl_dup list \<Longrightarrow> string_list_split list str delim maxsplit = Some (list', n) \<Longrightarrow>
   \<exists>ps. strings (sl_items list') = strings (sl_items list) @ ps \<and> n = int (length ps) \<and> joined delim ps = str \<and>
     (\<forall>q \<in> set (butlast ps). delim \<notin> set q) \<and>
     (if maxsplit < 0 \<or> n \<le> maxsplit then delim \<notin> set (last ps) else n = maxsplit + 1)"
  by (rule split_pieces)

lemma split_round_trip_witness:
  "map_option (\<lambda>(list, n). (strings (sl_items list), n))
     (string_list_split (string_list_init True :: nat string_list) ''a:b:c'' CHR '':'' 1) = Some ([''a'', ''b:c''], 2) \<and>
   (\<exists>ps. [''a'', ''b:c''] = [] @ ps \<and> joined CHR '':'' ps = ''a:b:c'')"
proof -
  let ?run = "string_list_split (string_list_init True :: nat string_list) ''a:b:c'' CHR '':'' 1"
  have out: "map_option (\<lambda>(list, n). (strings (sl_items list), n)) ?run = Some ([''a'', ''b:c''], 2)"
    by code_simp
  then obtain list n where run: "?run = Some (list, n)" "strings (sl_items list) = [''a'', ''b:c'']" by auto
  then show ?thesis
    using split_round_trip [OF _ run(1)] out by (simp add: string_list_init_def)
qed

text \<open>Lemma split_in_place_same: splitting in place appends the same strings as splitting into copies and
  returns the same number, and in the buffer the delimiters between the pieces, and nothing else,
  are overwritten by NULs.\<close>

theorem split_in_place_same:
  "\<not> sl_dup list \<Longrightarrow> string_list_split_in_place list str delim maxsplit = Some (list', n, buf) \<Longrightarrow>
   split_loop list str delim maxsplit 0 = (list', n) \<and>
   (\<exists>ps. strings (sl_items list') = strings (sl_items list) @ ps \<and> joined delim ps = str \<and> buf = joined NUL ps)"
  using split_in_place_loop_spec [of maxsplit 0 list "[]" str delim list' n buf] linorder_not_less [of maxsplit 0]
  by (auto simp: string_list_split_in_place_def)

lemma split_in_place_same_witness:
  "map_option (\<lambda>(list, n, buf). (strings (sl_items list), n, buf))
     (string_list_split_in_place (string_list_init False :: nat string_list) ''a:b:c'' CHR '':'' (-1)) =
     Some ([''a'', ''b'', ''c''], 3, [CHR ''a'', NUL, CHR ''b'', NUL, CHR ''c'']) \<and>
   snd (split_loop (string_list_init False :: nat string_list) ''a:b:c'' CHR '':'' (-1) 0) = 3"
proof -
  let ?run = "string_list_split_in_place (string_list_init False :: nat string_list) ''a:b:c'' CHR '':'' (-1)"
  have out: "map_option (\<lambda>(list, n, buf). (strings (sl_items list), n, buf)) ?run =
      Some ([''a'', ''b'', ''c''], 3, [CHR ''a'', NUL, CHR ''b'', NUL, CHR ''c''])"
    by code_simp
  then obtain list n buf where run: "?run = Some (list, n, buf)" "n = 3" by auto
  then show ?thesis
    using split_in_place_same [OF _ run(1)] out by (simp add: string_list_init_def)
qed

end
