(* ===== verification/Prio_Queue.thy ===== *)
theory Prio_Queue
  imports Compare
begin

text \<open>
  \<^verbatim>\<open>prio-queue.c\<close>: a binary heap in an array, ordered by a caller's comparison and, between
  equal elements, by the order of insertion; with no comparison it is a LIFO stack. Git walks
  history with it. \<open>array\<close> is the live prefix \<open>array[0 .. nr)\<close> of the C array, so
  \<open>nr\<close> is its length; the capacity \<open>alloc\<close> is followed on its own, by \<open>alloc_grow\<close>. The indices are \<open>int\<close>s in the code and
  numbers here, which is the same up to \<open>2 ^ 30\<close> elements.
\<close>

section \<open>The data and the operations\<close>

record 'a prio_queue_entry =
  pq_ctr :: u32
  pq_data :: 'a

record ('a, 'c) prio_queue =
  pq_compare :: "('a \<Rightarrow> 'a \<Rightarrow> 'c \<Rightarrow> int) option"
  insertion_ctr :: u32
  cb_data :: 'c
  pq_array :: "'a prio_queue_entry list"

abbreviation pq_nr :: "('a, 'c) prio_queue \<Rightarrow> nat" where
  "pq_nr q \<equiv> length (pq_array q)"

text \<open>
  \<open>entry_cmp\<close> is the static function \<open>compare\<close> on two entries: the subtraction of the two
  unsigned counters wraps and is read back as an \<open>int\<close>.
\<close>

definition entry_cmp ::
  "('a \<Rightarrow> 'a \<Rightarrow> int) \<Rightarrow> 'a prio_queue_entry \<Rightarrow> 'a prio_queue_entry \<Rightarrow> int" where
  "entry_cmp cmp x y =
     (let c = cmp (pq_data x) (pq_data y) in if c = 0 then sint (pq_ctr x - pq_ctr y) else c)"

text \<open>The loop of \<open>prio_queue_put\<close>: bubble up the new entry.\<close>

function bubble_up :: "('e \<Rightarrow> 'e \<Rightarrow> int) \<Rightarrow> 'e list \<Rightarrow> nat \<Rightarrow> 'e list" where
  "bubble_up cmp arr ix =
     (if ix = 0 then arr
      else let parent = (ix - 1) div 2 in
        if cmp (arr ! parent) (arr ! ix) \<le> 0 then arr
        else bubble_up cmp (swap_at arr parent ix) parent)"
  by pat_completeness auto
termination
  by (relation "measure (\<lambda>(_, _, ix). ix)") auto

text \<open>The loop of \<open>prio_queue_get\<close>: push down the entry at the root.\<close>

definition smaller_child :: "('e \<Rightarrow> 'e \<Rightarrow> int) \<Rightarrow> 'e list \<Rightarrow> nat \<Rightarrow> nat" where
  "smaller_child cmp arr ix =
     (let child = ix * 2 + 1 in
      if child + 1 < length arr \<and> 0 \<le> cmp (arr ! child) (arr ! (child + 1)) then child + 1
      else child)"

function push_down :: "('e \<Rightarrow> 'e \<Rightarrow> int) \<Rightarrow> 'e list \<Rightarrow> nat \<Rightarrow> 'e list" where
  "push_down cmp arr ix =
     (if ix * 2 + 1 < length arr then
        let child = smaller_child cmp arr ix in
        if cmp (arr ! ix) (arr ! child) \<le> 0 then arr
        else push_down cmp (swap_at arr child ix) child
      else arr)"
  by pat_completeness auto
termination
  by (relation "measure (\<lambda>(_, arr, ix). length arr - ix)")
     (auto simp: smaller_child_def Let_def)

declare bubble_up.simps [simp del] push_down.simps [simp del]

definition prio_queue_put :: "('a, 'c) prio_queue \<Rightarrow> 'a \<Rightarrow> ('a, 'c) prio_queue" where
  "prio_queue_put queue thing =
     (let queue = queue\<lparr>pq_array := pq_array queue @ [\<lparr>pq_ctr = insertion_ctr queue, pq_data = thing\<rparr>],
                        insertion_ctr := insertion_ctr queue + 1\<rparr>
      in case pq_compare queue of
           None \<Rightarrow> queue
         | Some cmp \<Rightarrow>
             queue\<lparr>pq_array := bubble_up (entry_cmp (\<lambda>x y. cmp x y (cb_data queue)))
                              (pq_array queue) (pq_nr queue - 1)\<rparr>)"

definition prio_queue_get ::
  "('a, 'c) prio_queue \<Rightarrow> 'a option \<times> ('a, 'c) prio_queue" where
  "prio_queue_get queue =
     (if pq_nr queue = 0 then (None, queue)
      else case pq_compare queue of
        None \<Rightarrow> (Some (pq_data (last (pq_array queue))), queue\<lparr>pq_array := butlast (pq_array queue)\<rparr>)
      | Some cmp \<Rightarrow>
          let result = pq_data (pq_array queue ! 0);
              final = last (pq_array queue);
              rest = butlast (pq_array queue)
          in if rest = [] then (Some result, queue\<lparr>pq_array := rest\<rparr>)
             else (Some result,
               queue\<lparr>pq_array := push_down (entry_cmp (\<lambda>x y. cmp x y (cb_data queue)))
                                (rest[0 := final]) 0\<rparr>))"

definition clear_prio_queue :: "('a, 'c) prio_queue \<Rightarrow> ('a, 'c) prio_queue" where
  "clear_prio_queue queue = queue\<lparr>pq_array := [], insertion_ctr := 0\<rparr>"

text \<open>\<open>prio_queue_reverse\<close> dies on a queue with a comparison; here that is \<open>None\<close>.\<close>

function reverse_loop :: "'e list \<Rightarrow> int \<Rightarrow> 'e list" where
  "reverse_loop arr i =
     (let j = (int (length arr) - 1) - i in
      if 0 \<le> i \<and> i \<le> j then reverse_loop (swap_at arr (nat i) (nat j)) (i + 1) else arr)"
  by pat_completeness auto
termination
  by (relation "measure (\<lambda>(arr, i). nat (int (length arr) - i))") auto

declare reverse_loop.simps [simp del]

definition prio_queue_reverse :: "('a, 'c) prio_queue \<Rightarrow> ('a, 'c) prio_queue option" where
  "prio_queue_reverse queue =
     (if pq_compare queue \<noteq> None then None
      else Some (queue\<lparr>pq_array := reverse_loop (pq_array queue) 0\<rparr>))"

section \<open>Heaps\<close>

definition parent_ix :: "nat \<Rightarrow> nat" where
  "parent_ix i = (i - 1) div 2"

lemma parent_ix_less: "0 < i \<Longrightarrow> parent_ix i < i"
  by (simp add: parent_ix_def)

lemma parent_ix_children: "0 < i \<Longrightarrow> parent_ix i = k \<longleftrightarrow> i = k * 2 + 1 \<or> i = k * 2 + 2"
  by (auto simp: parent_ix_def)

text \<open>
  \<open>heap_but\<close> is the heap condition with a hole: every slot but those in \<open>A\<close> is in order with
  its parent, and the children of the slot \<open>ix\<close> are in order with its parent.
\<close>

definition is_heap :: "('e \<Rightarrow> 'e \<Rightarrow> int) \<Rightarrow> 'e list \<Rightarrow> bool" where
  "is_heap cmp arr \<longleftrightarrow>
     (\<forall>i. 0 < i \<and> i < length arr \<longrightarrow> cmp (arr ! parent_ix i) (arr ! i) \<le> 0)"

definition heap_but :: "('e \<Rightarrow> 'e \<Rightarrow> int) \<Rightarrow> 'e list \<Rightarrow> (nat \<Rightarrow> bool) \<Rightarrow> nat \<Rightarrow> bool" where
  "heap_but cmp arr A ix \<longleftrightarrow>
     (\<forall>i. 0 < i \<and> i < length arr \<and> \<not> A i \<longrightarrow> cmp (arr ! parent_ix i) (arr ! i) \<le> 0) \<and>
     (0 < ix \<longrightarrow> (\<forall>i. 0 < i \<and> i < length arr \<and> parent_ix i = ix \<longrightarrow>
        cmp (arr ! parent_ix ix) (arr ! i) \<le> 0))"

lemma mset_bubble_up: "ix < length arr \<Longrightarrow> mset (bubble_up cmp arr ix) = mset arr"
proof (induction cmp arr ix rule: bubble_up.induct)
  case (1 cmp arr ix)
  have "(ix - 1) div 2 \<le> ix" by linarith
  with 1 show ?case
    by (subst bubble_up.simps) (auto simp: Let_def mset_swap_at)
qed

lemma length_bubble_up: "ix < length arr \<Longrightarrow> length (bubble_up cmp arr ix) = length arr"
  by (metis mset_bubble_up size_mset)

lemma smaller_child_bounds:
  "ix * 2 + 1 < length arr \<Longrightarrow>
     ix < smaller_child cmp arr ix \<and> smaller_child cmp arr ix < length arr \<and>
     parent_ix (smaller_child cmp arr ix) = ix"
  by (auto simp: smaller_child_def Let_def parent_ix_def)

lemma mset_push_down: "mset (push_down cmp arr ix) = mset arr"
proof (induction cmp arr ix rule: push_down.induct)
  case (1 cmp arr ix)
  show ?case
  proof (cases "ix * 2 + 1 < length arr")
    case True
    with 1 smaller_child_bounds [OF True, of cmp] show ?thesis
      by (subst push_down.simps) (auto simp: Let_def mset_swap_at)
  qed (simp add: push_down.simps)
qed

lemma length_push_down: "length (push_down cmp arr ix) = length arr"
  by (metis mset_push_down size_mset)

context cmp_order begin

lemma bubble_step:
  assumes "heap_but cmp arr (\<lambda>i. i = ix) ix" and "0 < ix" and "ix < length arr"
    and up: "\<not> cmp (arr ! parent_ix ix) (arr ! ix) \<le> 0"
  shows "heap_but cmp (swap_at arr (parent_ix ix) ix) (\<lambda>i. i = parent_ix ix) (parent_ix ix)"
proof -
  let ?p = "parent_ix ix"
  note p = parent_ix_less [OF assms(2)]
  from up have le: "cmp (arr ! ix) (arr ! ?p) \<le> 0" by (rule cmp_le_swap)
  have heap: "cmp (arr ! parent_ix i) (arr ! i) \<le> 0"
    if "0 < i" "i < length arr" "i \<noteq> ix" for i
    using assms(1) that by (simp add: heap_but_def)
  have grand: "cmp (arr ! ?p) (arr ! i) \<le> 0" if "0 < i" "i < length arr" "parent_ix i = ix" for i
    using assms(1,2) that by (simp add: heap_but_def)
  have "cmp (swap_at arr ?p ix ! parent_ix i) (swap_at arr ?p ix ! i) \<le> 0"
    if i: "0 < i" "i < length arr" "i \<noteq> ?p" for i
    using i p assms(2,3) le heap [of i] grand [of i] parent_ix_less [OF i(1)]
      cmp_trans [OF le, of "arr ! i"]
    by (auto simp: nth_swap_at)
  moreover have "cmp (swap_at arr ?p ix ! parent_ix ?p) (swap_at arr ?p ix ! i) \<le> 0"
    if i: "0 < ?p" "0 < i" "i < length arr" "parent_ix i = ?p" for i
    using i p assms(2,3) heap [of ?p] heap [of i] parent_ix_less [OF i(1)]
      cmp_trans [of "arr ! parent_ix ?p" "arr ! ?p" "arr ! i"] parent_ix_less [OF i(2)]
    by (auto simp: nth_swap_at)
  ultimately show ?thesis by (simp add: heap_but_def)
qed

lemma bubble_up_heap:
  "heap_but cmp arr (\<lambda>i. i = ix) ix \<Longrightarrow> ix < length arr \<Longrightarrow> is_heap cmp (bubble_up cmp arr ix)"
proof (induction ix arbitrary: arr rule: less_induct)
  case (less ix)
  consider "ix = 0" | "0 < ix" "cmp (arr ! parent_ix ix) (arr ! ix) \<le> 0"
    | "0 < ix" "\<not> cmp (arr ! parent_ix ix) (arr ! ix) \<le> 0" by blast
  then show ?case
  proof cases
    case 3
    with less.prems have "heap_but cmp (swap_at arr (parent_ix ix) ix) (\<lambda>i. i = parent_ix ix) (parent_ix ix)"
      by (intro bubble_step)
    then have "is_heap cmp (bubble_up cmp (swap_at arr (parent_ix ix) ix) (parent_ix ix))"
      using less.prems(2) parent_ix_less [OF 3(1)] by (intro less.IH) auto
    with 3 show ?thesis
      by (subst bubble_up.simps) (simp add: parent_ix_def Let_def)
  qed (use less.prems in \<open>auto simp: bubble_up.simps parent_ix_def is_heap_def heap_but_def\<close>)
qed

lemma smaller_child_le:
  assumes "0 < i" "i < length arr" "parent_ix i = ix"
  shows "cmp (arr ! smaller_child cmp arr ix) (arr ! i) \<le> 0"
  using parent_ix_children [OF assms(1), of ix] assms cmp_swap [of "arr ! (ix*2+1)" "arr ! (ix*2+2)"]
  by (auto simp: smaller_child_def Let_def not_le split: if_splits)

lemma push_step:
  assumes but: "heap_but cmp arr (\<lambda>i. parent_ix i = ix) ix"
    and c: "c = smaller_child cmp arr ix" and child: "ix * 2 + 1 < length arr"
    and down: "\<not> cmp (arr ! ix) (arr ! c) \<le> 0"
  shows "heap_but cmp (swap_at arr c ix) (\<lambda>i. parent_ix i = c) c"
proof -
  note b = smaller_child_bounds [OF child, of cmp, folded c]
  from down have le: "cmp (arr ! c) (arr ! ix) \<le> 0" by (rule cmp_le_swap)
  have heap: "cmp (arr ! parent_ix i) (arr ! i) \<le> 0"
    if "0 < i" "i < length arr" "parent_ix i \<noteq> ix" for i
    using but that by (simp add: heap_but_def)
  have grand: "cmp (arr ! parent_ix ix) (arr ! i) \<le> 0"
    if "0 < ix" "0 < i" "i < length arr" "parent_ix i = ix" for i
    using but that by (simp add: heap_but_def)
  have "cmp (swap_at arr c ix ! parent_ix i) (swap_at arr c ix ! i) \<le> 0"
    if i: "0 < i" "i < length arr" "parent_ix i \<noteq> c" for i
    using i b le heap [of i] grand [of c] parent_ix_less [OF i(1)] smaller_child_le [of i arr ix]
    by (auto simp: nth_swap_at c)
  moreover have "cmp (swap_at arr c ix ! parent_ix c) (swap_at arr c ix ! i) \<le> 0"
    if i: "0 < i" "i < length arr" "parent_ix i = c" for i
    using i b heap [of i] parent_ix_less [OF i(1)] by (auto simp: nth_swap_at)
  ultimately show ?thesis by (simp add: heap_but_def)
qed

lemma push_down_heap:
  "heap_but cmp arr (\<lambda>i. parent_ix i = ix) ix \<Longrightarrow> is_heap cmp (push_down cmp arr ix)"
proof (induction "length arr - ix" arbitrary: arr ix rule: less_induct)
  case less
  let ?c = "smaller_child cmp arr ix"
  consider "\<not> ix * 2 + 1 < length arr"
    | "ix * 2 + 1 < length arr" "cmp (arr ! ix) (arr ! ?c) \<le> 0"
    | "ix * 2 + 1 < length arr" "\<not> cmp (arr ! ix) (arr ! ?c) \<le> 0" by blast
  then show ?case
  proof cases
    case 1
    then have "parent_ix i \<noteq> ix" if "0 < i" "i < length arr" for i
      using that parent_ix_children [of i ix] by auto
    with 1 less.prems show ?thesis
      by (simp add: push_down.simps is_heap_def heap_but_def)
  next
    case 2
    have "cmp (arr ! parent_ix i) (arr ! i) \<le> 0" if "0 < i" "i < length arr" for i
      using that less.prems cmp_trans [OF 2(2) smaller_child_le [of i arr ix]]
      by (cases "parent_ix i = ix") (auto simp: heap_but_def)
    with 2 show ?thesis
      by (subst push_down.simps) (simp add: Let_def is_heap_def)
  next
    case 3
    from smaller_child_bounds [OF 3(1), of cmp]
    have "length (swap_at arr ?c ix) - ?c < length arr - ix" by auto
    then have "is_heap cmp (push_down cmp (swap_at arr ?c ix) ?c)"
      using less.prems 3 by (intro less.hyps push_step) auto
    with 3 show ?thesis
      by (subst push_down.simps) (simp add: Let_def)
  qed
qed

text \<open>The root of a heap is a minimum.\<close>

lemma heap_root_le:
  "is_heap cmp arr \<Longrightarrow> i < length arr \<Longrightarrow> cmp (arr ! 0) (arr ! i) \<le> 0"
proof (induction i rule: less_induct)
  case (less i)
  show ?case
  proof (cases "i = 0")
    case False
    then have "parent_ix i < i" by (intro parent_ix_less) simp
    with less have "cmp (arr ! 0) (arr ! parent_ix i) \<le> 0" by auto
    moreover have "cmp (arr ! parent_ix i) (arr ! i) \<le> 0"
      using less.prems False by (simp add: is_heap_def)
    ultimately show ?thesis by (rule cmp_trans)
  qed simp
qed

text \<open>Appending leaves a hole at the new slot, replacing the root one at the root.\<close>

lemma heap_append:
  "is_heap cmp arr \<Longrightarrow> is_heap cmp (bubble_up cmp (arr @ [x]) (length arr))"
proof (rule bubble_up_heap)
  assume "is_heap cmp arr"
  moreover have "parent_ix i < length arr" if "0 < i" "i < length arr + 1" for i
    using that parent_ix_less [of i] by linarith
  moreover have "parent_ix i \<noteq> length arr" if "0 < i" "i < length arr + 1" for i
    using that parent_ix_less [of i] by linarith
  ultimately show "heap_but cmp (arr @ [x]) (\<lambda>i. i = length arr) (length arr)"
    by (auto simp: heap_but_def is_heap_def nth_append)
qed simp

lemma heap_replace_root:
  "is_heap cmp arr \<Longrightarrow> is_heap cmp (push_down cmp ((butlast arr)[0 := x]) 0)"
proof (rule push_down_heap)
  assume heap: "is_heap cmp arr"
  have "cmp ((butlast arr)[0 := x] ! parent_ix i) ((butlast arr)[0 := x] ! i) \<le> 0"
    if "0 < i" "i < length arr - 1" "parent_ix i \<noteq> 0" for i
    using heap that parent_ix_less [of i] by (auto simp: is_heap_def nth_butlast)
  then show "heap_but cmp ((butlast arr)[0 := x]) (\<lambda>i. parent_ix i = 0) 0"
    by (simp add: heap_but_def)
qed

end

section \<open>The abstract queue\<close>

text \<open>
  What the queue promises, on the list of its elements in the order of insertion: \<open>put\<close>
  appends, \<open>get\<close> takes the first of the smallest elements, and a LIFO queue takes the last.
\<close>

fun pick_min :: "('a \<Rightarrow> 'a \<Rightarrow> int) \<Rightarrow> 'a list \<Rightarrow> ('a \<times> 'a list) option" where
  "pick_min cmp [] = None"
| "pick_min cmp (x # xs) =
     (case pick_min cmp xs of
        None \<Rightarrow> Some (x, xs)
      | Some (y, ys) \<Rightarrow> if cmp x y \<le> 0 then Some (x, xs) else Some (y, x # ys))"

definition pick_last :: "'a list \<Rightarrow> ('a \<times> 'a list) option" where
  "pick_last xs = (if xs = [] then None else Some (last xs, butlast xs))"

lemma pick_min_None [simp]: "pick_min cmp xs = None \<longleftrightarrow> xs = []"
  by (cases xs) (auto split: option.splits)

lemma pick_min_length: "pick_min cmp xs = Some (y, ys) \<Longrightarrow> length xs = Suc (length ys)"
  by (induction xs arbitrary: y ys) (auto split: option.splits if_splits)

lemma pick_min_mset: "pick_min cmp xs = Some (y, ys) \<Longrightarrow> mset xs = add_mset y (mset ys)"
  by (induction xs arbitrary: y ys) (auto split: option.splits if_splits)

context cmp_order begin

lemma pick_min_le:
  "pick_min cmp xs = Some (y, ys) \<Longrightarrow> z \<in> set xs \<Longrightarrow> cmp y z \<le> 0"
proof (induction xs arbitrary: y ys)
  case (Cons x xs)
  show ?case
  proof (cases "pick_min cmp xs")
    case None
    with Cons.prems show ?thesis by simp
  next
    case (Some p)
    then obtain w ws where w: "pick_min cmp xs = Some (w, ws)" by (cases p) auto
    show ?thesis
    proof (cases "cmp x w \<le> 0")
      case True
      with Cons.prems w Cons.IH [OF w] cmp_trans [OF True] show ?thesis by auto
    next
      case False
      with Cons.prems w Cons.IH [OF w] cmp_le_swap [OF False] show ?thesis by auto
    qed
  qed
qed simp

text \<open>The element taken is the first of those that compare equal to it.\<close>

lemma pick_min_app:
  assumes "\<And>u. u \<in> set us \<Longrightarrow> cmp x u < 0" and "\<And>v. v \<in> set vs \<Longrightarrow> cmp x v \<le> 0"
  shows "pick_min cmp (us @ x # vs) = Some (x, us @ vs)"
  using assms(1)
proof (induction us)
  case Nil
  show ?case
  proof (cases "pick_min cmp vs")
    case (Some p)
    then have "fst p \<in> set vs"
      using pick_min_mset [of cmp vs "fst p" "snd p"] by (metis prod.collapse set_mset_mset union_single_eq_member)
    with Some show ?thesis using assms(2) by (auto split: prod.splits)
  qed simp
next
  case (Cons u us)
  then have "\<not> cmp u x \<le> 0" using cmp_swap [of x u] by simp
  with Cons show ?case by simp
qed

lemma pick_min_filter:
  assumes "pick_min cmp xs = Some (y, ys)"
  shows "filter (\<lambda>z. cmp k z = 0) xs = (if cmp k y = 0 then [y] else []) @ filter (\<lambda>z. cmp k z = 0) ys"
  using assms
proof (induction xs arbitrary: y ys)
  case (Cons x xs)
  show ?case
  proof (cases "pick_min cmp xs")
    case None
    with Cons.prems show ?thesis by auto
  next
    case (Some p)
    then obtain w ws where w: "pick_min cmp xs = Some (w, ws)" by (cases p) auto
    have "cmp k x \<noteq> 0 \<or> cmp k w \<noteq> 0" if "\<not> cmp x w \<le> 0"
      using that cmp_eq_trans [of x k w] cmp_zero_swap [of k x] by auto
    with Cons.prems w Cons.IH [OF w] show ?thesis by (auto split: if_splits)
  qed
qed simp

end

section \<open>The interface\<close>

text \<open>
  A stable priority queue over a comparison. \<open>elems\<close> lists the elements in the order they
  were put, \<open>room\<close> is the number of further elements the queue takes: the C queue numbers its
  elements with an \<open>unsigned\<close> that must not pass \<open>INT_MAX\<close>.
\<close>

locale stable_queue = cmp_order cmp for cmp :: "'a \<Rightarrow> 'a \<Rightarrow> int" +
  fixes put :: "'q \<Rightarrow> 'a \<Rightarrow> 'q"
    and get :: "'q \<Rightarrow> 'a option \<times> 'q"
    and elems :: "'q \<Rightarrow> 'a list"
    and valid :: "'q \<Rightarrow> bool"
    and room :: "'q \<Rightarrow> nat"
  assumes put_valid: "valid q \<Longrightarrow> 0 < room q \<Longrightarrow> valid (put q x)"
    and put_elems: "valid q \<Longrightarrow> 0 < room q \<Longrightarrow> elems (put q x) = elems q @ [x]"
    and put_room: "valid q \<Longrightarrow> 0 < room q \<Longrightarrow> room (put q x) = room q - 1"
    and get_valid: "valid q \<Longrightarrow> valid (snd (get q))"
    and get_elems: "valid q \<Longrightarrow>
          (case get q of (None, q') \<Rightarrow> elems q = [] \<and> q' = q
           | (Some x, q') \<Rightarrow> pick_min cmp (elems q) = Some (x, elems q'))"

text \<open>The loop of a client that empties the queue, one \<open>get\<close> at a time, with fuel.\<close>

fun dump :: "('q \<Rightarrow> 'a option \<times> 'q) \<Rightarrow> nat \<Rightarrow> 'q \<Rightarrow> 'a list option" where
  "dump get 0 q = None"
| "dump get (Suc fuel) q =
     (case get q of (None, _) \<Rightarrow> Some [] | (Some x, q') \<Rightarrow> map_option ((#) x) (dump get fuel q'))"

fun pick_all :: "('a \<Rightarrow> 'a \<Rightarrow> int) \<Rightarrow> nat \<Rightarrow> 'a list \<Rightarrow> 'a list" where
  "pick_all cmp 0 xs = []"
| "pick_all cmp (Suc n) xs =
     (case pick_min cmp xs of None \<Rightarrow> [] | Some (y, ys) \<Rightarrow> y # pick_all cmp n ys)"

context cmp_order begin

lemma pick_all_mset: "length xs \<le> n \<Longrightarrow> mset (pick_all cmp n xs) = mset xs"
proof (induction n arbitrary: xs)
  case (Suc n)
  then show ?case
    using pick_min_mset [of cmp xs] pick_min_length [of cmp xs]
    by (auto split: option.splits)
qed simp

lemma pick_all_sorted:
  "length xs \<le> n \<Longrightarrow> sorted_wrt (\<lambda>x y. cmp x y \<le> 0) (pick_all cmp n xs)"
proof (induction n arbitrary: xs)
  case (Suc n)
  show ?case
  proof (cases "pick_min cmp xs")
    case (Some p)
    then obtain y ys where y: "pick_min cmp xs = Some (y, ys)" by (cases p) auto
    have len: "length ys \<le> n" using pick_min_length [OF y] Suc.prems by simp
    have "set (pick_all cmp n ys) \<subseteq> set xs"
      using pick_min_mset [OF y] pick_all_mset [OF len]
      by (metis set_mset_mset set_mset_add_mset_insert subset_insertI)
    with y len Suc.IH pick_min_le [OF y] show ?thesis by auto
  qed simp
qed simp

lemma pick_all_stable:
  "length xs \<le> n \<Longrightarrow> filter (\<lambda>z. cmp k z = 0) (pick_all cmp n xs) = filter (\<lambda>z. cmp k z = 0) xs"
proof (induction n arbitrary: xs)
  case (Suc n)
  then show ?case
    using pick_min_length [of cmp xs] pick_min_filter [of xs _ _ k]
    by (auto split: option.splits)
qed simp

end

context stable_queue begin

lemma get_Some: "valid q \<Longrightarrow> get q = (Some x, q') \<Longrightarrow> pick_min cmp (elems q) = Some (x, elems q') \<and> valid q'"
  using get_elems [of q] get_valid [of q] by simp

lemma get_None: "valid q \<Longrightarrow> get q = (None, q') \<Longrightarrow> elems q = [] \<and> q' = q"
  using get_elems [of q] by simp

lemma dump_pick_all:
  "valid q \<Longrightarrow> length (elems q) < fuel \<Longrightarrow>
     dump get fuel q = Some (pick_all cmp (length (elems q)) (elems q))"
proof (induction fuel arbitrary: q)
  case (Suc fuel)
  show ?case
  proof (cases "fst (get q)")
    case None
    with Suc.prems get_None [of q "snd (get q)"] show ?thesis
      by (cases "get q") auto
  next
    case (Some x)
    define q' where "q' = snd (get q)"
    with Some have g: "get q = (Some x, q')" by (metis prod.collapse)
    note p = get_Some [OF Suc.prems(1) g]
    with pick_min_length [of cmp "elems q" x "elems q'"] Suc.prems Suc.IH [of q']
    show ?thesis by (simp add: g)
  qed
qed simp

lemma dump_sorts:
  assumes "valid q" and "length (elems q) < fuel"
  shows "\<exists>ys. dump get fuel q = Some ys \<and> mset ys = mset (elems q) \<and>
           sorted_wrt (\<lambda>x y. cmp x y \<le> 0) ys \<and>
           (\<forall>k. filter (\<lambda>z. cmp k z = 0) ys = filter (\<lambda>z. cmp k z = 0) (elems q))"
  using dump_pick_all [OF assms] pick_all_mset pick_all_sorted pick_all_stable by simp

end

section \<open>The heap keeps the promise\<close>

text \<open>
  The counters are only compared through a wrapping subtraction, so the order they give is the
  order of insertion while fewer than \<open>2^31\<close> elements have been put. \<open>entry_order\<close> is the
  comparison without the wrap-around.
\<close>

definition entry_order ::
  "('a \<Rightarrow> 'a \<Rightarrow> int) \<Rightarrow> 'a prio_queue_entry \<Rightarrow> 'a prio_queue_entry \<Rightarrow> int" where
  "entry_order cmp x y =
     (let c = cmp (pq_data x) (pq_data y) in if c = 0 then int (unat (pq_ctr x)) - int (unat (pq_ctr y)) else c)"

lemma signed_take_bit_diff:
  "(m :: nat) < 2 ^ 31 \<Longrightarrow> (n :: nat) < 2 ^ 31 \<Longrightarrow> signed_take_bit 31 (int m - int n) = int m - int n"
  by (rule signed_take_bit_int_eq_self) auto

lemma sint_diff_small:
  fixes a b :: u32
  assumes "unat a < 2 ^ 31" and "unat b < 2 ^ 31"
  shows "sint (a - b) = int (unat a) - int (unat b)"
proof -
  have "a - b = word_of_int (int (unat a) - int (unat b))"
    by (simp only: word_sub_wi uint_nat)
  then have "sint (a - b) = signed_take_bit 31 (int (unat a) - int (unat b))"
    by (simp only: sint_sbintrunc') simp
  also have "\<dots> = int (unat a) - int (unat b)"
    using assms by (rule signed_take_bit_diff)
  finally show ?thesis .
qed

lemma entry_cmp_small:
  "unat (pq_ctr x) < 2 ^ 31 \<Longrightarrow> unat (pq_ctr y) < 2 ^ 31 \<Longrightarrow> entry_cmp cmp x y = entry_order cmp x y"
  unfolding entry_cmp_def entry_order_def by (subst sint_diff_small) auto

lemma bubble_up_cong:
  "ix < length arr \<Longrightarrow> (\<And>x y. x \<in> set arr \<Longrightarrow> y \<in> set arr \<Longrightarrow> f x y = g x y) \<Longrightarrow>
     bubble_up f arr ix = bubble_up g arr ix"
proof (induction ix arbitrary: arr rule: less_induct)
  case (less ix)
  show ?case
  proof (cases "ix = 0")
    case False
    let ?p = "(ix - 1) div 2"
    have p: "?p < ix" using False by linarith
    then have "f (arr ! ?p) (arr ! ix) = g (arr ! ?p) (arr ! ix)"
      using less.prems by auto
    moreover have "bubble_up f (swap_at arr ?p ix) ?p = bubble_up g (swap_at arr ?p ix) ?p"
      using p less.prems by (intro less.IH) (auto simp: set_swap_at)
    ultimately show ?thesis
      by (subst (1 2) bubble_up.simps) (simp add: Let_def)
  qed (simp add: bubble_up.simps)
qed

lemma push_down_cong:
  "(\<And>x y. x \<in> set arr \<Longrightarrow> y \<in> set arr \<Longrightarrow> f x y = g x y) \<Longrightarrow>
     push_down f arr ix = push_down g arr ix"
proof (induction "length arr - ix" arbitrary: arr ix rule: less_induct)
  case less
  show ?case
  proof (cases "ix * 2 + 1 < length arr")
    case True
    have "f (arr ! (ix * 2 + 1)) (arr ! (ix * 2 + 1 + 1)) = g (arr ! (ix * 2 + 1)) (arr ! (ix * 2 + 1 + 1))"
      if "ix * 2 + 1 + 1 < length arr"
      using that less.prems by simp
    then have same: "smaller_child f arr ix = smaller_child g arr ix"
      by (auto simp: smaller_child_def Let_def)
    let ?c = "smaller_child g arr ix"
    note c = smaller_child_bounds [OF True, of g]
    have "f (arr ! ix) (arr ! ?c) = g (arr ! ix) (arr ! ?c)"
      using c less.prems by auto
    moreover have "push_down f (swap_at arr ?c ix) ?c = push_down g (swap_at arr ?c ix) ?c"
      using c less.prems by (intro less.hyps) (auto simp: set_swap_at)
    ultimately show ?thesis
      by (subst (1 2) push_down.simps) (simp add: Let_def same)
  qed (simp add: push_down.simps)
qed

context cmp_order begin

lemma entry_order_cmp: "cmp_order (entry_order cmp)"
proof unfold_locales
  show "entry_order cmp x y < 0 \<longleftrightarrow> 0 < entry_order cmp y x" for x y
    using cmp_swap [of "pq_data x" "pq_data y"] cmp_zero_swap [of "pq_data x" "pq_data y"]
    by (auto simp: entry_order_def Let_def)
  show "entry_order cmp x z \<le> 0" if "entry_order cmp x y \<le> 0" "entry_order cmp y z \<le> 0" for x y z
    using that cmp_less_trans [of "pq_data x" "pq_data y" "pq_data z"] cmp_eq_trans [of "pq_data x" "pq_data y" "pq_data z"]
      cmp_less_le_trans [of "pq_data x" "pq_data y" "pq_data z"] cmp_le_less_trans [of "pq_data x" "pq_data y" "pq_data z"]
    by (auto simp: entry_order_def Let_def split: if_splits)
qed

end

text \<open>
  The invariant of a queue: its comparison is an order, its counters are distinct and below the
  next one, no counter has passed \<open>INT_MAX\<close>, and the array is a heap.
\<close>

definition queue_cmp :: "('a, 'c) prio_queue \<Rightarrow> 'a \<Rightarrow> 'a \<Rightarrow> int" where
  "queue_cmp q = (case pq_compare q of None \<Rightarrow> (\<lambda>_ _. 0) | Some c \<Rightarrow> (\<lambda>x y. c x y (cb_data q)))"

abbreviation ctr_nat :: "'a prio_queue_entry \<Rightarrow> nat" where
  "ctr_nat e \<equiv> unat (pq_ctr e)"

definition queue_ok :: "('a, 'c) prio_queue \<Rightarrow> bool" where
  "queue_ok q \<longleftrightarrow>
     unat (insertion_ctr q) \<le> 2 ^ 31 \<and>
     (\<forall>e \<in> set (pq_array q). ctr_nat e < unat (insertion_ctr q)) \<and>
     distinct (map pq_ctr (pq_array q)) \<and>
     (pq_compare q \<noteq> None \<longrightarrow> cmp_order (queue_cmp q) \<and> is_heap (entry_order (queue_cmp q)) (pq_array q))"

text \<open>The elements of a queue in the order of insertion; of a LIFO queue, from the bottom up.\<close>

definition queue_elems :: "('a, 'c) prio_queue \<Rightarrow> 'a list" where
  "queue_elems q =
     map pq_data (if pq_compare q = None then pq_array q else sort_key ctr_nat (pq_array q))"

definition queue_room :: "('a, 'c) prio_queue \<Rightarrow> nat" where
  "queue_room q = 2 ^ 31 - unat (insertion_ctr q)"

lemma queue_ok_small:
  "queue_ok q \<Longrightarrow> e \<in> set (pq_array q) \<Longrightarrow> ctr_nat e < 2 ^ 31"
  by (fastforce simp: queue_ok_def)

lemma next_ctr:
  "queue_ok q \<Longrightarrow> 0 < queue_room q \<Longrightarrow> unat (insertion_ctr q + 1) = unat (insertion_ctr q) + 1"
  by (simp add: queue_room_def unat_word_ariths)

lemma inj_on_ctr: "distinct (map pq_ctr es) \<Longrightarrow> inj_on ctr_nat (set es)"
  by (auto simp: distinct_map inj_on_def word_unat_eq_iff)

lemma distinct_ctr: "distinct (map pq_ctr es) \<Longrightarrow> distinct (map ctr_nat es)"
  using inj_on_ctr by (auto simp: distinct_map)

text \<open>Entries in the order of insertion, split at one of them.\<close>

lemma sort_ctr_split:
  assumes "distinct (map pq_ctr es)" and "mset es = add_mset e (mset es')"
  shows "\<exists>us vs. sort_key ctr_nat es = us @ e # vs \<and> sort_key ctr_nat es' = us @ vs \<and>
     (\<forall>u \<in> set us. ctr_nat u < ctr_nat e) \<and> (\<forall>v \<in> set vs. ctr_nat e < ctr_nat v)"
proof -
  let ?s = "sort_key ctr_nat es"
  have "e \<in> set ?s" using assms(2) by (metis set_sort union_single_eq_member set_mset_mset)
  then obtain us vs where s: "?s = us @ e # vs" by (meson split_list)
  have "mset (map ctr_nat es) = mset (map ctr_nat (us @ e # vs))"
    using s by (metis mset_map mset_sort)
  then have "distinct (map ctr_nat (us @ e # vs))"
    using distinct_ctr [OF assms(1)] by (metis mset_eq_imp_distinct_iff)
  moreover have sorted: "sorted (map ctr_nat (us @ e # vs))"
    using sorted_sort_key [of ctr_nat es] s by simp
  ultimately have strict: "sorted_wrt (<) (map ctr_nat (us @ e # vs))"
    by (simp only: strict_sorted_iff)
  have "mset (us @ e # vs) = add_mset e (mset es')"
    using assms(2) s by (metis mset_sort)
  then have "mset es' = mset (us @ vs)" by simp
  moreover have "inj_on ctr_nat (set es')"
    using inj_on_ctr [OF assms(1)] assms(2) by (metis inj_on_subset set_mset_add_mset_insert set_mset_mset subset_insertI)
  moreover have "sorted (map ctr_nat (us @ vs))"
    using sorted by (auto simp: sorted_append)
  ultimately have "sort_key ctr_nat es' = us @ vs"
    by (rule sort_key_unique)
  moreover have "\<forall>u \<in> set us. ctr_nat u < ctr_nat e" "\<forall>v \<in> set vs. ctr_nat e < ctr_nat v"
    using strict by (auto simp: sorted_wrt_append)
  ultimately show ?thesis using s by blast
qed

subsection \<open>put\<close>

lemma put_fields [simp]:
  "pq_compare (prio_queue_put q x) = pq_compare q" "cb_data (prio_queue_put q x) = cb_data q"
  "insertion_ctr (prio_queue_put q x) = insertion_ctr q + 1"
  by (simp_all add: prio_queue_put_def Let_def split: option.splits)

lemma queue_cmp_put [simp]: "queue_cmp (prio_queue_put q x) = queue_cmp q"
  by (cases "pq_compare q") (simp_all add: queue_cmp_def)

abbreviation new_entry :: "('a, 'c) prio_queue \<Rightarrow> 'a \<Rightarrow> 'a prio_queue_entry" where
  "new_entry q x \<equiv> \<lparr>pq_ctr = insertion_ctr q, pq_data = x\<rparr>"

lemma array_put_heap:
  assumes "queue_ok q" and "0 < queue_room q" and "pq_compare q \<noteq> None"
  shows "pq_array (prio_queue_put q x) =
           bubble_up (entry_order (queue_cmp q)) (pq_array q @ [new_entry q x]) (pq_nr q)"
proof -
  have "pq_array (prio_queue_put q x) =
          bubble_up (entry_cmp (queue_cmp q)) (pq_array q @ [new_entry q x]) (pq_nr q)"
    using assms(3) by (auto simp: prio_queue_put_def queue_cmp_def Let_def)
  also have "\<dots> = bubble_up (entry_order (queue_cmp q)) (pq_array q @ [new_entry q x]) (pq_nr q)"
    using queue_ok_small [OF assms(1)] assms(2)
    by (intro bubble_up_cong entry_cmp_small) (auto simp: queue_room_def)
  finally show ?thesis .
qed

lemma array_put_lifo: "pq_compare q = None \<Longrightarrow> pq_array (prio_queue_put q x) = pq_array q @ [new_entry q x]"
  by (simp add: prio_queue_put_def Let_def)

lemma mset_put:
  "queue_ok q \<Longrightarrow> 0 < queue_room q \<Longrightarrow>
     mset (pq_array (prio_queue_put q x)) = mset (pq_array q @ [new_entry q x])"
  using array_put_lifo [of q x] array_put_heap [of q x] mset_bubble_up [of "pq_nr q" "pq_array q @ [new_entry q x]"]
  by (cases "pq_compare q = None") (simp_all del: not_None_eq)

lemma queue_ok_put:
  assumes ok: "queue_ok q" and room: "0 < queue_room q"
  shows "queue_ok (prio_queue_put q x)"
proof -
  let ?a = "pq_array (prio_queue_put q x)"
  have set: "set ?a = insert (new_entry q x) (set (pq_array q))"
    using mset_put [OF ok room, of x] by (metis Un_insert_right empty_set list.simps(15) set_append set_mset_mset sup_bot.right_neutral)
  have "mset (map pq_ctr ?a) = mset (map pq_ctr (pq_array q @ [new_entry q x]))"
    using mset_put [OF ok room, of x] by simp
  then have "distinct (map pq_ctr ?a) \<longleftrightarrow> distinct (map pq_ctr (pq_array q @ [new_entry q x]))"
    by (rule mset_eq_imp_distinct_iff)
  then have dist: "distinct (map pq_ctr ?a)"
    using ok by (auto simp: queue_ok_def)
  have "is_heap (entry_order (queue_cmp q)) ?a" if "pq_compare q \<noteq> None"
    using ok that array_put_heap [OF ok room that]
      cmp_order.heap_append [OF cmp_order.entry_order_cmp, of "queue_cmp q"]
    by (simp add: queue_ok_def)
  with ok room dist set next_ctr [OF ok room] show ?thesis
    by (auto simp: queue_ok_def queue_room_def less_Suc_eq)
qed

lemma queue_elems_put:
  assumes ok: "queue_ok q" and room: "0 < queue_room q"
  shows "queue_elems (prio_queue_put q x) = queue_elems q @ [x]"
proof (cases "pq_compare q = None")
  case True
  then show ?thesis by (simp add: queue_elems_def array_put_lifo)
next
  case False
  have "distinct (map pq_ctr (pq_array (prio_queue_put q x)))"
    using queue_ok_put [OF ok room] by (simp add: queue_ok_def)
  moreover have "sorted (map ctr_nat (sort_key ctr_nat (pq_array q) @ [new_entry q x]))"
    using ok by (auto simp: sorted_append queue_ok_def less_imp_le)
  ultimately have "sort_key ctr_nat (pq_array (prio_queue_put q x)) =
      sort_key ctr_nat (pq_array q) @ [new_entry q x]"
    using mset_put [OF ok room, of x] by (intro sort_key_unique inj_on_ctr) simp_all
  with False show ?thesis by (auto simp: queue_elems_def)
qed

subsection \<open>get\<close>

lemma get_fields [simp]:
  "pq_compare (snd (prio_queue_get q)) = pq_compare q" "cb_data (snd (prio_queue_get q)) = cb_data q"
  "insertion_ctr (snd (prio_queue_get q)) = insertion_ctr q"
  by (simp_all add: prio_queue_get_def Let_def split: option.splits)

lemma queue_cmp_get [simp]: "queue_cmp (snd (prio_queue_get q)) = queue_cmp q"
  by (cases "pq_compare q") (simp_all add: queue_cmp_def)

lemma push_down_Nil: "push_down cmp [] ix = []"
  by (subst push_down.simps) simp

lemma get_heap:
  assumes ok: "queue_ok q" and "pq_array q \<noteq> []" and "pq_compare q \<noteq> None"
  shows "prio_queue_get q =
    (Some (pq_data (pq_array q ! 0)),
     q\<lparr>pq_array := push_down (entry_order (queue_cmp q)) ((butlast (pq_array q))[0 := last (pq_array q)]) 0\<rparr>)"
proof -
  have "set ((butlast (pq_array q))[0 := last (pq_array q)]) \<subseteq> insert (last (pq_array q)) (set (butlast (pq_array q)))"
    by (rule set_update_subset_insert)
  then have "x \<in> set ((butlast (pq_array q))[0 := last (pq_array q)]) \<Longrightarrow> x \<in> set (pq_array q)" for x
    using assms(2) by (auto dest: in_set_butlastD)
  then have "push_down (entry_cmp (queue_cmp q)) ((butlast (pq_array q))[0 := last (pq_array q)]) 0 =
      push_down (entry_order (queue_cmp q)) ((butlast (pq_array q))[0 := last (pq_array q)]) 0"
    using queue_ok_small [OF ok] by (intro push_down_cong entry_cmp_small) blast+
  with assms(2,3) show ?thesis
    by (auto simp: prio_queue_get_def queue_cmp_def Let_def push_down_Nil)
qed

lemma mset_replace_root:
  "xs \<noteq> [] \<Longrightarrow> mset xs = add_mset (xs ! 0) (mset ((butlast xs)[0 := last xs]))"
  by (cases xs rule: rev_cases; cases "butlast xs") (auto simp: nth_append)

text \<open>The root precedes every entry: smaller, or equal and put before it.\<close>

lemma root_first:
  assumes ok: "queue_ok q" and "pq_compare q \<noteq> None" and e: "e \<in> set (pq_array q)"
  shows "entry_order (queue_cmp q) (pq_array q ! 0) e \<le> 0"
  using assms cmp_order.heap_root_le [OF cmp_order.entry_order_cmp, of "queue_cmp q" "pq_array q"]
  by (auto simp: queue_ok_def in_set_conv_nth)

lemma get_correct:
  assumes ok: "queue_ok q" and ne: "pq_array q \<noteq> []" and some: "pq_compare q \<noteq> None"
  defines "q' \<equiv> snd (prio_queue_get q)"
  shows "queue_ok q'"
    and "pick_min (queue_cmp q) (queue_elems q) = Some (the (fst (prio_queue_get q)), queue_elems q')"
proof -
  let ?r = "pq_array q ! 0" and ?cmp = "queue_cmp q"
  have order: "cmp_order ?cmp" and heap: "is_heap (entry_order ?cmp) (pq_array q)"
    and dist: "distinct (map pq_ctr (pq_array q))"
    using ok some by (auto simp: queue_ok_def)
  have arr: "pq_array q' = push_down (entry_order ?cmp) ((butlast (pq_array q))[0 := last (pq_array q)]) 0"
    by (simp add: q'_def get_heap [OF ok ne some])
  have mset: "mset (pq_array q) = add_mset ?r (mset (pq_array q'))"
    using mset_replace_root [OF ne] by (simp add: arr mset_push_down)
  then have set: "set (pq_array q) = insert ?r (set (pq_array q'))"
    by (metis set_mset_add_mset_insert set_mset_mset)
  have "mset (map pq_ctr (pq_array q)) = mset (pq_ctr ?r # map pq_ctr (pq_array q'))"
    using mset by simp
  then have "distinct (pq_ctr ?r # map pq_ctr (pq_array q'))"
    using dist mset_eq_imp_distinct_iff by blast
  moreover have "is_heap (entry_order ?cmp) (pq_array q')"
    using cmp_order.heap_replace_root [OF cmp_order.entry_order_cmp [OF order] heap] by (simp add: arr)
  ultimately show "queue_ok q'"
    using ok set by (auto simp: queue_ok_def q'_def)
  obtain us vs where s: "sort_key ctr_nat (pq_array q) = us @ ?r # vs"
      "sort_key ctr_nat (pq_array q') = us @ vs"
    and us: "\<forall>u \<in> set us. ctr_nat u < ctr_nat ?r" and vs: "\<forall>v \<in> set vs. ctr_nat ?r < ctr_nat v"
    using sort_ctr_split [OF dist mset] by blast
  have in_arr: "e \<in> set us \<or> e \<in> set vs \<Longrightarrow> e \<in> set (pq_array q)" for e
    using s(1) by (metis Un_iff set_append set_sort list.set_intros(2))
  have "?cmp (pq_data ?r) (pq_data u) < 0" if "u \<in> set us" for u
    using root_first [OF ok some in_arr] that us by (fastforce simp: entry_order_def Let_def split: if_splits)
  moreover have "?cmp (pq_data ?r) (pq_data v) \<le> 0" if "v \<in> set vs" for v
    using root_first [OF ok some in_arr] that by (fastforce simp: entry_order_def Let_def split: if_splits)
  ultimately have "pick_min ?cmp (map pq_data us @ pq_data ?r # map pq_data vs) = Some (pq_data ?r, map pq_data us @ map pq_data vs)"
    by (intro cmp_order.pick_min_app [OF order]) auto
  with s some show "pick_min ?cmp (queue_elems q) = Some (the (fst (prio_queue_get q)), queue_elems q')"
    by (auto simp: queue_elems_def q'_def get_heap [OF ok ne some])
qed

text \<open>Both kinds of queue, on every branch.\<close>

definition queue_pick :: "('a, 'c) prio_queue \<Rightarrow> 'a list \<Rightarrow> ('a \<times> 'a list) option" where
  "queue_pick q xs = (if pq_compare q = None then pick_last xs else pick_min (queue_cmp q) xs)"

lemma queue_elems_Nil: "queue_elems q = [] \<longleftrightarrow> pq_array q = []"
  by (auto simp: queue_elems_def) (metis length_0_conv length_sort)+

lemma get_empty: "pq_array q = [] \<Longrightarrow> prio_queue_get q = (None, q)"
  by (simp add: prio_queue_get_def)

lemma get_lifo:
  "pq_array q \<noteq> [] \<Longrightarrow> pq_compare q = None \<Longrightarrow>
     prio_queue_get q = (Some (pq_data (last (pq_array q))), q\<lparr>pq_array := butlast (pq_array q)\<rparr>)"
  by (simp add: prio_queue_get_def)

lemma queue_ok_get: "queue_ok q \<Longrightarrow> queue_ok (snd (prio_queue_get q))"
proof (cases "pq_array q = []")
  case False
  assume ok: "queue_ok q"
  show ?thesis
  proof (cases "pq_compare q")
    case None
    have "distinct (map pq_ctr (butlast (pq_array q)))"
      using ok by (simp add: queue_ok_def map_butlast distinct_butlast)
    with ok None show ?thesis
      by (auto simp: get_lifo [OF False None] queue_ok_def dest: in_set_butlastD)
  next
    case (Some c)
    then show ?thesis using get_correct(1) [OF ok False] by simp
  qed
qed (simp add: get_empty)

lemma get_refines_pick:
  assumes ok: "queue_ok q"
  shows "(case prio_queue_get q of (None, q') \<Rightarrow> queue_elems q = [] \<and> q' = q
     | (Some x, q') \<Rightarrow> queue_pick q (queue_elems q) = Some (x, queue_elems q'))"
proof (cases "pq_array q = []")
  case False
  show ?thesis
  proof (cases "pq_compare q")
    case None
    with False show ?thesis
      by (simp add: get_lifo queue_elems_def queue_pick_def pick_last_def last_map map_butlast)
  next
    case (Some c)
    then show ?thesis using get_correct(2) [OF ok False] get_heap [OF ok False]
      by (auto simp: queue_pick_def)
  qed
qed (simp add: get_empty queue_elems_Nil)

text \<open>A queue with a comparison \<open>c\<close> and callback data \<open>d\<close> provides the interface.\<close>

definition queue_for :: "('a \<Rightarrow> 'a \<Rightarrow> 'c \<Rightarrow> int) \<Rightarrow> 'c \<Rightarrow> ('a, 'c) prio_queue \<Rightarrow> bool" where
  "queue_for c d q \<longleftrightarrow> queue_ok q \<and> pq_compare q = Some c \<and> cb_data q = d"

lemma queue_room_put: "queue_ok q \<Longrightarrow> 0 < queue_room q \<Longrightarrow> queue_room (prio_queue_put q x) = queue_room q - 1"
  using next_ctr [of q] by (simp add: queue_room_def)

lemma stable_queue_prio_queue:
  assumes "cmp_order (\<lambda>x y. c x y d)"
  shows "stable_queue (\<lambda>x y. c x y d) prio_queue_put prio_queue_get queue_elems (queue_for c d) queue_room"
proof -
  have cmp: "queue_for c d q \<Longrightarrow> queue_cmp q = (\<lambda>x y. c x y d)" for q
    by (simp add: queue_for_def queue_cmp_def)
  have ok: "queue_for c d q \<Longrightarrow> queue_ok q" for q
    by (simp add: queue_for_def)
  show ?thesis
  proof (intro stable_queue.intro assms stable_queue_axioms.intro)
    fix q :: "('a, 'b) prio_queue" and x
    assume q: "queue_for c d q"
    show "queue_for c d (snd (prio_queue_get q))"
      using q queue_ok_get [OF ok [OF q]] by (simp add: queue_for_def)
    show "case prio_queue_get q of (None, q') \<Rightarrow> queue_elems q = [] \<and> q' = q
       | (Some x, q') \<Rightarrow> pick_min (\<lambda>x y. c x y d) (queue_elems q) = Some (x, queue_elems q')"
      using get_refines_pick [OF ok [OF q]] cmp [OF q] q
      by (auto simp: queue_pick_def queue_for_def split: option.splits)
    assume room: "0 < queue_room q"
    show "queue_for c d (prio_queue_put q x)"
      using q queue_ok_put [OF ok [OF q] room] by (simp add: queue_for_def)
    show "queue_elems (prio_queue_put q x) = queue_elems q @ [x]"
      by (rule queue_elems_put [OF ok [OF q] room])
    show "queue_room (prio_queue_put q x) = queue_room q - 1"
      by (rule queue_room_put [OF ok [OF q] room])
  qed
qed

subsection \<open>reverse\<close>

text \<open>After \<open>i\<close> rounds the outer \<open>i\<close> slots on both sides are exchanged.\<close>

lemma length_reverse_loop [simp]: "length (reverse_loop arr i) = length arr"
  by (induction arr i rule: reverse_loop.induct) (subst reverse_loop.simps, simp add: Let_def)

lemma nth_reverse_loop:
  "k < length arr \<Longrightarrow> 2 * m \<le> length arr + 1 \<Longrightarrow>
     reverse_loop arr (int m) ! k =
       (if m \<le> k \<and> k < length arr - m then arr ! (length arr - 1 - k) else arr ! k)"
proof (induction "length arr - m" arbitrary: arr m rule: less_induct)
  case less
  let ?n = "length arr"
  show ?case
  proof (cases "2 * m < ?n")
    case True
    let ?j = "?n - 1 - m"
    let ?s = "swap_at arr m ?j"
    have "nat ((int ?n - 1) - int m) = ?j" using True by linarith
    then have "reverse_loop arr (int m) = reverse_loop ?s (int (Suc m))"
      using True by (subst reverse_loop.simps) (simp add: Let_def add.commute)
    also have "\<dots> ! k = (if Suc m \<le> k \<and> k < ?n - Suc m then ?s ! (?n - 1 - k) else ?s ! k)"
      using True less.prems by (subst less.hyps) auto
    finally have step: "reverse_loop arr (int m) ! k = \<dots>" .
    consider "k = m" | "k = ?j" "k \<noteq> m" | "Suc m \<le> k" "k < ?n - Suc m" | "k < m" | "?n - m \<le> k"
      using True less.prems by linarith
    then show ?thesis
    proof cases
      case 1
      have "?n - 1 - m = ?j" "?j < ?n" "m < ?n" "m < ?n - m" using True by linarith+
      with 1 step show ?thesis by (simp add: nth_swap_at)
    qed (use True less.prems step in \<open>auto simp: nth_swap_at\<close>)
  next
    case False
    then have "reverse_loop arr (int m) = arr"
      by (subst reverse_loop.simps) (simp add: Let_def)
    moreover have "?n - 1 - k = k" if "m \<le> k" "k < ?n - m"
      using that False less.prems by linarith
    ultimately show ?thesis by simp
  qed
qed

lemma reverse_loop_rev: "reverse_loop arr 0 = rev arr"
  using nth_reverse_loop [of _ arr 0] by (intro nth_equalityI) (auto simp: rev_nth)

section \<open>Clients: filling and emptying a queue\<close>

text \<open>
  \<^verbatim>\<open>test-prio-queue.c\<close> puts integers into a queue ordered by \<open>intcmp\<close>; its command
  \<open>dump\<close> is the loop \<open>while ((v = prio_queue_get(&pq))) show(v)\<close>.
\<close>

definition intcmp :: "int \<Rightarrow> int \<Rightarrow> unit \<Rightarrow> int" where
  "intcmp a b cb = a - b"

definition new_prio_queue :: "('a \<Rightarrow> 'a \<Rightarrow> 'c \<Rightarrow> int) option \<Rightarrow> 'c \<Rightarrow> ('a, 'c) prio_queue" where
  "new_prio_queue c d = \<lparr>pq_compare = c, insertion_ctr = 0, cb_data = d, pq_array = []\<rparr>"

lemma cmp_order_intcmp: "cmp_order (\<lambda>a b. intcmp a b u)"
  by unfold_locales (auto simp: intcmp_def)

interpretation int_queue: stable_queue "\<lambda>a b. intcmp a b ()" prio_queue_put prio_queue_get
  queue_elems "queue_for intcmp ()" queue_room
  by (rule stable_queue_prio_queue [OF cmp_order_intcmp])

context stable_queue begin

lemma put_all:
  "valid q \<Longrightarrow> length xs \<le> room q \<Longrightarrow>
     valid (foldl put q xs) \<and> elems (foldl put q xs) = elems q @ xs"
proof (induction xs arbitrary: q)
  case (Cons x xs)
  then have "0 < room q" by simp
  with Cons put_valid [of q x] put_elems [of q x] put_room [of q x] show ?case by simp
qed simp

lemma sorts:
  assumes "valid q" and "elems q = []" and "length xs \<le> room q" and "length xs < fuel"
  shows "\<exists>ys. dump get fuel (foldl put q xs) = Some ys \<and> mset ys = mset xs \<and>
           sorted_wrt (\<lambda>x y. cmp x y \<le> 0) ys \<and>
           (\<forall>k. filter (\<lambda>z. cmp k z = 0) ys = filter (\<lambda>z. cmp k z = 0) xs)"
  using put_all [OF assms(1,3)] dump_sorts [of "foldl put q xs" fuel] assms by simp

end

lemma new_queue_for: "cmp_order (\<lambda>x y. c x y d) \<Longrightarrow> queue_for c d (new_prio_queue (Some c) d)"
  by (simp add: queue_for_def queue_ok_def new_prio_queue_def queue_cmp_def is_heap_def)

lemma new_queue_elems [simp]: "queue_elems (new_prio_queue c d) = []"
  by (simp add: queue_elems_def new_prio_queue_def)

lemma new_queue_room [simp]: "queue_room (new_prio_queue c d) = 2 ^ 31"
  by (simp add: queue_room_def new_prio_queue_def)

section \<open>Properties\<close>

text \<open>
  C9: a queue refines the list of its elements in the order of insertion.
  \<open>put\<close> appends to the list and keeps the invariant, and \<open>get\<close> returns NULL exactly on
  the empty list and otherwise removes the first of the smallest elements (with a comparison) or
  the last element (the LIFO queue).
\<close>

theorem prio_queue_refines:
  assumes "queue_ok q" and "0 < queue_room q"
  shows "queue_ok (prio_queue_put q x) \<and> queue_elems (prio_queue_put q x) = queue_elems q @ [x] \<and>
     queue_ok (snd (prio_queue_get q)) \<and>
     (case prio_queue_get q of (None, q') \<Rightarrow> queue_elems q = [] \<and> q' = q
      | (Some y, q') \<Rightarrow> queue_pick q (queue_elems q) = Some (y, queue_elems q'))"
  using queue_ok_put [OF assms] queue_elems_put [OF assms] queue_ok_get [OF assms(1)]
    get_refines_pick [OF assms(1)]
  by blast

theorem prio_queue_refines_witness:
  "queue_elems (prio_queue_put (new_prio_queue (Some intcmp) ()) 5) = [5]"
  using prio_queue_refines [of "new_prio_queue (Some intcmp) ()" 5] new_queue_for [of intcmp "()", OF cmp_order_intcmp]
  by (simp add: queue_for_def)

text \<open>
  The capacity \<open>alloc\<close> of the array, an \<open>int\<close>, as \<^verbatim>\<open>ALLOC_GROW\<close> in \<^verbatim>\<open>cache.h\<close> changes it when \<open>nr\<close> elements are needed.
  \<open>None\<close> is an overflow of \<open>(alloc + 16) * 3\<close>. \<open>alloc_after n\<close> is the capacity after \<open>n\<close> elements have been put.
\<close>

definition alloc_grow :: "nat \<Rightarrow> nat \<Rightarrow> nat option" where
  "alloc_grow alloc nr =
     (if nr \<le> alloc then Some alloc
      else if 2 ^ 31 \<le> (alloc + 16) * 3 then None
      else Some (if (alloc + 16) * 3 div 2 < nr then nr else (alloc + 16) * 3 div 2))"

primrec alloc_after :: "nat \<Rightarrow> nat option" where
  "alloc_after 0 = Some 0"
| "alloc_after (Suc n) = Option.bind (alloc_after n) (\<lambda>alloc. alloc_grow alloc (n + 1))"

lemma alloc_after_fits: "n \<le> 715827867 \<Longrightarrow> \<exists>a. alloc_after n = Some a \<and> n \<le> a \<and> a < 2 ^ 31"
proof (induction n)
  case (Suc n)
  then obtain a where a: "alloc_after n = Some a" "n \<le> a" "a < 2 ^ 31" by auto
  show ?case
  proof (cases "n + 1 \<le> a")
    case True
    with a show ?thesis by (simp add: alloc_grow_def)
  next
    case False
    then have "a = n" using a(2) by simp
    with a(1) Suc.prems show ?thesis by (simp add: alloc_grow_def) linarith
  qed
qed simp

text \<open>
  C22: up to 715827867 elements put into a fresh queue, for which the capacity of the array stays an \<open>int\<close>, come
  out of repeated \<open>get\<close>s as a sorted, stable rearrangement, and the emptying loop stops by itself.
\<close>

theorem prio_queue_sorts:
  assumes "cmp_order (\<lambda>x y. c x y d)" and "length xs \<le> 715827867"
  shows "(\<exists>alloc. alloc_after (length xs) = Some alloc \<and> length xs \<le> alloc \<and> alloc < 2 ^ 31) \<and>
    (\<exists>ys. dump prio_queue_get (Suc (length xs))
                (foldl prio_queue_put (new_prio_queue (Some c) d) xs) = Some ys \<and>
     mset ys = mset xs \<and> sorted_wrt (\<lambda>x y. c x y d \<le> 0) ys \<and>
     (\<forall>k. filter (\<lambda>z. c k z d = 0) ys = filter (\<lambda>z. c k z d = 0) xs))"
  using stable_queue.sorts [OF stable_queue_prio_queue [of c d, OF assms(1)] new_queue_for [of c d, OF assms(1)]]
    alloc_after_fits [OF assms(2)] assms(2)
  by (simp del: dump.simps)

theorem prio_queue_sorts_witness:
  "\<exists>ys. dump prio_queue_get (Suc (length [3, 1, 2 :: int]))
          (foldl prio_queue_put (new_prio_queue (Some intcmp) ()) [3, 1, 2]) = Some ys \<and>
     mset ys = mset [3, 1, 2]"
proof -
  have "length [3, 1, 2 :: int] \<le> 715827867" by simp
  then show ?thesis
    using prio_queue_sorts [of intcmp "()" "[3, 1, 2]", OF cmp_order_intcmp] by blast
qed

text \<open>
  Lemma prio_queue_reverse_spec: \<open>prio_queue_reverse\<close> dies on a queue with a comparison and
  reverses a LIFO queue.
\<close>

theorem prio_queue_reverse_spec:
  "prio_queue_reverse q =
     (if pq_compare q = None then Some (q\<lparr>pq_array := rev (pq_array q)\<rparr>) else None)"
  by (simp add: prio_queue_reverse_def reverse_loop_rev)

end
