(* ===== verification/Delta.thy ===== *)
theory Delta
  imports Git_Prelude
begin

unbundle bit_operations_syntax

text \<open>
  \<^verbatim>\<open>diff-delta.c\<close>, \<^verbatim>\<open>patch-delta.c\<close> and \<^verbatim>\<open>delta.h\<close>: the binary deltas of pack files.
  \<open>create_delta_index\<close> hashes the blocks of a source buffer, \<open>create_delta\<close> writes the target
  buffer as a stream of copy and insert instructions against it, and \<open>patch_delta\<close> replays such a
  stream. Pointers into a buffer are offsets into its list; the output buffer is the list of the
  bytes written so far, so \<open>outpos\<close> is its length. \<open>malloc\<close> does not fail here.
\<close>

section \<open>The Rabin fingerprint\<close>

abbreviation RABIN_SHIFT :: nat where "RABIN_SHIFT \<equiv> 23"
abbreviation RABIN_WINDOW :: nat where "RABIN_WINDOW \<equiv> 16"
abbreviation HASH_LIMIT :: nat where "HASH_LIMIT \<equiv> 64"

definition T_table :: "u32 list" where
  "T_table =
    [0x00000000, 0xab59b4d1, 0x56b369a2, 0xfdeadd73, 0x063f6795, 0xad66d344,
     0x508c0e37, 0xfbd5bae6, 0x0c7ecf2a, 0xa7277bfb, 0x5acda688, 0xf1941259,
     0x0a41a8bf, 0xa1181c6e, 0x5cf2c11d, 0xf7ab75cc, 0x18fd9e54, 0xb3a42a85,
     0x4e4ef7f6, 0xe5174327, 0x1ec2f9c1, 0xb59b4d10, 0x48719063, 0xe32824b2,
     0x1483517e, 0xbfdae5af, 0x423038dc, 0xe9698c0d, 0x12bc36eb, 0xb9e5823a,
     0x440f5f49, 0xef56eb98, 0x31fb3ca8, 0x9aa28879, 0x6748550a, 0xcc11e1db,
     0x37c45b3d, 0x9c9defec, 0x6177329f, 0xca2e864e, 0x3d85f382, 0x96dc4753,
     0x6b369a20, 0xc06f2ef1, 0x3bba9417, 0x90e320c6, 0x6d09fdb5, 0xc6504964,
     0x2906a2fc, 0x825f162d, 0x7fb5cb5e, 0xd4ec7f8f, 0x2f39c569, 0x846071b8,
     0x798aaccb, 0xd2d3181a, 0x25786dd6, 0x8e21d907, 0x73cb0474, 0xd892b0a5,
     0x23470a43, 0x881ebe92, 0x75f463e1, 0xdeadd730, 0x63f67950, 0xc8afcd81,
     0x354510f2, 0x9e1ca423, 0x65c91ec5, 0xce90aa14, 0x337a7767, 0x9823c3b6,
     0x6f88b67a, 0xc4d102ab, 0x393bdfd8, 0x92626b09, 0x69b7d1ef, 0xc2ee653e,
     0x3f04b84d, 0x945d0c9c, 0x7b0be704, 0xd05253d5, 0x2db88ea6, 0x86e13a77,
     0x7d348091, 0xd66d3440, 0x2b87e933, 0x80de5de2, 0x7775282e, 0xdc2c9cff,
     0x21c6418c, 0x8a9ff55d, 0x714a4fbb, 0xda13fb6a, 0x27f92619, 0x8ca092c8,
     0x520d45f8, 0xf954f129, 0x04be2c5a, 0xafe7988b, 0x5432226d, 0xff6b96bc,
     0x02814bcf, 0xa9d8ff1e, 0x5e738ad2, 0xf52a3e03, 0x08c0e370, 0xa39957a1,
     0x584ced47, 0xf3155996, 0x0eff84e5, 0xa5a63034, 0x4af0dbac, 0xe1a96f7d,
     0x1c43b20e, 0xb71a06df, 0x4ccfbc39, 0xe79608e8, 0x1a7cd59b, 0xb125614a,
     0x468e1486, 0xedd7a057, 0x103d7d24, 0xbb64c9f5, 0x40b17313, 0xebe8c7c2,
     0x16021ab1, 0xbd5bae60, 0x6cb54671, 0xc7ecf2a0, 0x3a062fd3, 0x915f9b02,
     0x6a8a21e4, 0xc1d39535, 0x3c394846, 0x9760fc97, 0x60cb895b, 0xcb923d8a,
     0x3678e0f9, 0x9d215428, 0x66f4eece, 0xcdad5a1f, 0x3047876c, 0x9b1e33bd,
     0x7448d825, 0xdf116cf4, 0x22fbb187, 0x89a20556, 0x7277bfb0, 0xd92e0b61,
     0x24c4d612, 0x8f9d62c3, 0x7836170f, 0xd36fa3de, 0x2e857ead, 0x85dcca7c,
     0x7e09709a, 0xd550c44b, 0x28ba1938, 0x83e3ade9, 0x5d4e7ad9, 0xf617ce08,
     0x0bfd137b, 0xa0a4a7aa, 0x5b711d4c, 0xf028a99d, 0x0dc274ee, 0xa69bc03f,
     0x5130b5f3, 0xfa690122, 0x0783dc51, 0xacda6880, 0x570fd266, 0xfc5666b7,
     0x01bcbbc4, 0xaae50f15, 0x45b3e48d, 0xeeea505c, 0x13008d2f, 0xb85939fe,
     0x438c8318, 0xe8d537c9, 0x153feaba, 0xbe665e6b, 0x49cd2ba7, 0xe2949f76,
     0x1f7e4205, 0xb427f6d4, 0x4ff24c32, 0xe4abf8e3, 0x19412590, 0xb2189141,
     0x0f433f21, 0xa41a8bf0, 0x59f05683, 0xf2a9e252, 0x097c58b4, 0xa225ec65,
     0x5fcf3116, 0xf49685c7, 0x033df00b, 0xa86444da, 0x558e99a9, 0xfed72d78,
     0x0502979e, 0xae5b234f, 0x53b1fe3c, 0xf8e84aed, 0x17bea175, 0xbce715a4,
     0x410dc8d7, 0xea547c06, 0x1181c6e0, 0xbad87231, 0x4732af42, 0xec6b1b93,
     0x1bc06e5f, 0xb099da8e, 0x4d7307fd, 0xe62ab32c, 0x1dff09ca, 0xb6a6bd1b,
     0x4b4c6068, 0xe015d4b9, 0x3eb80389, 0x95e1b758, 0x680b6a2b, 0xc352defa,
     0x3887641c, 0x93ded0cd, 0x6e340dbe, 0xc56db96f, 0x32c6cca3, 0x999f7872,
     0x6475a501, 0xcf2c11d0, 0x34f9ab36, 0x9fa01fe7, 0x624ac294, 0xc9137645,
     0x26459ddd, 0x8d1c290c, 0x70f6f47f, 0xdbaf40ae, 0x207afa48, 0x8b234e99,
     0x76c993ea, 0xdd90273b, 0x2a3b52f7, 0x8162e626, 0x7c883b55, 0xd7d18f84,
     0x2c043562, 0x875d81b3, 0x7ab75cc0, 0xd1eee811]"

definition U_table :: "u32 list" where
  "U_table =
    [0x00000000, 0x7eb5200d, 0x5633f4cb, 0x2886d4c6, 0x073e5d47, 0x798b7d4a,
     0x510da98c, 0x2fb88981, 0x0e7cba8e, 0x70c99a83, 0x584f4e45, 0x26fa6e48,
     0x0942e7c9, 0x77f7c7c4, 0x5f711302, 0x21c4330f, 0x1cf9751c, 0x624c5511,
     0x4aca81d7, 0x347fa1da, 0x1bc7285b, 0x65720856, 0x4df4dc90, 0x3341fc9d,
     0x1285cf92, 0x6c30ef9f, 0x44b63b59, 0x3a031b54, 0x15bb92d5, 0x6b0eb2d8,
     0x4388661e, 0x3d3d4613, 0x39f2ea38, 0x4747ca35, 0x6fc11ef3, 0x11743efe,
     0x3eccb77f, 0x40799772, 0x68ff43b4, 0x164a63b9, 0x378e50b6, 0x493b70bb,
     0x61bda47d, 0x1f088470, 0x30b00df1, 0x4e052dfc, 0x6683f93a, 0x1836d937,
     0x250b9f24, 0x5bbebf29, 0x73386bef, 0x0d8d4be2, 0x2235c263, 0x5c80e26e,
     0x740636a8, 0x0ab316a5, 0x2b7725aa, 0x55c205a7, 0x7d44d161, 0x03f1f16c,
     0x2c4978ed, 0x52fc58e0, 0x7a7a8c26, 0x04cfac2b, 0x73e5d470, 0x0d50f47d,
     0x25d620bb, 0x5b6300b6, 0x74db8937, 0x0a6ea93a, 0x22e87dfc, 0x5c5d5df1,
     0x7d996efe, 0x032c4ef3, 0x2baa9a35, 0x551fba38, 0x7aa733b9, 0x041213b4,
     0x2c94c772, 0x5221e77f, 0x6f1ca16c, 0x11a98161, 0x392f55a7, 0x479a75aa,
     0x6822fc2b, 0x1697dc26, 0x3e1108e0, 0x40a428ed, 0x61601be2, 0x1fd53bef,
     0x3753ef29, 0x49e6cf24, 0x665e46a5, 0x18eb66a8, 0x306db26e, 0x4ed89263,
     0x4a173e48, 0x34a21e45, 0x1c24ca83, 0x6291ea8e, 0x4d29630f, 0x339c4302,
     0x1b1a97c4, 0x65afb7c9, 0x446b84c6, 0x3adea4cb, 0x1258700d, 0x6ced5000,
     0x4355d981, 0x3de0f98c, 0x15662d4a, 0x6bd30d47, 0x56ee4b54, 0x285b6b59,
     0x00ddbf9f, 0x7e689f92, 0x51d01613, 0x2f65361e, 0x07e3e2d8, 0x7956c2d5,
     0x5892f1da, 0x2627d1d7, 0x0ea10511, 0x7014251c, 0x5facac9d, 0x21198c90,
     0x099f5856, 0x772a785b, 0x4c921c31, 0x32273c3c, 0x1aa1e8fa, 0x6414c8f7,
     0x4bac4176, 0x3519617b, 0x1d9fb5bd, 0x632a95b0, 0x42eea6bf, 0x3c5b86b2,
     0x14dd5274, 0x6a687279, 0x45d0fbf8, 0x3b65dbf5, 0x13e30f33, 0x6d562f3e,
     0x506b692d, 0x2ede4920, 0x06589de6, 0x78edbdeb, 0x5755346a, 0x29e01467,
     0x0166c0a1, 0x7fd3e0ac, 0x5e17d3a3, 0x20a2f3ae, 0x08242768, 0x76910765,
     0x59298ee4, 0x279caee9, 0x0f1a7a2f, 0x71af5a22, 0x7560f609, 0x0bd5d604,
     0x235302c2, 0x5de622cf, 0x725eab4e, 0x0ceb8b43, 0x246d5f85, 0x5ad87f88,
     0x7b1c4c87, 0x05a96c8a, 0x2d2fb84c, 0x539a9841, 0x7c2211c0, 0x029731cd,
     0x2a11e50b, 0x54a4c506, 0x69998315, 0x172ca318, 0x3faa77de, 0x411f57d3,
     0x6ea7de52, 0x1012fe5f, 0x38942a99, 0x46210a94, 0x67e5399b, 0x19501996,
     0x31d6cd50, 0x4f63ed5d, 0x60db64dc, 0x1e6e44d1, 0x36e89017, 0x485db01a,
     0x3f77c841, 0x41c2e84c, 0x69443c8a, 0x17f11c87, 0x38499506, 0x46fcb50b,
     0x6e7a61cd, 0x10cf41c0, 0x310b72cf, 0x4fbe52c2, 0x67388604, 0x198da609,
     0x36352f88, 0x48800f85, 0x6006db43, 0x1eb3fb4e, 0x238ebd5d, 0x5d3b9d50,
     0x75bd4996, 0x0b08699b, 0x24b0e01a, 0x5a05c017, 0x728314d1, 0x0c3634dc,
     0x2df207d3, 0x534727de, 0x7bc1f318, 0x0574d315, 0x2acc5a94, 0x54797a99,
     0x7cffae5f, 0x024a8e52, 0x06852279, 0x78300274, 0x50b6d6b2, 0x2e03f6bf,
     0x01bb7f3e, 0x7f0e5f33, 0x57888bf5, 0x293dabf8, 0x08f998f7, 0x764cb8fa,
     0x5eca6c3c, 0x207f4c31, 0x0fc7c5b0, 0x7172e5bd, 0x59f4317b, 0x27411176,
     0x1a7c5765, 0x64c97768, 0x4c4fa3ae, 0x32fa83a3, 0x1d420a22, 0x63f72a2f,
     0x4b71fee9, 0x35c4dee4, 0x1400edeb, 0x6ab5cde6, 0x42331920, 0x3c86392d,
     0x133eb0ac, 0x6d8b90a1, 0x450d4467, 0x3bb8646a]"

text \<open>One step of the fingerprint: \<open>val = ((val << 8) | byte) ^ T[val >> RABIN_SHIFT]\<close>.\<close>

definition rabin :: "u32 \<Rightarrow> byte \<Rightarrow> u32" where
  "rabin val b = (push_bit 8 val OR ucast b) XOR T_table ! unat (drop_bit RABIN_SHIFT val)"

section \<open>create_delta_index\<close>

record index_entry =
  ie_ptr :: nat
  ie_val :: u32

text \<open>
  The packed table of entries with its bucket boundaries is the list of its buckets.
\<close>

record delta_index =
  di_src :: "byte list"
  di_mask :: u32
  di_hash :: "index_entry list list"

function hash_bits :: "nat \<Rightarrow> nat \<Rightarrow> nat" where
  "hash_bits hsize i = (if 2 ^ i < hsize then hash_bits hsize (i + 1) else i)"
  by pat_completeness auto
termination
proof (relation "measure (\<lambda>(hsize, i). hsize - i)", goal_cases)
  case (2 hsize i)
  then have "i < hsize" using less_exp [of i] by linarith
  then show ?case by simp
qed simp

declare hash_bits.simps [simp del]

definition block_val :: "byte list \<Rightarrow> nat \<Rightarrow> u32" where
  "block_val buffer data = foldl (\<lambda>val i. rabin val (buffer ! (data + i))) 0 [1..<RABIN_WINDOW + 1]"

text \<open>
  The loop that populates the index, from the last block to the first; \<open>k\<close> blocks are left. A
  bucket is a linked list that grows at its head, so the entry written last, \<open>entry[-1]\<close>, is
  the head of the bucket of \<open>prev_val\<close>.
\<close>

fun populate ::
  "byte list \<Rightarrow> u32 \<Rightarrow> nat \<Rightarrow> u32 \<Rightarrow> index_entry list list \<Rightarrow> nat \<Rightarrow> index_entry list list \<times> nat" where
  "populate buffer hmask 0 prev_val hash entries = (hash, entries)"
| "populate buffer hmask (Suc k) prev_val hash entries =
     (let data = k * RABIN_WINDOW;
          val = block_val buffer data;
          i = unat (val AND hmask)
      in if val = prev_val then
           populate buffer hmask k prev_val
             (hash[i := (case hash ! i of [] \<Rightarrow> []
                         | e # es \<Rightarrow> e\<lparr>ie_ptr := data + RABIN_WINDOW\<rparr> # es)])
             (entries - 1)
         else
           populate buffer hmask k val
             (hash[i := \<lparr>ie_ptr = data + RABIN_WINDOW, ie_val = val\<rparr> # hash ! i]) entries)"

text \<open>
  The culling of an overfull bucket. \<open>cull_skip\<close> is the inner loop, which walks over the entries
  to remove; running off the end of the list there would dereference NULL, \<open>None\<close> here.
\<close>

fun cull_skip :: "'e list \<Rightarrow> int \<Rightarrow> ('e list \<times> int) option" where
  "cull_skip [] acc = None"
| "cull_skip (e # es) acc =
     (let acc = acc - int HASH_LIMIT in if acc > 0 then cull_skip es acc else Some (es, acc))"

lemma cull_skip_length: "cull_skip es acc = Some (es', acc') \<Longrightarrow> length es' < length es"
  by (induction es acc rule: cull_skip.induct) (auto simp: Let_def split: if_splits)

function cull :: "int \<Rightarrow> 'e list \<Rightarrow> int \<Rightarrow> 'e list option" where
  "cull excess [] acc = Some []"
| "cull excess (e # es) acc =
     (let acc = acc + excess in
      if acc > 0 then
        (case cull_skip es acc of
           None \<Rightarrow> None
         | Some (es, acc) \<Rightarrow> map_option ((#) e) (cull excess es acc))
      else map_option ((#) e) (cull excess es acc))"
  by pat_completeness auto
termination
  by (relation "measure (\<lambda>(_, es, _). length es)") (auto dest!: cull_skip_length sym [of "Some _"])

definition cull_bucket :: "'e list \<Rightarrow> 'e list option" where
  "cull_bucket es =
     (if length es \<le> HASH_LIMIT then Some es
      else cull (int (length es) - int HASH_LIMIT) es 0)"

fun cull_all :: "'e list list \<Rightarrow> 'e list list option" where
  "cull_all [] = Some []"
| "cull_all (es # hash) =
     (case cull_bucket es of
        None \<Rightarrow> None
      | Some es' \<Rightarrow> map_option ((#) es') (cull_all hash))"

text \<open>How many entries the culling takes off the counter \<open>entries\<close>.\<close>

definition culled :: "'e list list \<Rightarrow> nat" where
  "culled hash = sum_list (map (\<lambda>es. length es - HASH_LIMIT) hash)"

text \<open>
  The result is NULL (\<open>Some None\<close>) for an empty buffer; \<open>None\<close> is a crash, which
  \<open>create_delta_index_returns\<close> excludes. The second component is the counter \<open>entries\<close> that
  the code asserts to be the number of packed entries.
\<close>

definition create_delta_index :: "byte list \<Rightarrow> (delta_index \<times> nat) option option" where
  "create_delta_index buf =
     (let bufsize = length buf in
      if bufsize = 0 then Some None
      else
        let entries = (if 0xffffffff \<le> bufsize then 0xfffffffe div RABIN_WINDOW
                       else (bufsize - 1) div RABIN_WINDOW);
            hsize = 2 ^ hash_bits (entries div 4) 4;
            hmask = word_of_nat (hsize - 1);
            (hash, n) = populate buf hmask entries (NOT 0) (replicate hsize []) entries
        in map_option
             (\<lambda>packed. Some (\<lparr>di_src = buf, di_mask = hmask, di_hash = packed\<rparr>, n - culled hash))
             (cull_all hash))"

section \<open>create_delta\<close>

abbreviation MAX_OP_SIZE :: nat where
  "MAX_OP_SIZE \<equiv> 5 + 5 + 1 + RABIN_WINDOW + 7"

text \<open>The two sizes at the front; \<open>i\<close> is an \<open>unsigned int\<close>, so a size is cut to 32 bits.\<close>

fun store_size :: "nat \<Rightarrow> byte list" where
  "store_size i =
     (if 0x80 \<le> i then (word_of_nat i OR 0x80) # store_size (i div 128) else [word_of_nat i])"

declare store_size.simps [simp del]

record delta_state =
  ds_out :: "byte list"
  ds_outsize :: nat
  ds_data :: nat
  ds_inscnt :: nat
  ds_moff :: nat
  ds_msize :: nat
  ds_val :: u32

text \<open>\<open>while (ref_size-- && *src++ == *ref) ref++\<close>\<close>

fun match_run :: "byte list \<Rightarrow> byte list \<Rightarrow> nat \<Rightarrow> nat \<Rightarrow> nat \<Rightarrow> nat" where
  "match_run sbuf tbuf 0 s ref = ref"
| "match_run sbuf tbuf (Suc ref_size) s ref =
     (if tbuf ! s = sbuf ! ref then match_run sbuf tbuf ref_size (s + 1) (ref + 1) else ref)"

text \<open>The search through one bucket for the longest match at \<open>data\<close>.\<close>

definition match_limit :: "byte list \<Rightarrow> byte list \<Rightarrow> nat \<Rightarrow> index_entry \<Rightarrow> nat" where
  "match_limit sbuf tbuf data entry =
     min ((length sbuf - ie_ptr entry) mod 2 ^ 32) (length tbuf - data)"

definition match_length :: "byte list \<Rightarrow> byte list \<Rightarrow> nat \<Rightarrow> index_entry \<Rightarrow> nat" where
  "match_length sbuf tbuf data entry =
     match_run sbuf tbuf (match_limit sbuf tbuf data entry) data (ie_ptr entry) - ie_ptr entry"

primrec find_match ::
  "byte list \<Rightarrow> byte list \<Rightarrow> u32 \<Rightarrow> nat \<Rightarrow> index_entry list \<Rightarrow> nat \<Rightarrow> nat \<Rightarrow> nat \<times> nat" where
  "find_match sbuf tbuf val data [] msize moff = (msize, moff)"
| "find_match sbuf tbuf val data (entry # es) msize moff =
     (if ie_val entry \<noteq> val then find_match sbuf tbuf val data es msize moff
      else if match_limit sbuf tbuf data entry \<le> msize then (msize, moff)
      else
        let len = match_length sbuf tbuf data entry in
        if msize < len then
          if 4096 \<le> len then (len, ie_ptr entry)
          else find_match sbuf tbuf val data es len (ie_ptr entry)
        else find_match sbuf tbuf val data es msize moff)"

text \<open>
  The loop that extends a match backwards over pending literals: the state after it. When the
  last pending literal is taken back, the slot of the count goes too and the loop ends.
\<close>

fun match_back :: "byte list \<Rightarrow> byte list \<Rightarrow> nat \<Rightarrow> delta_state \<Rightarrow> delta_state" where
  "match_back sbuf tbuf 0 st = st"
| "match_back sbuf tbuf (Suc inscnt) st =
     (if 0 < ds_moff st \<and> sbuf ! (ds_moff st - 1) = tbuf ! (ds_data st - 1) then
        let st = st\<lparr>ds_msize := ds_msize st + 1, ds_moff := ds_moff st - 1,
                    ds_data := ds_data st - 1, ds_out := butlast (ds_out st),
                    ds_inscnt := inscnt\<rparr>
        in if 0 < inscnt then match_back sbuf tbuf inscnt st
           else st\<lparr>ds_out := butlast (ds_out st)\<rparr>
      else st)"

text \<open>\<open>out[outpos - inscnt - 1] = inscnt\<close>\<close>

definition close_insert :: "byte list \<Rightarrow> nat \<Rightarrow> byte list" where
  "close_insert out inscnt =
     (if inscnt = 0 then out else out[length out - inscnt - 1 := word_of_nat inscnt])"

text \<open>The bytes of a copy instruction: the flags, then the non-zero bytes of offset and size.\<close>

definition copy_op :: "nat \<Rightarrow> nat \<Rightarrow> byte list" where
  "copy_op moff msize =
     (let b = (\<lambda>n k. n div 256 ^ k mod 256);
          arg = (\<lambda>n k. if b n k \<noteq> 0 then [word_of_nat (b n k) :: byte] else []);
          flag = (\<lambda>n k f. if b n k \<noteq> 0 then f else 0 :: byte)
      in (0x80 OR flag moff 0 0x01 OR flag moff 1 0x02 OR flag moff 2 0x04 OR flag moff 3 0x08
            OR flag msize 0 0x10 OR flag msize 1 0x20)
         # arg moff 0 @ arg moff 1 @ arg moff 2 @ arg moff 3 @ arg msize 0 @ arg msize 1)"

definition search_step :: "delta_index \<Rightarrow> byte list \<Rightarrow> delta_state \<Rightarrow> delta_state" where
  "search_step index tbuf st =
     (if ds_msize st < 4096 then
        let data = ds_data st;
            val = rabin (ds_val st XOR U_table ! unat (tbuf ! (data - RABIN_WINDOW))) (tbuf ! data);
            (msize, moff) = find_match (di_src index) tbuf val data
                              (di_hash index ! unat (val AND di_mask index)) (ds_msize st) (ds_moff st)
        in st\<lparr>ds_val := val, ds_msize := msize, ds_moff := moff\<rparr>
      else st)"

definition literal_step :: "byte list \<Rightarrow> delta_state \<Rightarrow> delta_state" where
  "literal_step tbuf st =
     (let out = (if ds_inscnt st = 0 then ds_out st @ [0] else ds_out st) @ [tbuf ! ds_data st];
          inscnt = ds_inscnt st + 1;
          st = st\<lparr>ds_out := out, ds_data := ds_data st + 1, ds_inscnt := inscnt\<rparr>
      in (if inscnt = 0x7f then st\<lparr>ds_out := close_insert out inscnt, ds_inscnt := 0\<rparr> else st)
           \<lparr>ds_msize := 0\<rparr>)"

definition copy_step :: "byte list \<Rightarrow> byte list \<Rightarrow> delta_state \<Rightarrow> delta_state" where
  "copy_step sbuf tbuf st =
     (let st = (if ds_inscnt st = 0 then st
                else let st = match_back sbuf tbuf (ds_inscnt st) st
                     in st\<lparr>ds_out := close_insert (ds_out st) (ds_inscnt st), ds_inscnt := 0\<rparr>);
          left = (if ds_msize st < 0x10000 then 0 else ds_msize st - 0x10000);
          msize = ds_msize st - left;
          data = ds_data st + msize
      in st\<lparr>ds_out := ds_out st @ copy_op (ds_moff st) msize, ds_data := data,
            ds_moff := ds_moff st + msize, ds_msize := left,
            ds_val := (if left < 4096
                       then foldl (\<lambda>val j. rabin val (tbuf ! (data - RABIN_WINDOW + j))) 0
                              [0..<RABIN_WINDOW]
                       else ds_val st)\<rparr>)"

text \<open>
  The buffer behind \<open>out\<close> has \<open>outsize\<close> bytes. \<open>Out_Overrun\<close> is a state in which more have been written to it,
  or in which it has been cut below what was written.
\<close>

datatype 'a outcome = No_Fuel | Crashed | Out_Overrun | Output 'a

text \<open>
  The growth of the output buffer, with \<open>unsigned int\<close> arithmetic: \<open>None\<close> is the \<open>break\<close>
  when the output has passed \<open>max_size\<close>.
\<close>

definition grow_step :: "nat \<Rightarrow> delta_state \<Rightarrow> delta_state option" where
  "grow_step max_size st =
     (let outpos = length (ds_out st); outsize = ds_outsize st in
      if (outsize + 2 ^ 32 - MAX_OP_SIZE) mod 2 ^ 32 \<le> outpos then
        let outsize = (outsize * 3) mod 2 ^ 32 div 2;
            outsize = (if max_size \<noteq> 0 \<and> max_size \<le> outsize
                       then (max_size + MAX_OP_SIZE + 1) mod 2 ^ 32 else outsize)
        in if max_size \<noteq> 0 \<and> max_size < outpos then None else Some (st\<lparr>ds_outsize := outsize\<rparr>)
      else Some st)"

definition delta_step :: "delta_index \<Rightarrow> byte list \<Rightarrow> delta_state \<Rightarrow> delta_state" where
  "delta_step index tbuf st =
     (let st = search_step index tbuf st in
      if ds_msize st < 4 then literal_step tbuf st else copy_step (di_src index) tbuf st)"

text \<open>
  The main loop, with fuel. The state after a \<open>break\<close> is the one that caused it. The instruction of a round ends
  behind everything the round writes, so it fits the buffer when its end does; the next test is for the
  buffer the loop starts with and for a buffer that \<^verbatim>\<open>realloc\<close> has made smaller.
\<close>

fun delta_loop :: "nat \<Rightarrow> delta_index \<Rightarrow> byte list \<Rightarrow> nat \<Rightarrow> delta_state \<Rightarrow> delta_state outcome" where
  "delta_loop 0 index tbuf max_size st = No_Fuel"
| "delta_loop (Suc fuel) index tbuf max_size st =
     (if ds_outsize st < length (ds_out st) then Out_Overrun
      else if ds_data st < length tbuf then
        let st = delta_step index tbuf st in
        if ds_outsize st < length (ds_out st) then Out_Overrun
        else (case grow_step max_size st of
                None \<Rightarrow> Output st
              | Some st \<Rightarrow> delta_loop fuel index tbuf max_size st)
      else Output st)"

definition delta_start :: "delta_index \<Rightarrow> byte list \<Rightarrow> nat \<Rightarrow> delta_state" where
  "delta_start index tbuf max_size =
     (let window = take RABIN_WINDOW tbuf in
      \<lparr>ds_out = store_size (length (di_src index) mod 2 ^ 32) @ store_size (length tbuf mod 2 ^ 32)
                 @ [0] @ window,
       ds_outsize = (if max_size \<noteq> 0 \<and> max_size \<le> 8192
                     then (max_size + MAX_OP_SIZE + 1) mod 2 ^ 32 else 8192),
       ds_data = length window, ds_inscnt = length window, ds_moff = 0, ds_msize = 0,
       ds_val = foldl rabin 0 window\<rparr>)"

text \<open>\<open>Output None\<close> is NULL, \<open>Output (Some d)\<close> a delta.\<close>

definition create_delta :: "delta_index \<Rightarrow> byte list \<Rightarrow> nat \<Rightarrow> byte list option outcome" where
  "create_delta index trg_buf max_size =
     (if trg_buf = [] then Output None
      else case delta_loop (Suc (length trg_buf)) index trg_buf max_size (delta_start index trg_buf max_size) of
        Output st \<Rightarrow>
          let out = close_insert (ds_out st) (ds_inscnt st)
          in Output (if max_size \<noteq> 0 \<and> max_size < length out then None else Some out)
      | No_Fuel \<Rightarrow> No_Fuel | Crashed \<Rightarrow> Crashed | Out_Overrun \<Rightarrow> Out_Overrun)"

definition diff_delta :: "byte list \<Rightarrow> byte list \<Rightarrow> nat \<Rightarrow> byte list option outcome" where
  "diff_delta src_buf trg_buf max_delta_size =
     (case create_delta_index src_buf of
        None \<Rightarrow> Crashed
      | Some None \<Rightarrow> Output None
      | Some (Some (index, _)) \<Rightarrow> create_delta index trg_buf max_delta_size)"

section \<open>patch_delta\<close>

text \<open>
  The function returns the target, or NULL. The reads through \<open>data\<close> are not checked against
  \<open>top\<close> within an instruction; a read past the end of the delta is a result of its own.
\<close>

datatype patch_result = Rebuilt "byte list" | Refused | Overread

fun get_delta_hdr_size_loop :: "byte list \<Rightarrow> nat \<Rightarrow> u64 \<Rightarrow> (u64 \<times> byte list) option" where
  "get_delta_hdr_size_loop [] i sz = None"
| "get_delta_hdr_size_loop (cmd # data) i sz =
     (let sz = sz OR push_bit i (ucast (cmd AND 0x7f)) in
      if cmd AND 0x80 \<noteq> 0 \<and> data \<noteq> [] then get_delta_hdr_size_loop data (i + 7) sz
      else Some (sz, data))"

definition get_delta_hdr_size :: "byte list \<Rightarrow> (u64 \<times> byte list) option" where
  "get_delta_hdr_size data = get_delta_hdr_size_loop data 0 0"

text \<open>One optional argument byte of a copy instruction, shifted into place.\<close>

fun copy_arg :: "byte \<Rightarrow> byte \<Rightarrow> nat \<Rightarrow> nat \<times> byte list \<Rightarrow> (nat \<times> byte list) option" where
  "copy_arg cmd flag k (acc, data) =
     (if cmd AND flag = 0 then Some (acc, data)
      else case data of [] \<Rightarrow> None | b # data \<Rightarrow> Some (acc + unat b * 256 ^ k, data))"

definition copy_args :: "byte \<Rightarrow> byte list \<Rightarrow> (nat \<times> nat \<times> byte list) option" where
  "copy_args cmd data =
     Option.bind (copy_arg cmd 0x01 0 (0, data)) (\<lambda>s.
     Option.bind (copy_arg cmd 0x02 1 s) (\<lambda>s.
     Option.bind (copy_arg cmd 0x04 2 s) (\<lambda>s.
     Option.bind (copy_arg cmd 0x08 3 s) (\<lambda>(cp_off, data).
     Option.bind (copy_arg cmd 0x10 0 (0, data)) (\<lambda>s.
     Option.bind (copy_arg cmd 0x20 1 s) (\<lambda>s.
     Option.bind (copy_arg cmd 0x40 2 s) (\<lambda>(cp_size, data).
     Some (cp_off, if cp_size = 0 then 0x10000 else cp_size, data))))))))"

text \<open>What follows the loop: \<open>data != top || size != 0\<close> is a delta gone wild.\<close>

definition patch_end :: "byte list \<Rightarrow> nat \<Rightarrow> byte list \<Rightarrow> patch_result" where
  "patch_end data sz out = (if data \<noteq> [] \<or> sz \<noteq> 0 then Refused else Rebuilt out)"

lemma copy_arg_length:
  "copy_arg cmd flag k s = Some s' \<Longrightarrow> length (snd s') \<le> length (snd s)"
  by (cases s) (auto split: if_splits list.splits)

lemma copy_args_length:
  "copy_args cmd data = Some (cp_off, cp_size, data') \<Longrightarrow> length data' \<le> length data"
  unfolding copy_args_def bind_eq_Some_conv
  by (fastforce simp: bind_eq_Some_conv simp del: copy_arg.simps dest!: copy_arg_length intro: order_trans)

function patch_loop :: "byte list \<Rightarrow> byte list \<Rightarrow> nat \<Rightarrow> byte list \<Rightarrow> patch_result" where
  "patch_loop src_buf [] sz out = patch_end [] sz out"
| "patch_loop src_buf (cmd # data) sz out =
     (if cmd AND 0x80 \<noteq> 0 then
        (case copy_args cmd data of
           None \<Rightarrow> Overread
         | Some (cp_off, cp_size, data) \<Rightarrow>
             if 2 ^ 64 \<le> cp_off + cp_size \<or> length src_buf < cp_off + cp_size \<or> sz < cp_size
             then patch_end data sz out
             else patch_loop src_buf data (sz - cp_size)
                    (out @ take cp_size (drop cp_off src_buf)))
      else if cmd \<noteq> 0 then
        if sz < unat cmd then patch_end data sz out
        else if length data < unat cmd then Overread
        else patch_loop src_buf (drop (unat cmd) data) (sz - unat cmd)
               (out @ take (unat cmd) data)
      else Refused)"
  by pat_completeness auto

termination
  by (relation "measure (\<lambda>(_, data, _). length data)")
     (auto dest: copy_args_length simp: less_Suc_eq_le)

definition patch_delta :: "byte list \<Rightarrow> byte list \<Rightarrow> patch_result" where
  "patch_delta src_buf delta_buf =
     (if length delta_buf < 4 then Refused
      else case get_delta_hdr_size delta_buf of
        None \<Rightarrow> Overread
      | Some (sz, data) \<Rightarrow>
          if unat sz \<noteq> length src_buf then Refused
          else case get_delta_hdr_size data of
            None \<Rightarrow> Overread
          | Some (sz, data) \<Rightarrow> patch_loop src_buf data (unat sz) [])"

end
