(* ===== verification/Delta_Correct.thy ===== *)
theory Delta_Correct
  imports Delta
begin

unbundle bit_operations_syntax

text \<open>
  What the deltas promise: the stream \<open>create_delta\<close> writes decodes to the target it was given.
  A delta is a list of instructions; \<open>op_bytes\<close> is their encoding, \<open>op_out\<close> what they
  produce. The proof keeps, along the loop of \<open>create_delta\<close>, that the output is the encoding of
  instructions that produce the target read so far, and a pending run of literals.
\<close>

section \<open>Instructions\<close>

datatype delta_op = Insert "byte list" | Copy nat nat

fun op_bytes :: "delta_op \<Rightarrow> byte list" where
  "op_bytes (Insert bs) = word_of_nat (length bs) # bs"
| "op_bytes (Copy off len) = copy_op off len"

fun op_out :: "byte list \<Rightarrow> delta_op \<Rightarrow> byte list" where
  "op_out src (Insert bs) = bs"
| "op_out src (Copy off len) = take len (drop off src)"

fun op_ok :: "byte list \<Rightarrow> delta_op \<Rightarrow> bool" where
  "op_ok src (Insert bs) \<longleftrightarrow> 1 \<le> length bs \<and> length bs \<le> 127"
| "op_ok src (Copy off len) \<longleftrightarrow> 1 \<le> len \<and> len \<le> 65536 \<and> off < 2 ^ 32 \<and> off + len \<le> length src"

abbreviation ops_bytes :: "delta_op list \<Rightarrow> byte list" where
  "ops_bytes ops \<equiv> concat (map op_bytes ops)"

abbreviation ops_out :: "byte list \<Rightarrow> delta_op list \<Rightarrow> byte list" where
  "ops_out src ops \<equiv> concat (map (op_out src) ops)"

section \<open>Replaying one instruction\<close>

lemma digits_sum:
  fixes n :: nat
  assumes "n = x0 + n1 * 256" "n1 = x1 + n2 * 256" "n2 = x2 + n3 * 256"
  shows "x0 + x1 * 256 + x2 * 256 ^ 2 + n3 * 256 ^ 3 = n"
  unfolding assms by simp

lemma base_256_sum:
  assumes "(n :: nat) < 2 ^ 32"
  shows "n div 256 ^ 0 mod 256 + n div 256 ^ 1 mod 256 * 256 +
         n div 256 ^ 2 mod 256 * 256 ^ 2 + n div 256 ^ 3 mod 256 * 256 ^ 3 = n"
proof -
  have digit: "m = m mod 256 + m div 256 * 256" for m :: nat by simp
  have "n div 256 ^ 3 < 256" using assms by (simp add: less_mult_imp_div_less)
  then have last: "n div 256 ^ 3 mod 256 = n div 256 ^ 3" by simp
  have d0: "n = n div 256 ^ 0 mod 256 + n div 256 ^ 1 * 256" by simp
  have d1: "n div 256 ^ 1 = n div 256 ^ 1 mod 256 + n div 256 ^ 2 * 256"
    using digit [of "n div 256"] by (simp add: div_mult2_eq [symmetric])
  have d2: "n div 256 ^ 2 = n div 256 ^ 2 mod 256 + n div 256 ^ 3 * 256"
    using digit [of "n div 256 ^ 2"] by (simp add: div_mult2_eq [symmetric])
  show ?thesis using digits_sum [OF d0 d1 d2] by (simp only: last)
qed

lemma unat_byte [simp]: "n < 256 \<Longrightarrow> unat (word_of_nat n :: byte) = n"
  by (simp add: unsigned_of_nat take_bit_nat_eq_self)

text \<open>The arguments of a copy instruction, from the six bytes that may be left out.\<close>

definition copy_bytes :: "nat \<Rightarrow> nat \<Rightarrow> nat \<Rightarrow> nat \<Rightarrow> nat \<Rightarrow> nat \<Rightarrow> byte list" where
  "copy_bytes a0 a1 a2 a3 s0 s1 =
     (let arg = (\<lambda>b. if b \<noteq> 0 then [word_of_nat b :: byte] else []);
          flag = (\<lambda>b f. if b \<noteq> 0 then f else 0 :: byte)
      in (0x80 OR flag a0 0x01 OR flag a1 0x02 OR flag a2 0x04 OR flag a3 0x08
            OR flag s0 0x10 OR flag s1 0x20)
         # arg a0 @ arg a1 @ arg a2 @ arg a3 @ arg s0 @ arg s1)"

lemma copy_op_bytes:
  "copy_op moff msize =
     copy_bytes (moff div 256 ^ 0 mod 256) (moff div 256 ^ 1 mod 256) (moff div 256 ^ 2 mod 256)
       (moff div 256 ^ 3 mod 256) (msize div 256 ^ 0 mod 256) (msize div 256 ^ 1 mod 256)"
  unfolding copy_op_def copy_bytes_def Let_def by (rule refl)

lemma copy_args_bytes:
  assumes "a0 < 256" "a1 < 256" "a2 < 256" "a3 < 256" "s0 < 256" "s1 < 256"
  shows "\<exists>cmd args. copy_bytes a0 a1 a2 a3 s0 s1 = cmd # args \<and> cmd AND 0x80 \<noteq> 0 \<and>
     copy_args cmd (args @ rest) =
       Some (a0 + a1 * 256 + a2 * 256 ^ 2 + a3 * 256 ^ 3,
             if s0 + s1 * 256 = 0 then 0x10000 else s0 + s1 * 256, rest)"
  using assms
  by (cases "a0 = 0"; cases "a1 = 0"; cases "a2 = 0"; cases "a3 = 0"; cases "s0 = 0"; cases "s1 = 0")
     (simp_all add: copy_bytes_def copy_args_def)

lemma copy_op_args:
  assumes "moff < 2 ^ 32" and "1 \<le> msize" and "msize \<le> 65536"
  shows "\<exists>cmd args. copy_op moff msize = cmd # args \<and> cmd AND 0x80 \<noteq> 0 \<and>
     copy_args cmd (args @ rest) = Some (moff, msize, rest)"
proof -
  note base_256_sum [OF assms(1)]
  moreover have "(if msize div 256 ^ 0 mod 256 + msize div 256 ^ 1 mod 256 * 256 = 0 then 0x10000
      else msize div 256 ^ 0 mod 256 + msize div 256 ^ 1 mod 256 * 256) = msize"
  proof (cases "msize = 65536")
    case False
    with assms(3) have "msize div 256 < 256" by (simp add: less_mult_imp_div_less)
    with assms(2) show ?thesis by simp
  qed simp
  ultimately show ?thesis
    unfolding copy_op_bytes
    using copy_args_bytes [of "moff div 256 ^ 0 mod 256" "moff div 256 ^ 1 mod 256"
        "moff div 256 ^ 2 mod 256" "moff div 256 ^ 3 mod 256" "msize div 256 ^ 0 mod 256"
        "msize div 256 ^ 1 mod 256" rest]
    by (simp only: mod_less_divisor zero_less_numeral simp_thms if_cancel)
qed

lemma small_count:
  assumes "1 \<le> n" "n \<le> 127"
  shows "(word_of_nat n :: byte) AND 0x80 = 0" "(word_of_nat n :: byte) \<noteq> 0"
proof -
  have "n < 2 ^ 7" using assms by simp
  then have "take_bit 7 n = n" by (simp add: take_bit_nat_eq_self)
  then have "\<not> bit n 7" by (metis bit_take_bit_iff less_irrefl)
  then have "\<not> bit (word_of_nat n :: byte) 7" by (simp add: bit_simps)
  then show "(word_of_nat n :: byte) AND 0x80 = 0"
    using and_exp_eq_0_iff_not_bit [of "word_of_nat n :: byte" 7] by simp
  show "(word_of_nat n :: byte) \<noteq> 0"
    using assms unat_byte [of n] by force
qed

lemma patch_op:
  assumes "op_ok src oper" and "length (op_out src oper) \<le> sz" and "length src < 2 ^ 63"
  shows "patch_loop src (op_bytes oper @ rest) sz out =
     patch_loop src rest (sz - length (op_out src oper)) (out @ op_out src oper)"
proof (cases oper)
  case (Insert bs)
  with assms small_count [of "length bs"] show ?thesis by simp
next
  case (Copy off len)
  with assms obtain cmd args where "copy_op off len = cmd # args" "cmd AND 0x80 \<noteq> 0"
    "copy_args cmd (args @ rest) = Some (off, len, rest)"
    using copy_op_args [of off len rest] by auto
  moreover have "min (length src - off) len = len" using Copy assms(1) by auto
  ultimately show ?thesis using Copy assms by simp
qed

lemma patch_ops:
  assumes "list_all (op_ok src) ops" and "length src < 2 ^ 63"
  shows "patch_loop src (ops_bytes ops @ rest) (length (ops_out src ops) + sz) out =
     patch_loop src rest sz (out @ ops_out src ops)"
  using assms(1)
proof (induction ops arbitrary: out)
  case (Cons oper ops)
  then show ?case
    using patch_op [OF _ _ assms(2), of oper "length (ops_out src (oper # ops)) + sz" "ops_bytes ops @ rest" out]
    by (simp add: add.assoc)
qed simp

section \<open>The header\<close>

lemma word_of_nat_split_7:
  "(word_of_nat n :: u64) = word_of_nat (n mod 128) OR push_bit 7 (word_of_nat (n div 128))"
  by (rule bit_word_eqI)
     (auto simp: bit_simps simp flip: take_bit_eq_mod [where n = 7, simplified] drop_bit_eq_div [where n = 7, simplified])

lemma store_size_cont:
  "(word_of_nat n OR 0x80 :: byte) AND 0x80 \<noteq> 0"
  "ucast ((word_of_nat n OR 0x80 :: byte) AND 0x7f) = (word_of_nat (n mod 128) :: u64)"
  "n < 128 \<Longrightarrow> (word_of_nat n :: byte) AND 0x80 = 0"
  "n < 128 \<Longrightarrow> ucast ((word_of_nat n :: byte) AND 0x7f) = (word_of_nat n :: u64)"
proof -
  have bit_128: "bit (0x80 :: byte) k \<longleftrightarrow> k = 7" for k
  proof -
    have "bit (2 ^ 7 :: byte) k \<longleftrightarrow> k = 7" by (subst bit_exp_iff) auto
    then show ?thesis by simp
  qed
  have low: "(0x7f :: byte) = mask 7" by (simp add: mask_eq_exp_minus_1)
  have mod: "n mod 128 = take_bit 7 n" by (simp add: take_bit_eq_mod)
  show "(word_of_nat n OR 0x80 :: byte) AND 0x80 \<noteq> 0"
    using and_exp_eq_0_iff_not_bit [of "word_of_nat n OR 0x80 :: byte" 7]
    by (simp add: bit_simps bit_128)
  show "ucast ((word_of_nat n OR 0x80 :: byte) AND 0x7f) = (word_of_nat (n mod 128) :: u64)"
    unfolding low mod by (rule bit_word_eqI) (auto simp: bit_simps dest: bit_128_imp)
  assume n: "n < 128"
  then have "take_bit 7 n = n" by (simp add: take_bit_nat_eq_self)
  then have high: "bit n k \<Longrightarrow> k < 7" for k by (metis bit_take_bit_iff)
  show "(word_of_nat n :: byte) AND 0x80 = 0"
    using and_exp_eq_0_iff_not_bit [of "word_of_nat n :: byte" 7] high [of 7]
    by (fastforce simp: bit_simps)
  show "ucast ((word_of_nat n :: byte) AND 0x7f) = (word_of_nat n :: u64)"
    unfolding low by (rule bit_word_eqI) (auto simp: bit_simps dest: high)
qed

lemma store_size_not_Nil [simp]: "store_size n \<noteq> []"
  by (subst store_size.simps) simp

lemma hdr_size_loop:
  "get_delta_hdr_size_loop (store_size n @ rest) i acc = Some (acc OR push_bit i (word_of_nat n), rest)"
proof (induction n arbitrary: i acc rule: store_size.induct)
  case (1 n)
  show ?case
  proof (cases "0x80 \<le> n")
    case True
    have "acc OR push_bit i (word_of_nat (n mod 128)) OR push_bit (i + 7) (word_of_nat (n div 128)) =
        acc OR push_bit i (word_of_nat n :: u64)"
      by (subst (3) word_of_nat_split_7) (simp add: push_bit_or or.assoc push_bit_push_bit add.commute)
    with True 1 show ?thesis
      by (subst store_size.simps) (simp add: store_size_cont Let_def or.assoc)
  next
    case False
    then show ?thesis
      by (subst store_size.simps) (simp add: store_size_cont Let_def)
  qed
qed

lemma hdr_size: "n < 2 ^ 32 \<Longrightarrow> get_delta_hdr_size (store_size n @ rest) = Some (word_of_nat n, rest)"
  by (simp add: get_delta_hdr_size_def hdr_size_loop)

section \<open>Matches\<close>

text \<open>A block of the source that agrees with the target at \<open>data\<close>.\<close>

definition match_ok :: "byte list \<Rightarrow> byte list \<Rightarrow> nat \<Rightarrow> nat \<Rightarrow> nat \<Rightarrow> bool" where
  "match_ok src tbuf data moff msize \<longleftrightarrow>
     moff + msize \<le> length src \<and> data + msize \<le> length tbuf \<and>
     (\<forall>i < msize. src ! (moff + i) = tbuf ! (data + i))"

lemma match_ok_take:
  "match_ok src tbuf data moff msize \<Longrightarrow> n \<le> msize \<Longrightarrow>
     take data tbuf @ take n (drop moff src) = take (data + n) tbuf"
  unfolding take_add
  by (intro arg_cong2 [where f = "(@)"] refl nth_equalityI) (auto simp: match_ok_def)

lemma match_ok_drop:
  "match_ok src tbuf data moff msize \<Longrightarrow> n \<le> msize \<Longrightarrow>
     match_ok src tbuf (data + n) (moff + n) (msize - n)"
  by (auto simp: match_ok_def add.assoc)

lemma match_run_spec:
  "ref \<le> match_run sbuf tbuf n s ref \<and> match_run sbuf tbuf n s ref \<le> ref + n \<and>
   (\<forall>i < match_run sbuf tbuf n s ref - ref. tbuf ! (s + i) = sbuf ! (ref + i))"
proof (induction n arbitrary: s ref)
  case (Suc n)
  show ?case
  proof (cases "tbuf ! s = sbuf ! ref")
    case True
    let ?r = "match_run sbuf tbuf n (s + 1) (ref + 1)"
    note IH = Suc.IH [of "ref + 1" "s + 1"]
    have "tbuf ! (s + i) = sbuf ! (ref + i)" if "i < ?r - ref" for i
      using that True IH by (cases i) auto
    with True IH show ?thesis by auto
  qed simp
qed simp

lemma match_length_ok:
  assumes "ie_ptr e \<le> length src" and "data \<le> length tbuf"
  shows "match_ok src tbuf data (ie_ptr e) (match_length src tbuf data e)"
proof -
  have "match_limit src tbuf data e \<le> length src - ie_ptr e"
    "match_limit src tbuf data e \<le> length tbuf - data"
    unfolding match_limit_def by (auto intro: min.coboundedI1 mod_less_eq_dividend)
  then show ?thesis
    using match_run_spec [where n = "match_limit src tbuf data e" and s = data and ref = "ie_ptr e"
        and sbuf = src and tbuf = tbuf] assms
    unfolding match_ok_def match_length_def by fastforce
qed

lemma find_match_ok:
  "\<forall>e \<in> set es. ie_ptr e \<le> length src \<Longrightarrow> data \<le> length tbuf \<Longrightarrow>
     match_ok src tbuf data moff msize \<Longrightarrow> find_match src tbuf val data es msize moff = (msize', moff') \<Longrightarrow>
     match_ok src tbuf data moff' msize'"
proof (induction es arbitrary: msize moff)
  case (Cons e es)
  then have "match_ok src tbuf data (ie_ptr e) (match_length src tbuf data e)"
    by (intro match_length_ok) auto
  moreover have "\<forall>e \<in> set es. ie_ptr e \<le> length src" using Cons.prems(1) by simp
  ultimately show ?case
    using Cons.IH Cons.prems(2-4) by (auto simp: Let_def split: if_splits)
qed simp

section \<open>The state of the loop\<close>

definition index_ok :: "delta_index \<Rightarrow> bool" where
  "index_ok index \<longleftrightarrow>
     length (di_src index) < 2 ^ 32 \<and> unat (di_mask index) < length (di_hash index) \<and>
     (\<forall>es \<in> set (di_hash index). \<forall>e \<in> set es. ie_ptr e \<le> length (di_src index))"

text \<open>
  \<open>written\<close>: the output after the header \<open>H\<close> is the encoding of \<open>ops\<close> and a pending run
  of literals \<open>lits\<close> behind the slot for their count; together they produce the target up to
  \<open>data\<close>.
\<close>

definition written ::
  "byte list \<Rightarrow> byte list \<Rightarrow> byte list \<Rightarrow> byte list \<Rightarrow> nat \<Rightarrow> nat \<Rightarrow> delta_op list \<Rightarrow> byte list \<Rightarrow> bool" where
  "written H src tbuf out data inscnt ops lits \<longleftrightarrow>
     list_all (op_ok src) ops \<and> length lits = inscnt \<and> data \<le> length tbuf \<and>
     ops_out src ops @ lits = take data tbuf \<and>
     (\<exists>slot. out = H @ ops_bytes ops @ (if inscnt = 0 then [] else slot # lits))"

definition delta_inv :: "byte list \<Rightarrow> byte list \<Rightarrow> byte list \<Rightarrow> delta_state \<Rightarrow> bool" where
  "delta_inv H src tbuf st \<longleftrightarrow>
     ds_inscnt st < 0x7f \<and> match_ok src tbuf (ds_data st) (ds_moff st) (ds_msize st) \<and>
     (\<exists>ops lits. written H src tbuf (ds_out st) (ds_data st) (ds_inscnt st) ops lits)"

lemma close_insert_length [simp]: "length (close_insert out n) = length out"
  by (simp add: close_insert_def)

lemma close_insert_slot:
  "lits \<noteq> [] \<Longrightarrow> close_insert (A @ slot # lits) (length lits) = A @ word_of_nat (length lits) # lits"
  by (simp add: close_insert_def list_update_append)

lemma written_close:
  assumes "written H src tbuf out data inscnt ops lits" and "inscnt \<le> 127"
  shows "\<exists>ops'. written H src tbuf (close_insert out inscnt) data 0 ops' []"
proof (cases "inscnt = 0")
  case True
  with assms(1) show ?thesis by (auto simp: written_def close_insert_def)
next
  case False
  with assms obtain slot where out: "out = (H @ ops_bytes ops) @ slot # lits"
    by (auto simp: written_def)
  have len: "length lits = inscnt" using assms(1) by (simp add: written_def)
  with False have "lits \<noteq> []" by auto
  then have "close_insert out inscnt = H @ ops_bytes (ops @ [Insert lits])"
    using close_insert_slot [of lits "H @ ops_bytes ops" slot] len out by simp
  with assms False show ?thesis
    by (intro exI [of _ "ops @ [Insert lits]"]) (auto simp: written_def)
qed

lemma written_literal:
  assumes w: "written H src tbuf out data inscnt ops lits" and data: "data < length tbuf"
  shows "written H src tbuf ((if inscnt = 0 then out @ [0] else out) @ [tbuf ! data]) (data + 1)
     (inscnt + 1) ops (lits @ [tbuf ! data])"
proof -
  have "ops_out src ops @ lits @ [tbuf ! data] = take (data + 1) tbuf"
    using w data by (auto simp: written_def take_Suc_conv_app_nth simp flip: append_assoc)
  then show ?thesis using w data by (auto simp: written_def)
qed

lemma written_copy:
  assumes w: "written H src tbuf out data 0 ops []" and m: "match_ok src tbuf data moff msize"
    and n: "1 \<le> n" "n \<le> msize" "n \<le> 65536" and "length src < 2 ^ 32"
  shows "written H src tbuf (out @ copy_op moff n) (data + n) 0 (ops @ [Copy moff n]) []"
proof -
  have "moff < 2 ^ 32" "moff + n \<le> length src" "data + n \<le> length tbuf"
    using m n assms(6) by (auto simp: match_ok_def)
  moreover have "ops_out src (ops @ [Copy moff n]) = take (data + n) tbuf"
    using match_ok_take [OF m n(2)] w by (simp add: written_def)
  ultimately show ?thesis
    using w n by (auto simp: written_def)
qed

lemma search_step_inv:
  assumes "index_ok index" and inv: "delta_inv H (di_src index) tbuf st"
    and "ds_data st < length tbuf"
  shows "delta_inv H (di_src index) tbuf (search_step index tbuf st)"
    and "ds_data (search_step index tbuf st) = ds_data st"
proof -
  show "ds_data (search_step index tbuf st) = ds_data st"
    by (simp add: search_step_def Let_def split: prod.splits)
  show "delta_inv H (di_src index) tbuf (search_step index tbuf st)"
  proof (cases "ds_msize st < 4096")
    case True
    let ?val = "rabin (ds_val st XOR U_table ! unat (tbuf ! (ds_data st - RABIN_WINDOW))) (tbuf ! ds_data st)"
    let ?es = "di_hash index ! unat (?val AND di_mask index)"
    obtain msize moff where m: "find_match (di_src index) tbuf ?val (ds_data st) ?es (ds_msize st) (ds_moff st) = (msize, moff)"
      by fastforce
    have "?val AND di_mask index \<le> di_mask index" by (rule word_and_le1)
    then have "unat (?val AND di_mask index) < length (di_hash index)"
      using assms(1) by (simp add: index_ok_def word_le_nat_alt)
    then have "?es \<in> set (di_hash index)" by simp
    then have "\<forall>e \<in> set ?es. ie_ptr e \<le> length (di_src index)"
      using assms(1) by (simp add: index_ok_def)
    then have "match_ok (di_src index) tbuf (ds_data st) moff msize"
      using inv assms(3) m by (intro find_match_ok [OF _ _ _ m]) (auto simp: delta_inv_def)
    with True m inv show ?thesis
      by (simp add: search_step_def delta_inv_def Let_def)
  qed (simp add: search_step_def inv)
qed

lemma literal_step_inv:
  assumes inv: "delta_inv H src tbuf st" and data: "ds_data st < length tbuf"
  shows "delta_inv H src tbuf (literal_step tbuf st)"
    and "ds_data (literal_step tbuf st) = ds_data st + 1"
    and "length (ds_out (literal_step tbuf st)) \<le> length (ds_out st) + 2"
proof -
  let ?out = "(if ds_inscnt st = 0 then ds_out st @ [0] else ds_out st) @ [tbuf ! ds_data st]"
  let ?n = "ds_inscnt st + 1"
  show "ds_data (literal_step tbuf st) = ds_data st + 1"
    by (simp add: literal_step_def Let_def)
  show "length (ds_out (literal_step tbuf st)) \<le> length (ds_out st) + 2"
    by (simp add: literal_step_def Let_def)
  from inv obtain ops lits where w: "written H src tbuf (ds_out st) (ds_data st) (ds_inscnt st) ops lits"
    and n: "?n \<le> 127" and m: "ds_moff st \<le> length src"
    by (auto simp: delta_inv_def match_ok_def)
  note w = written_literal [OF w data]
  show "delta_inv H src tbuf (literal_step tbuf st)"
  proof (cases "?n = 127")
    case True
    from written_close [OF w n] obtain ops' where
      "written H src tbuf (close_insert ?out ?n) (ds_data st + 1) 0 ops' []" by blast
    with True data m show ?thesis
      by (auto simp: literal_step_def delta_inv_def Let_def match_ok_def)
  next
    case False
    from w have "\<exists>ops lits. written H src tbuf ?out (ds_data st + 1) ?n ops lits" by blast
    with False n data m show ?thesis
      by (auto simp: literal_step_def delta_inv_def Let_def match_ok_def)
  qed
qed

text \<open>Extending a match backwards takes literals back and keeps its end where it was.\<close>

lemma written_back:
  assumes w: "written H src tbuf out data (Suc n) ops lits"
  shows "0 < data" and "data \<le> length tbuf"
    and "written H src tbuf (if 0 < n then butlast out else butlast (butlast out)) (data - 1) n ops (butlast lits)"
proof -
  have len: "length lits = Suc n" and eq: "ops_out src ops @ lits = take data tbuf"
    and le: "data \<le> length tbuf"
    using w by (auto simp: written_def)
  then have ne: "lits \<noteq> []" by auto
  show "data \<le> length tbuf" by (rule le)
  have "length (take data tbuf) \<ge> Suc n" using len by (simp flip: eq)
  then show pos: "0 < data" by auto
  have "ops_out src ops @ butlast lits = butlast (take data tbuf)"
    using ne by (simp flip: eq add: butlast_append)
  also have "\<dots> = take (data - 1) tbuf" using le by (simp add: butlast_take)
  finally show "written H src tbuf (if 0 < n then butlast out else butlast (butlast out)) (data - 1) n ops (butlast lits)"
    using w len ne le by (auto simp: written_def butlast_append length_Suc_conv)
qed

lemma match_back_inv:
  "written H src tbuf (ds_out st) (ds_data st) (ds_inscnt st) ops lits \<Longrightarrow>
   match_ok src tbuf (ds_data st) (ds_moff st) (ds_msize st) \<Longrightarrow> n = ds_inscnt st \<Longrightarrow>
   st' = match_back src tbuf n st \<Longrightarrow>
   \<exists>lits'. written H src tbuf (ds_out st') (ds_data st') (ds_inscnt st') ops lits' \<and>
    match_ok src tbuf (ds_data st') (ds_moff st') (ds_msize st') \<and>
    ds_data st' + ds_msize st' = ds_data st + ds_msize st \<and>
    ds_data st \<le> ds_data st' + ds_inscnt st \<and> ds_data st' \<le> ds_data st \<and>
    ds_inscnt st' \<le> ds_inscnt st \<and>
    length (ds_out st') + ds_data st \<le> length (ds_out st) + ds_data st'"
proof (induction src tbuf n st arbitrary: lits rule: match_back.induct)
  case (1 sbuf tbuf st)
  then show ?case by (intro exI [of _ lits]) simp
next
  case (2 src tbuf n st)
  show ?case
  proof (cases "0 < ds_moff st \<and> src ! (ds_moff st - 1) = tbuf ! (ds_data st - 1)")
    case False
    then have "st' = st" using "2.prems"(4) by (simp only: match_back.simps if_False)
    with "2.prems" show ?thesis by (intro exI [of _ lits]) simp
  next
    case True
    let ?st = "st\<lparr>ds_msize := ds_msize st + 1, ds_moff := ds_moff st - 1,
                  ds_data := ds_data st - 1, ds_out := butlast (ds_out st), ds_inscnt := n\<rparr>"
    from "2.prems"(1,3) have w0: "written H src tbuf (ds_out st) (ds_data st) (Suc n) ops lits"
      by simp
    note w = written_back [OF w0]
    obtain k where ne: "length (ds_out st) = Suc k"
      using w0 by (cases "ds_out st") (auto simp: written_def)
    have "src ! (ds_moff st - 1 + i) = tbuf ! (ds_data st - 1 + i)" if "i < Suc (ds_msize st)" for i
      using that True w(1) "2.prems"(2) by (cases i) (auto simp: match_ok_def)
    with "2.prems"(2) True w(1) have m: "match_ok src tbuf (ds_data st - 1) (ds_moff st - 1) (ds_msize st + 1)"
      by (auto simp: match_ok_def)
    show ?thesis
    proof (cases "0 < n")
      case n: True
      with w(3) have "written H src tbuf (ds_out ?st) (ds_data ?st) (ds_inscnt ?st) ops (butlast lits)" by simp
      then obtain lits' where "written H src tbuf (ds_out st') (ds_data st') (ds_inscnt st') ops lits' \<and>
          match_ok src tbuf (ds_data st') (ds_moff st') (ds_msize st') \<and>
          ds_data st' + ds_msize st' = ds_data ?st + ds_msize ?st \<and>
          ds_data ?st \<le> ds_data st' + ds_inscnt ?st \<and> ds_data st' \<le> ds_data ?st \<and>
          ds_inscnt st' \<le> ds_inscnt ?st \<and>
          length (ds_out st') + ds_data ?st \<le> length (ds_out ?st) + ds_data st'"
        using "2.IH" [OF True refl n, of "butlast lits"] "2.prems"(4) m n True by auto
      then show ?thesis using w(1) ne "2.prems"(3) by (intro exI [of _ lits']) auto
    next
      case False
      then have "st' = ?st\<lparr>ds_out := butlast (ds_out ?st)\<rparr>"
        using True "2.prems"(4) by (simp add: Let_def)
      with w(1,3) ne False m "2.prems"(3) [symmetric] show ?thesis
        by (intro exI [of _ "butlast lits"]) auto
    qed
  qed
qed

lemma copy_op_short: "length (copy_op moff n) \<le> 7"
proof -
  define arg :: "nat \<Rightarrow> nat \<Rightarrow> byte list"
    where "arg n k = (if n div 256 ^ k mod 256 \<noteq> 0 then [word_of_nat (n div 256 ^ k mod 256)] else [])" for n k
  have "length (arg n k) \<le> 1" for n k by (simp add: arg_def)
  from this [of moff 0] this [of moff 1] this [of moff 2] this [of moff 3] this [of n 0] this [of n 1]
  show ?thesis
    unfolding copy_op_def Let_def by (simp only: arg_def [symmetric] list.size length_append)
qed

lemma match_back_outsize: "ds_outsize (match_back src tbuf n st) = ds_outsize st"
proof (induction n arbitrary: st)
  case 0
  show ?case by (simp only: match_back.simps)
next
  case (Suc n)
  show ?case
    by (cases "0 < ds_moff st \<and> src ! (ds_moff st - 1) = tbuf ! (ds_data st - 1)"; cases "0 < n")
      (simp_all only: match_back.simps Let_def if_True if_False simp_thms Suc.IH, simp_all)
qed

lemma copy_step_inv:
  assumes inv: "delta_inv H src tbuf st" and src: "length src < 2 ^ 32" and size: "4 \<le> ds_msize st"
  shows "delta_inv H src tbuf (copy_step src tbuf st)"
    and "ds_data st < ds_data (copy_step src tbuf st)"
    and "length (ds_out (copy_step src tbuf st)) \<le> length (ds_out st) + 7"
    and "length (ds_out (copy_step src tbuf st)) + 2 * ds_data st \<le> length (ds_out st) + 2 * ds_data (copy_step src tbuf st)"
proof -
  define st1 where "st1 = (if ds_inscnt st = 0 then st
     else let st' = match_back src tbuf (ds_inscnt st) st
          in st'\<lparr>ds_out := close_insert (ds_out st') (ds_inscnt st'), ds_inscnt := 0\<rparr>)"
  have "\<exists>ops. written H src tbuf (ds_out st1) (ds_data st1) 0 ops [] \<and>
      match_ok src tbuf (ds_data st1) (ds_moff st1) (ds_msize st1) \<and>
      ds_data st1 + ds_msize st1 = ds_data st + ds_msize st \<and>
      ds_data st \<le> ds_data st1 + 126 \<and> ds_data st1 \<le> ds_data st \<and>
      length (ds_out st1) + ds_data st \<le> length (ds_out st) + ds_data st1"
  proof (cases "ds_inscnt st = 0")
    case True
    with inv show ?thesis by (auto simp: delta_inv_def st1_def written_def)
  next
    case False
    from inv obtain ops lits where w: "written H src tbuf (ds_out st) (ds_data st) (ds_inscnt st) ops lits"
      and m: "match_ok src tbuf (ds_data st) (ds_moff st) (ds_msize st)" and n: "ds_inscnt st \<le> 126"
      by (auto simp: delta_inv_def)
    define st2 where "st2 = match_back src tbuf (ds_inscnt st) st"
    obtain lits' where b: "written H src tbuf (ds_out st2) (ds_data st2) (ds_inscnt st2) ops lits'"
      "match_ok src tbuf (ds_data st2) (ds_moff st2) (ds_msize st2)"
      "ds_data st2 + ds_msize st2 = ds_data st + ds_msize st"
      "ds_data st \<le> ds_data st2 + ds_inscnt st" "ds_data st2 \<le> ds_data st"
      "ds_inscnt st2 \<le> ds_inscnt st" "length (ds_out st2) + ds_data st \<le> length (ds_out st) + ds_data st2"
      using match_back_inv [OF w m refl st2_def] by blast
    with n obtain ops' where "written H src tbuf (close_insert (ds_out st2) (ds_inscnt st2)) (ds_data st2) 0 ops' []"
      using written_close [OF b(1)] by auto
    with b n False show ?thesis
      by (intro exI [of _ ops']) (simp add: st1_def Let_def flip: st2_def)
  qed
  then obtain ops where w: "written H src tbuf (ds_out st1) (ds_data st1) 0 ops []"
    and m: "match_ok src tbuf (ds_data st1) (ds_moff st1) (ds_msize st1)"
    and d: "ds_data st1 + ds_msize st1 = ds_data st + ds_msize st"
      "ds_data st \<le> ds_data st1 + 126" "ds_data st1 \<le> ds_data st"
      "length (ds_out st1) + ds_data st \<le> length (ds_out st) + ds_data st1" by blast
  define left where "left = (if ds_msize st1 < 0x10000 then 0 else ds_msize st1 - 0x10000)"
  define n where "n = ds_msize st1 - left"
  have n: "1 \<le> n" "n \<le> ds_msize st1" "n \<le> 65536" "ds_msize st1 - n = left" and prog: "ds_data st + 4 \<le> ds_data st1 + n"
    using size d by (auto simp: n_def left_def)
  have step: "ds_out (copy_step src tbuf st) = ds_out st1 @ copy_op (ds_moff st1) n"
      "ds_data (copy_step src tbuf st) = ds_data st1 + n" "ds_moff (copy_step src tbuf st) = ds_moff st1 + n"
      "ds_msize (copy_step src tbuf st) = left" "ds_inscnt (copy_step src tbuf st) = 0"
    unfolding copy_step_def Let_def n_def left_def st1_def by (auto simp: Let_def)
  show "ds_data st < ds_data (copy_step src tbuf st)" using prog step(2) by simp
  show "delta_inv H src tbuf (copy_step src tbuf st)"
    using written_copy [OF w m n(1-3) src] match_ok_drop [OF m n(2)] n(4)
    unfolding delta_inv_def step by auto
  show "length (ds_out (copy_step src tbuf st)) \<le> length (ds_out st) + 7"
    and "length (ds_out (copy_step src tbuf st)) + 2 * ds_data st \<le> length (ds_out st) + 2 * ds_data (copy_step src tbuf st)"
    using d prog copy_op_short [of "ds_moff st1" n] by (simp_all add: step)
qed

section \<open>The whole loop\<close>

lemma search_step_same:
  "ds_out (search_step index tbuf st) = ds_out st" "ds_outsize (search_step index tbuf st) = ds_outsize st"
  by (simp_all add: search_step_def Let_def split: prod.splits)

lemma delta_step_inv:
  assumes "index_ok index" and inv: "delta_inv H (di_src index) tbuf st" and "ds_data st < length tbuf"
  shows "delta_inv H (di_src index) tbuf (delta_step index tbuf st)"
    and "ds_data st < ds_data (delta_step index tbuf st)"
    and "length (ds_out (delta_step index tbuf st)) \<le> length (ds_out st) + 7"
    and "length (ds_out (delta_step index tbuf st)) + 2 * ds_data st \<le>
           length (ds_out st) + 2 * ds_data (delta_step index tbuf st)"
proof -
  let ?st = "search_step index tbuf st"
  note s = search_step_inv [OF assms]
  have src: "length (di_src index) < 2 ^ 32" using assms(1) by (simp add: index_ok_def)
  have "delta_inv H (di_src index) tbuf (delta_step index tbuf st) \<and>
      ds_data st < ds_data (delta_step index tbuf st) \<and>
      length (ds_out (delta_step index tbuf st)) \<le> length (ds_out st) + 7 \<and>
      length (ds_out (delta_step index tbuf st)) + 2 * ds_data st \<le>
        length (ds_out st) + 2 * ds_data (delta_step index tbuf st)"
  proof (cases "ds_msize ?st < 4")
    case True
    then show ?thesis
      using literal_step_inv [OF s(1)] assms(3) s(2) by (simp add: delta_step_def Let_def search_step_same)
  next
    case False
    then show ?thesis
      using copy_step_inv [OF s(1) src] s(2) by (simp add: delta_step_def Let_def search_step_same)
  qed
  then show "delta_inv H (di_src index) tbuf (delta_step index tbuf st)"
    and "ds_data st < ds_data (delta_step index tbuf st)"
    and "length (ds_out (delta_step index tbuf st)) \<le> length (ds_out st) + 7"
    and "length (ds_out (delta_step index tbuf st)) + 2 * ds_data st \<le>
           length (ds_out st) + 2 * ds_data (delta_step index tbuf st)" by blast+
qed

lemma delta_step_outsize: "ds_outsize (delta_step index tbuf st) = ds_outsize st"
  by (simp add: delta_step_def literal_step_def copy_step_def Let_def search_step_same match_back_outsize)

lemma grow_step_same:
  "grow_step max_size st = Some st' \<Longrightarrow>
     ds_out st' = ds_out st \<and> ds_data st' = ds_data st \<and> ds_inscnt st' = ds_inscnt st \<and>
     ds_moff st' = ds_moff st \<and> ds_msize st' = ds_msize st"
  by (auto simp: grow_step_def Let_def split: if_splits)

lemma grow_step_None: "grow_step max_size st = None \<Longrightarrow> max_size \<noteq> 0 \<and> max_size < length (ds_out st)"
  by (auto simp: grow_step_def Let_def split: if_splits)

lemma delta_inv_grow:
  "grow_step max_size st = Some st' \<Longrightarrow> delta_inv H src tbuf st \<Longrightarrow> delta_inv H src tbuf st'"
  by (drule grow_step_same) (simp add: delta_inv_def)

text \<open>
  The room in the output buffer. A target of at most 512 MiB never has a delta of more than 1 GiB, and a limit of at most
  \<open>(2 ^ 32 - 1) div 3\<close> stops the growth, before \<^verbatim>\<open>outsize * 3\<close> leaves 32 bits.
\<close>

definition small_enough :: "byte list \<Rightarrow> nat \<Rightarrow> bool" where
  "small_enough tbuf max_size \<longleftrightarrow> length tbuf \<le> 2 ^ 29 \<or> 0 < max_size \<and> max_size \<le> 1431655765"

definition room :: "nat \<Rightarrow> delta_state \<Rightarrow> bool" where
  "room max_size st \<longleftrightarrow>
     length (ds_out st) + 7 \<le> ds_outsize st \<and> MAX_OP_SIZE \<le> ds_outsize st \<and> ds_outsize st < 2 ^ 32 \<and>
     length (ds_out st) \<le> 27 + 2 * ds_data st \<and>
     (0 < max_size \<and> max_size \<le> 1431655765 \<longrightarrow> ds_outsize st < max_size \<or> ds_outsize st = max_size + MAX_OP_SIZE + 1)"

lemma grow_step_room:
  assumes "small_enough tbuf max_size" and "ds_data st \<le> length tbuf"
    and out: "length (ds_out st) \<le> ds_outsize st" "length (ds_out st) \<le> 27 + 2 * ds_data st"
    and size: "MAX_OP_SIZE \<le> ds_outsize st" "ds_outsize st < 2 ^ 32"
    and lim: "0 < max_size \<and> max_size \<le> 1431655765 \<longrightarrow> ds_outsize st < max_size \<or> ds_outsize st = max_size + MAX_OP_SIZE + 1"
    and grow: "grow_step max_size st = Some st'"
  shows "room max_size st'"
proof -
  let ?p = "length (ds_out st)" and ?s = "ds_outsize st"
  have wrap: "(?s + 2 ^ 32 - MAX_OP_SIZE) mod 2 ^ 32 = ?s - MAX_OP_SIZE"
    using size by (simp add: le_mod_geq)
  show ?thesis
  proof (cases "?s - MAX_OP_SIZE \<le> ?p")
    case False
    then have "st' = st" using grow unfolding grow_step_def Let_def wrap by simp
    with False assms show ?thesis by (simp add: room_def)
  next
    case True
    let ?n = "?s * 3 div 2"
    have p: "max_size \<noteq> 0 \<Longrightarrow> ?p \<le> max_size"
      using grow True unfolding grow_step_def Let_def wrap by (auto split: if_splits)
    have s: "?s * 3 < 2 ^ 32"
    proof (cases "length tbuf \<le> 2 ^ 29")
      case True
      then show ?thesis using \<open>?s - MAX_OP_SIZE \<le> ?p\<close> out(2) assms(2) by simp
    next
      case False
      then have m: "0 < max_size" "max_size \<le> 1431655765" using assms(1) by (auto simp: small_enough_def)
      then have "?s \<noteq> max_size + MAX_OP_SIZE + 1" using True p by simp
      then show ?thesis using m lim by simp
    qed
    have st': "st' = st\<lparr>ds_outsize := if max_size \<noteq> 0 \<and> max_size \<le> ?n then (max_size + MAX_OP_SIZE + 1) mod 2 ^ 32 else ?n\<rparr>"
      using grow True s unfolding grow_step_def Let_def wrap by (auto split: if_splits)
    have n: "?p + 7 \<le> ?n" "MAX_OP_SIZE \<le> ?n" "?n < 2 ^ 32 div 2" using out(1) size(1) s by simp_all
    show ?thesis
    proof (cases "max_size \<noteq> 0 \<and> max_size \<le> ?n")
      case True
      with n have "(max_size + MAX_OP_SIZE + 1) mod 2 ^ 32 = max_size + MAX_OP_SIZE + 1" by simp
      then show ?thesis using True p n out(2) by (simp add: room_def st')
    next
      case False
      then show ?thesis using n out(2) by (auto simp: room_def st')
    qed
  qed
qed

lemma delta_loop_inv:
  assumes "index_ok index" and small: "small_enough tbuf max_size"
  shows "delta_inv H (di_src index) tbuf st \<Longrightarrow> room max_size st \<Longrightarrow> length tbuf - ds_data st < fuel \<Longrightarrow>
    \<exists>st'. delta_loop fuel index tbuf max_size st = Output st' \<and> delta_inv H (di_src index) tbuf st' \<and>
      (ds_data st' = length tbuf \<or> max_size \<noteq> 0 \<and> max_size < length (ds_out st'))"
proof (induction fuel arbitrary: st)
  case (Suc fuel)
  have fits: "\<not> ds_outsize st < length (ds_out st)" using Suc.prems(2) by (simp add: room_def)
  show ?case
  proof (cases "ds_data st < length tbuf")
    case True
    let ?st = "delta_step index tbuf st"
    note step = delta_step_inv [OF assms(1) Suc.prems(1) True]
    have "ds_data ?st \<le> length tbuf" using step(1) by (auto simp: delta_inv_def match_ok_def)
    moreover have sz: "length (ds_out ?st) \<le> ds_outsize ?st" "length (ds_out ?st) \<le> 27 + 2 * ds_data ?st"
      using step(3,4) Suc.prems(2) by (auto simp: room_def delta_step_outsize)
    ultimately have room: "room max_size st2" if "grow_step max_size ?st = Some st2" for st2
      using grow_step_room [OF small _ sz _ _ _ that] Suc.prems(2) by (auto simp: room_def delta_step_outsize)
    show ?thesis
    proof (cases "grow_step max_size ?st")
      case None
      with True fits sz(1) step grow_step_None [OF None] show ?thesis by (simp add: Let_def)
    next
      case (Some st2)
      have "length tbuf - ds_data st2 < fuel"
        using grow_step_same [OF Some] step(2) Suc.prems(3) True by simp
      with Suc.IH [OF delta_inv_grow [OF Some step(1)] room [OF Some]] True fits sz(1) Some show ?thesis
        by (simp add: Let_def)
    qed
  next
    case False
    moreover have "ds_data st \<le> length tbuf"
      using Suc.prems(1) by (auto simp: delta_inv_def match_ok_def)
    ultimately show ?thesis using Suc.prems(1) fits by simp
  qed
qed simp

abbreviation delta_header :: "nat \<Rightarrow> nat \<Rightarrow> byte list" where
  "delta_header n m \<equiv> store_size (n mod 2 ^ 32) @ store_size (m mod 2 ^ 32)"

lemma delta_start_inv:
  assumes "tbuf \<noteq> []"
  shows "delta_inv (delta_header (length (di_src index)) (length tbuf)) (di_src index) tbuf
           (delta_start index tbuf max_size)"
proof -
  let ?H = "delta_header (length (di_src index)) (length tbuf)" and ?w = "take RABIN_WINDOW tbuf"
  have "written ?H (di_src index) tbuf (?H @ [0] @ ?w) (length ?w) (length ?w) [] ?w"
    using assms by (auto simp: written_def min_def)
  then have "\<exists>ops lits. written ?H (di_src index) tbuf (?H @ [0] @ ?w) (length ?w) (length ?w) ops lits"
    by blast
  then show ?thesis
    by (auto simp: delta_inv_def delta_start_def Let_def match_ok_def)
qed

lemma store_size_length: "n < 2 ^ (7 * k) \<Longrightarrow> 0 < k \<Longrightarrow> length (store_size n) \<le> k"
proof (induction k arbitrary: n)
  case (Suc k)
  show ?case
  proof (cases "0x80 \<le> n")
    case True
    with Suc.prems have "n div 128 < 2 ^ (7 * k)" by (simp add: less_mult_imp_div_less power_add mult.commute)
    moreover from this True have "0 < k" by (cases k) auto
    ultimately show ?thesis using Suc.IH True by (subst store_size.simps) simp
  next
    case False
    then show ?thesis by (subst store_size.simps) simp
  qed
qed simp

lemma delta_start_room: "room max_size (delta_start index tbuf max_size)"
proof -
  have "length (store_size (n mod 2 ^ 32)) \<le> 5" for n
    by (rule store_size_length) (rule less_le_trans [OF mod_less_divisor], simp_all)
  from this [of "length (di_src index)"] this [of "length tbuf"] show ?thesis
    by (auto simp: delta_start_def room_def Let_def)
qed

lemma store_size_pos: "1 \<le> length (store_size n)"
  by (simp add: Suc_le_eq)

lemma first_op_length:
  assumes "op_ok src oper"
  shows "4 \<le> length (store_size (length src)) + 1 + length (op_bytes oper)"
proof (cases oper)
  case (Insert bs)
  then show ?thesis using assms store_size_pos [of "length src"] by simp
next
  case (Copy off len)
  note one = store_size_pos
  show ?thesis
  proof (cases "128 \<le> length src")
    case True
    then have "length (store_size (length src)) = Suc (length (store_size (length src div 128)))"
      by (subst store_size.simps) simp
    then show ?thesis using one [of "length src div 128"] Copy by (simp add: copy_op_def Let_def)
  next
    case False
    then have "len mod 256 \<noteq> 0" using Copy assms by simp
    then show ?thesis using one [of "length src"] Copy by (simp add: copy_op_def Let_def)
  qed
qed

lemma patch_written:
  assumes src: "length src < 2 ^ 32" and tbuf: "length tbuf < 2 ^ 32" and ne: "tbuf \<noteq> []"
    and w: "written (delta_header (length src) (length tbuf)) src tbuf out (length tbuf) 0 ops []"
  shows "patch_delta src out = Rebuilt tbuf"
proof -
  have out: "out = store_size (length src) @ store_size (length tbuf) @ ops_bytes ops"
    and ok: "list_all (op_ok src) ops" and prod: "ops_out src ops = tbuf"
    using w src tbuf by (auto simp: written_def)
  obtain oper ops' where ops: "ops = oper # ops'" using prod ne by (cases ops) auto
  have len: "\<not> length out < 4"
    using first_op_length [of src oper] store_size_pos [of "length tbuf"] ok by (simp add: out ops)
  have "patch_loop src (ops_bytes ops @ []) (length (ops_out src ops) + 0) [] =
      patch_loop src [] 0 ([] @ ops_out src ops)"
    using ok src by (intro patch_ops) auto
  then have loop: "patch_loop src (ops_bytes ops) (length tbuf) [] = Rebuilt tbuf"
    by (simp add: prod patch_end_def)
  have unat: "unat (word_of_nat n :: u64) = n" if "n < 2 ^ 32" for n
    using that by (simp add: unsigned_of_nat take_bit_nat_eq_self)
  show ?thesis
    unfolding patch_delta_def using len hdr_size [OF src] hdr_size [OF tbuf] loop
    by (simp add: out unat [OF src] unat [OF tbuf])
qed

text \<open>With a valid index, \<open>create_delta\<close> returns, and what it returns rebuilds the target.\<close>

lemma create_delta_correct:
  assumes index: "index_ok index" and size: "length tbuf < 2 ^ 32" and small: "small_enough tbuf max_size"
  shows "\<exists>r. create_delta index tbuf max_size = Output r \<and>
    (\<forall>d. r = Some d \<longrightarrow> patch_delta (di_src index) d = Rebuilt tbuf \<and> (max_size \<noteq> 0 \<longrightarrow> length d \<le> max_size)) \<and>
    (max_size = 0 \<and> tbuf \<noteq> [] \<longrightarrow> r \<noteq> None)"
proof (cases "tbuf = []")
  case False
  let ?H = "delta_header (length (di_src index)) (length tbuf)"
  have src: "length (di_src index) < 2 ^ 32" using index by (simp add: index_ok_def)
  obtain st where st: "delta_loop (Suc (length tbuf)) index tbuf max_size (delta_start index tbuf max_size) = Output st"
    and inv: "delta_inv ?H (di_src index) tbuf st"
    and stop: "ds_data st = length tbuf \<or> max_size \<noteq> 0 \<and> max_size < length (ds_out st)"
    using delta_loop_inv [OF index small delta_start_inv [OF False] delta_start_room, of "Suc (length tbuf)"]
    by (metis diff_le_self le_imp_less_Suc)
  let ?out = "close_insert (ds_out st) (ds_inscnt st)"
  obtain ops where w: "written ?H (di_src index) tbuf ?out (ds_data st) 0 ops []"
    using inv written_close [of ?H "di_src index" tbuf "ds_out st" "ds_data st" "ds_inscnt st"]
    by (auto simp: delta_inv_def)
  have "patch_delta (di_src index) ?out = Rebuilt tbuf" if "ds_data st = length tbuf"
    using patch_written [OF src size False] w that by simp
  moreover have "create_delta index tbuf max_size =
      Output (if max_size \<noteq> 0 \<and> max_size < length ?out then None else Some ?out)"
    using False st by (simp add: create_delta_def Let_def del: delta_loop.simps)
  ultimately show ?thesis
    using stop by auto
qed (simp add: create_delta_def)

end
