(* ===== verification/Delta_Index.thy ===== *)
theory Delta_Index
  imports Delta_Correct
begin

unbundle bit_operations_syntax

text \<open>
  \<open>create_delta_index\<close> of \<^verbatim>\<open>diff-delta.c\<close>: it never crashes, the index it builds satisfies what
  \<open>create_delta\<close> relies on, and so a delta that \<open>diff_delta\<close> returns rebuilds the target.
\<close>

section \<open>The index\<close>

subsection \<open>Populating\<close>

definition entries_below :: "nat \<Rightarrow> index_entry list list \<Rightarrow> bool" where
  "entries_below b hash \<longleftrightarrow> (\<forall>es \<in> set hash. \<forall>e \<in> set es. ie_ptr e \<le> b)"

abbreviation n_entries :: "'e list list \<Rightarrow> nat" where
  "n_entries hash \<equiv> sum_list (map length hash)"

lemma entries_below_update:
  "entries_below b hash \<Longrightarrow> (i < length hash \<Longrightarrow> \<forall>e \<in> set es. ie_ptr e \<le> b) \<Longrightarrow> entries_below b (hash[i := es])"
proof (cases "i < length hash")
  case True
  assume "entries_below b hash" and "i < length hash \<Longrightarrow> \<forall>e \<in> set es. ie_ptr e \<le> b"
  with True set_update_subset_insert [of hash i es] show ?thesis
    unfolding entries_below_def by blast
qed (simp add: list_update_beyond)

lemma n_entries_update:
  "i < length hash \<Longrightarrow> n_entries (hash[i := es]) + length (hash ! i) = n_entries hash + length es"
  by (induction hash arbitrary: i) (auto simp: nth_Cons split: nat.splits)

lemma mask_less:
  assumes "unat hmask < n"
  shows "unat (val AND hmask :: u32) < n"
proof -
  have "val AND hmask \<le> hmask" by (rule word_and_le1)
  with assms show ?thesis by (simp add: word_le_nat_alt)
qed

lemma populate_spec:
  "unat hmask < length hash \<Longrightarrow> entries_below b hash \<Longrightarrow> k * RABIN_WINDOW \<le> b \<Longrightarrow>
   n_entries hash + k = n \<Longrightarrow> populate buffer hmask k prev_val hash n = (hash', n') \<Longrightarrow>
   length hash' = length hash \<and> entries_below b hash' \<and> n_entries hash' = n'"
proof (induction buffer hmask k prev_val hash n rule: populate.induct)
  case (2 buffer hmask k prev_val hash n)
  let ?val = "block_val buffer (k * RABIN_WINDOW)"
  let ?i = "unat (?val AND hmask)"
  let ?e = "\<lparr>ie_ptr = k * RABIN_WINDOW + RABIN_WINDOW, ie_val = ?val\<rparr>"
  let ?old = "case hash ! ?i of [] \<Rightarrow> [] | e # es \<Rightarrow> e\<lparr>ie_ptr := k * RABIN_WINDOW + RABIN_WINDOW\<rparr> # es"
  have i: "?i < length hash" by (rule mask_less [OF "2.prems"(1)])
  have bucket: "\<forall>e \<in> set (hash ! ?i). ie_ptr e \<le> b"
    using "2.prems"(2) nth_mem [OF i] unfolding entries_below_def by blast
  show ?case
  proof (cases "?val = prev_val")
    case True
    have "\<forall>e \<in> set ?old. ie_ptr e \<le> b"
      using "2.prems"(3) bucket by (cases "hash ! ?i") auto
    then have "entries_below b (hash[?i := ?old])"
      using "2.prems"(2) by (intro entries_below_update)
    moreover have "n_entries (hash[?i := ?old]) = n_entries hash"
      using n_entries_update [OF i, of ?old] by (auto split: list.splits)
    ultimately show ?thesis
      using "2.IH"(1) [OF refl refl refl True] "2.prems" True by (simp add: Let_def)
  next
    case False
    have "entries_below b (hash[?i := ?e # hash ! ?i])"
      using "2.prems"(2,3) bucket by (intro entries_below_update) auto
    moreover have "n_entries (hash[?i := ?e # hash ! ?i]) = n_entries hash + 1"
      using n_entries_update [OF i, of "?e # hash ! ?i"] by simp
    ultimately show ?thesis
      using "2.IH"(2) [OF refl refl refl False] "2.prems" False by (simp add: Let_def)
  qed
qed simp

subsection \<open>Culling\<close>

lemma cull_skip_spec:
  "0 < acc \<Longrightarrow> acc \<le> 64 * int (length es) \<Longrightarrow>
   \<exists>k. cull_skip es acc = Some (drop k es, acc - 64 * int k) \<and> k \<le> length es \<and>
     - 64 < acc - 64 * int k \<and> acc - 64 * int k \<le> 0"
proof (induction es acc rule: cull_skip.induct)
  case (2 e es acc)
  show ?case
  proof (cases "acc - 64 > 0")
    case True
    with 2 obtain k where "cull_skip es (acc - 64) = Some (drop k es, acc - 64 - 64 * int k)"
      "k \<le> length es" "- 64 < acc - 64 - 64 * int k" "acc - 64 - 64 * int k \<le> 0" by auto
    with True show ?thesis by (intro exI [of _ "Suc k"]) (auto simp: Let_def)
  next
    case False
    with 2 show ?thesis by (intro exI [of _ 1]) (auto simp: Let_def)
  qed
qed simp

text \<open>
  The accumulator after \<open>t\<close> entries kept and \<open>r\<close> removed is \<open>t * excess - 64 * r\<close>, as the
  comment in the code argues; the inner loop never runs off the list and 64 entries stay.
\<close>

lemma cull_spec:
  fixes excess t r acc :: int
  assumes "0 < excess"
  shows "acc = t * excess - 64 * r \<Longrightarrow> - 64 < acc \<Longrightarrow> acc \<le> 0 \<Longrightarrow> 0 \<le> t \<Longrightarrow> t \<le> 64 \<Longrightarrow>
    int (length es) = excess + 64 - t - r \<Longrightarrow>
    \<exists>es'. cull excess es acc = Some es' \<and> int (length es') = 64 - t \<and> set es' \<subseteq> set es"
proof (induction "length es" arbitrary: es acc t r rule: less_induct)
  case less
  show ?case
  proof (cases es)
    case Nil
    have "64 * r = t * excess - acc" using less.prems(1) by simp
    moreover have "r = excess + 64 - t" using less.prems(6) Nil by simp
    ultimately have "(64 - t) * (excess + 64) = - acc" by (simp add: algebra_simps)
    moreover have "excess + 64 \<le> (64 - t) * (excess + 64)" if "t < 64"
      using that assms mult_right_mono [of 1 "64 - t" "excess + 64"] by simp
    ultimately have "t = 64" using less.prems(2,5) assms by (cases "t < 64") auto
    with Nil show ?thesis by simp
  next
    case (Cons e es0)
    have "t \<noteq> 64"
    proof
      assume "t = 64"
      then have "acc = 64 * (excess - r)" using less.prems(1) by simp
      then have "r = excess" using less.prems(2,3) by presburger
      then show False using less.prems(6) \<open>t = 64\<close> Cons by simp
    qed
    with less.prems(5) have t: "t + 1 \<le> 64" by simp
    have acc1: "acc + excess = (t + 1) * excess - 64 * r" using less.prems(1) by (simp add: algebra_simps)
    have len: "length es0 < length es" using Cons by simp
    have t0: "0 \<le> t + 1" using less.prems(4) by simp
    show ?thesis
    proof (cases "acc + excess > 0")
      case False
      have "- 64 < acc + excess" and "acc + excess \<le> 0" and "int (length es0) = excess + 64 - (t + 1) - r"
        using False assms less.prems(2,6) Cons by simp_all
      from less.hyps [OF len acc1 this(1,2) t0 t this(3)] False Cons show ?thesis
        by (auto simp: Let_def)
    next
      case True
      have "(t + 1) * excess \<le> 64 * excess"
        using t assms by (intro mult_right_mono) auto
      then have "acc + excess \<le> 64 * int (length es0)"
        using acc1 less.prems(6) t Cons by simp
      then obtain k where skip: "cull_skip es0 (acc + excess) = Some (drop k es0, acc + excess - 64 * int k)"
        and k: "k \<le> length es0" "- 64 < acc + excess - 64 * int k" "acc + excess - 64 * int k \<le> 0"
        using cull_skip_spec [OF True, of es0] by blast
      have acc2: "acc + excess - 64 * int k = (t + 1) * excess - 64 * (r + int k)"
        using acc1 by simp
      have len2: "length (drop k es0) < length es" using len by simp
      have es2: "int (length (drop k es0)) = excess + 64 - (t + 1) - (r + int k)"
        using less.prems(6) Cons k(1) by (simp add: of_nat_diff)
      obtain es' where "cull excess (drop k es0) (acc + excess - 64 * int k) = Some es'"
        "int (length es') = 64 - (t + 1)" "set es' \<subseteq> set (drop k es0)"
        using less.hyps [OF len2 acc2 k(2,3) t0 t es2] by blast
      with True Cons skip set_drop_subset [of k es0] show ?thesis by (auto simp: Let_def)
    qed
  qed
qed

lemma cull_bucket_spec:
  "\<exists>es'. cull_bucket es = Some es' \<and> length es' = min (length es) HASH_LIMIT \<and> set es' \<subseteq> set es"
proof (cases "length es \<le> HASH_LIMIT")
  case False
  then have "0 < int (length es) - 64" by simp
  from cull_spec [OF this, of 0 0 0 es] obtain es' where
    "cull (int (length es) - 64) es 0 = Some es' \<and> int (length es') = 64 \<and> set es' \<subseteq> set es"
    by auto
  moreover have "cull_bucket es = cull (int (length es) - 64) es 0"
    using False by (simp add: cull_bucket_def)
  ultimately show ?thesis using False by auto
qed (simp add: cull_bucket_def)

lemma cull_all_spec:
  "\<exists>packed. cull_all hash = Some packed \<and> length packed = length hash \<and>
     n_entries packed + culled hash = n_entries hash \<and>
     (entries_below b hash \<longrightarrow> entries_below b packed) \<and> (\<forall>es \<in> set packed. length es \<le> HASH_LIMIT)"
proof (induction hash)
  case (Cons es hash)
  from Cons.IH obtain packed where p: "cull_all hash = Some packed" "length packed = length hash"
    "n_entries packed + culled hash = n_entries hash"
    "entries_below b hash \<longrightarrow> entries_below b packed" "\<forall>es \<in> set packed. length es \<le> HASH_LIMIT" by blast
  obtain es' where es': "cull_bucket es = Some es'" "length es' = min (length es) HASH_LIMIT"
    "set es' \<subseteq> set es" using cull_bucket_spec [of es] by blast
  have "cull_all (es # hash) = Some (es' # packed)" using p(1) es'(1) by simp
  moreover have "n_entries (es' # packed) + culled (es # hash) = n_entries (es # hash)"
    using p(3) es'(2) by (simp add: culled_def)
  moreover have "entries_below b (es' # packed)" if "entries_below b (es # hash)"
    using that p(4) es'(3) unfolding entries_below_def by auto
  moreover have "\<forall>es \<in> set (es' # packed). length es \<le> HASH_LIMIT" using p(5) es'(2) by simp
  moreover have "length (es' # packed) = length (es # hash)" using p(2) by simp
  ultimately show ?case by (intro exI [of _ "es' # packed"] conjI impI)
qed (simp add: culled_def entries_below_def)

subsection \<open>The whole index\<close>

lemma unat_word_of_nat_le: "unat (word_of_nat n :: 'a :: len word) \<le> n"
  by (metis mod_less_eq_dividend unat_of_nat)

lemma create_delta_index_spec:
  assumes "buf \<noteq> []"
  shows "\<exists>index n. create_delta_index buf = Some (Some (index, n)) \<and> di_src index = buf \<and>
    unat (di_mask index) < length (di_hash index) \<and> entries_below (length buf) (di_hash index) \<and>
    n = n_entries (di_hash index) \<and> (\<forall>es \<in> set (di_hash index). length es \<le> HASH_LIMIT)"
proof -
  let ?entries = "if 0xffffffff \<le> length buf then 0xfffffffe div RABIN_WINDOW
                  else (length buf - 1) div RABIN_WINDOW"
  let ?hsize = "2 ^ hash_bits (?entries div 4) 4 :: nat"
  let ?hmask = "word_of_nat (?hsize - 1) :: u32"
  let ?hash = "replicate ?hsize [] :: index_entry list list"
  have "unat ?hmask \<le> ?hsize - 1" by (rule unat_word_of_nat_le)
  moreover have "0 < ?hsize" by simp
  ultimately have mask: "unat ?hmask < length ?hash" unfolding length_replicate by linarith
  have below: "entries_below (length buf) ?hash" by (simp add: entries_below_def)
  have fits: "?entries * RABIN_WINDOW \<le> length buf"
    using div_times_less_eq_dividend [of "length buf - 1" RABIN_WINDOW] by (auto simp del: div_times_less_eq_dividend)
  obtain hash n where pop: "populate buf ?hmask ?entries (NOT 0) ?hash ?entries = (hash, n)" by fastforce
  have "n_entries ?hash + ?entries = ?entries" by (simp add: sum_list_replicate)
  from populate_spec [OF mask below fits this pop]
  have spec: "length hash = ?hsize" "entries_below (length buf) hash" "n_entries hash = n" by auto
  obtain packed where packed: "cull_all hash = Some packed" "length packed = length hash"
    "n_entries packed + culled hash = n_entries hash" "entries_below (length buf) packed"
    "\<forall>es \<in> set packed. length es \<le> HASH_LIMIT" using cull_all_spec [of hash "length buf"] spec(2) by blast
  have "create_delta_index buf =
    Some (Some (\<lparr>di_src = buf, di_mask = ?hmask, di_hash = packed\<rparr>, n - culled hash))"
    unfolding create_delta_index_def Let_def pop using assms packed(1) by simp
  moreover have "n - culled hash = n_entries packed" using packed(3) spec(3) by simp
  moreover have "unat ?hmask < length packed" using mask packed(2) spec(1) by simp
  ultimately show ?thesis using packed(4,5) by (intro exI conjI) (assumption | simp)+
qed

text \<open>
  C23. On every buffer that is not empty \<^verbatim>\<open>create_delta_index\<close> returns an index: the culling
  never runs off a bucket's list, the masked hash of any fingerprint is a bucket of the table, every
  entry points into the buffer, no bucket keeps more than \<^verbatim>\<open>HASH_LIMIT\<close> entries, and the counter the code
  asserts is the number of entries it packed. On an empty buffer it returns NULL.
\<close>

theorem create_delta_index_returns:
  "create_delta_index buf \<noteq> None \<and> (create_delta_index buf = Some None \<longleftrightarrow> buf = []) \<and>
   (case create_delta_index buf of
      Some (Some (index, n)) \<Rightarrow>
        di_src index = buf \<and> (\<forall>val. unat (val AND di_mask index) < length (di_hash index)) \<and>
        list_all (list_all (\<lambda>e. ie_ptr e \<le> length buf)) (di_hash index) \<and>
        list_all (\<lambda>es. length es \<le> 64) (di_hash index) \<and> n = sum_list (map length (di_hash index))
    | _ \<Rightarrow> True)"
proof (cases "buf = []")
  case True
  then show ?thesis by (simp add: create_delta_index_def)
next
  case False
  from create_delta_index_spec [OF False] obtain index n where
    i: "create_delta_index buf = Some (Some (index, n))" "di_src index = buf"
    "unat (di_mask index) < length (di_hash index)" "entries_below (length buf) (di_hash index)"
    "n = n_entries (di_hash index)" "\<forall>es \<in> set (di_hash index). length es \<le> HASH_LIMIT" by blast
  then show ?thesis
    using False mask_less [OF i(3)] by (simp add: entries_below_def list_all_iff)
qed

section \<open>The round trip\<close>

text \<open>
  C2. Let the source have less than 4 GiB, and let the target have at most 512 MiB, or less than 4 GiB with a limit
  between 1 and \<open>1431655765\<close> for the delta. Then \<^verbatim>\<open>diff_delta\<close> returns without writing behind its output buffer, every
  delta it returns makes \<^verbatim>\<open>patch_delta\<close> rebuild the target from the source, a delta never exceeds the limit it was given, and
  without a limit there is always one (unless a buffer is empty).
\<close>

theorem diff_delta_patch:
  assumes "length src < 2 ^ 32" and "length trg < 2 ^ 32"
    and "length trg \<le> 2 ^ 29 \<or> 0 < max_size \<and> max_size \<le> 1431655765"
  shows "\<exists>r. diff_delta src trg max_size = Output r \<and>
    (\<forall>d. r = Some d \<longrightarrow> patch_delta src d = Rebuilt trg \<and> (max_size \<noteq> 0 \<longrightarrow> length d \<le> max_size)) \<and>
    (max_size = 0 \<longrightarrow> (r = None \<longleftrightarrow> src = [] \<or> trg = []))"
proof (cases "src = []")
  case True
  then show ?thesis by (simp add: diff_delta_def create_delta_index_def)
next
  case False
  from create_delta_index_spec [OF False] obtain index n where
    i: "create_delta_index src = Some (Some (index, n))" "di_src index = src"
    "unat (di_mask index) < length (di_hash index)" "entries_below (length src) (di_hash index)" by blast
  then have ok: "index_ok index" using assms(1) by (simp add: index_ok_def entries_below_def)
  have dd: "diff_delta src trg max_size = create_delta index trg max_size"
    using i(1) by (simp add: diff_delta_def)
  have empty: "create_delta index [] max_size = Output None" by (simp add: create_delta_def)
  have "small_enough trg max_size" using assms(3) by (simp add: small_enough_def)
  from create_delta_correct [OF ok assms(2) this] show ?thesis
    using False empty unfolding dd i(2) by fastforce
qed

theorem diff_delta_patch_witness:
  "\<exists>r. diff_delta [97, 98] [99, 97, 98] 0 = Output r \<and> (\<exists>d. r = Some d \<and> patch_delta [97, 98] d = Rebuilt [99, 97, 98])"
  using diff_delta_patch [of "[97, 98]" "[99, 97, 98]" 0] by fastforce

text \<open>
  Without a limit, an output that reaches 1570824171 bytes makes \<^verbatim>\<open>outsize * 3 / 2\<close> wrap around: the buffer is cut to
  208752608 bytes, and the code goes on writing behind them.
\<close>

lemma output_buffer_cut:
  assumes "ds_outsize st = 1570824171" and "length (ds_out st) = 1570824171 - MAX_OP_SIZE"
  shows "\<exists>st'. grow_step 0 st = Some st' \<and> ds_outsize st' = 208752608 \<and>
    delta_loop (Suc fuel) index tbuf 0 st' = Out_Overrun"
  using assms by (simp add: grow_step_def Let_def)

section \<open>The fingerprint stays inside its tables\<close>

fun alternating :: "bool \<Rightarrow> u32 list \<Rightarrow> bool" where
  "alternating b [] = True"
| "alternating b (t # ts) = ((2 ^ 31 \<le> t) = b \<and> alternating (\<not> b) ts)"

lemma T_table_alternates: "alternating False T_table"
  by (simp add: T_table_def)

lemma U_table_small: "list_all (\<lambda>t. t < 2 ^ 31) U_table"
  by (simp add: U_table_def)

lemma T_table_length: "length T_table = 256"
  by (simp add: T_table_def)

lemma U_table_length: "length U_table = 256"
  by (simp add: U_table_def)

lemma alternating_nth: "alternating b ts \<Longrightarrow> i < length ts \<Longrightarrow> (2 ^ 31 \<le> ts ! i) = (b \<noteq> odd i)"
  by (induction b ts arbitrary: i rule: alternating.induct) (auto simp: nth_Cons split: nat.splits)

lemma high_bit: "(2 ^ 31 \<le> (w :: u32)) = bit w 31"
proof -
  have "unat w < 2 * 2 ^ 31" using unsigned_less [of w] by simp
  then have "unat w div 2 ^ 31 = (if 2 ^ 31 \<le> unat w then 1 else 0)" by (auto simp: div_nat_eqI)
  then have "bit (unat w) 31 = (2 ^ 31 \<le> unat w)" by (simp add: bit_iff_odd)
  then show ?thesis by (simp add: bit_unsigned_iff word_le_nat_alt)
qed

lemma shifted_index: "val < 2 ^ 31 \<Longrightarrow> unat (drop_bit RABIN_SHIFT (val :: u32)) < 256"
  unfolding unat_drop_bit_eq by (simp add: drop_bit_eq_div word_less_nat_alt less_mult_imp_div_less)

text \<open>
  Lemma rabin_in_tables. Both tables have 256 entries, and the fingerprint stays below \<^verbatim>\<open>2 ^ 31\<close> while bytes go in
  (through \<^verbatim>\<open>T\<close>) and out (through \<^verbatim>\<open>U\<close>), so \<^verbatim>\<open>T[val >> RABIN_SHIFT]\<close> is never read outside of the table.
\<close>

theorem rabin_in_tables:
  assumes "val < 2 ^ 31"
  shows "unat (drop_bit RABIN_SHIFT val) < length T_table \<and> rabin val b < 2 ^ 31 \<and>
    unat c < length U_table \<and> val XOR U_table ! unat (c :: byte) < 2 ^ 31"
proof -
  let ?j = "unat (drop_bit RABIN_SHIFT val)"
  have j: "?j < length T_table" using shifted_index [OF assms] by (simp add: T_table_length)
  have "bit (T_table ! ?j) 31 = odd ?j"
    using alternating_nth [OF T_table_alternates j] unfolding high_bit by simp
  also have "odd ?j = bit val 23"
    unfolding bit_0 [symmetric] bit_unsigned_iff bit_drop_bit_eq by simp
  finally have "\<not> bit (rabin val b) 31"
    using bit_imp_le_length [of b 31] by (auto simp: rabin_def bit_simps)
  then have "rabin val b < 2 ^ 31" using high_bit not_le by blast
  moreover have c: "unat c < length U_table" using unsigned_less [of c] by (simp add: U_table_length)
  moreover have "\<not> bit (val XOR U_table ! unat c) 31"
    using U_table_small [unfolded list_all_length] c assms high_bit not_le by (metis bit_xor_iff)
  ultimately show ?thesis using j high_bit not_le by blast
qed

theorem rabin_in_tables_witness: "rabin (0x7fffffff) 255 < 2 ^ 31"
  by (rule rabin_in_tables [THEN conjunct2, THEN conjunct1]) simp

section \<open>What \<open>patch_delta\<close> accepts\<close>

lemma patch_loop_length: "patch_loop src data sz out = Rebuilt r \<Longrightarrow> length r = length out + sz"
proof (induction src data sz out rule: patch_loop.induct)
  case (2 src cmd data sz out)
  then show ?case
    by (auto simp: patch_end_def split: if_splits option.splits)
qed (auto simp: patch_end_def split: if_splits)

text \<open>
  Lemma patch_delta_sound. Whatever bytes it is given, \<^verbatim>\<open>patch_delta\<close> only ever returns a buffer of exactly the size
  the delta announces, and only on a source of the announced size.
\<close>

theorem patch_delta_sound:
  assumes "patch_delta src delta = Rebuilt out"
  shows "\<exists>src_size data trg_size rest.
    get_delta_hdr_size delta = Some (src_size, data) \<and> unat src_size = length src \<and>
    get_delta_hdr_size data = Some (trg_size, rest) \<and> unat trg_size = length out"
  using assms patch_loop_length [of src _ _ "[]" out]
  by (auto simp: patch_delta_def split: if_splits option.splits)

text \<open>
  An instruction that is cut off at the end of the delta makes the code read past its buffer; an
  instruction that asks for more than is left is dropped in silence when it is the last one.
\<close>

lemmas patch_evals = patch_delta_def get_delta_hdr_size_def copy_args_def patch_end_def

lemma patch_delta_overreads: "patch_delta [1, 2] [2, 1, 0x91, 0, 1, 0x91] = Overread"
  by (simp add: patch_evals)

lemma patch_delta_ignores_bogus_tail: "patch_delta [1, 2] [2, 1, 0x91, 0, 1, 0x91, 0, 1] = Rebuilt [1]"
  by (simp add: patch_evals)

theorem patch_delta_sound_witness:
  "\<exists>src_size data trg_size rest. get_delta_hdr_size [2, 1, 0x91, 0, 1] = Some (src_size, data) \<and>
     unat src_size = length [1 :: byte, 2] \<and> get_delta_hdr_size data = Some (trg_size, rest) \<and>
     unat trg_size = length [1 :: byte]"
  by (rule patch_delta_sound) (simp add: patch_evals)

end
