(* ===== verification/Hex.thy ===== *)
theory Hex
  imports Ctype
begin

unbundle bit_operations_syntax

text \<open>
  \<^verbatim>\<open>hex.c\<close>: object names as hexadecimal strings and back. An object name is its list of bytes; the
  rotating result buffers of \<open>sha1_to_hex\<close> are not modelled, and an error return is \<open>None\<close>.
\<close>

abbreviation GIT_SHA1_RAWSZ :: nat where "GIT_SHA1_RAWSZ \<equiv> 20"

definition hexval_table :: "int list" where
  "hexval_table =
     replicate 48 (-1) @
     [0, 1, 2, 3, 4, 5, 6, 7, 8, 9, -1, -1, -1, -1, -1, -1] @
     [-1, 10, 11, 12, 13, 14, 15, -1] @ replicate 24 (-1) @
     [-1, 10, 11, 12, 13, 14, 15, -1] @ replicate 24 (-1) @
     replicate 128 (-1)"

definition isxdigit :: "char \<Rightarrow> bool" where
  "isxdigit x \<longleftrightarrow> hexval_table ! nat (char_code x) \<noteq> -1"

text \<open>The table entry as an \<open>unsigned int\<close>: a character that is no digit gives \<open>0xffffffff\<close>.\<close>

definition hexval :: "char \<Rightarrow> u32" where
  "hexval c = word_of_int (hexval_table ! nat (char_code c))"

fun get_sha1_hex_loop :: "nat \<Rightarrow> string \<Rightarrow> byte list option" where
  "get_sha1_hex_loop 0 hex = Some []"
| "get_sha1_hex_loop (Suc n) hex =
     (if peek hex = NUL then None
      else let val = push_bit 4 (hexval (peek hex)) OR hexval (peek (tl hex)) in
        if val AND NOT 0xff \<noteq> 0 then None
        else map_option ((#) (ucast val)) (get_sha1_hex_loop n (drop 2 hex)))"

definition get_sha1_hex :: "string \<Rightarrow> byte list option" where
  "get_sha1_hex hex = get_sha1_hex_loop GIT_SHA1_RAWSZ hex"

definition hex_digits :: string where
  "hex_digits = ''0123456789abcdef''"

definition byte_to_hex :: "byte \<Rightarrow> string" where
  "byte_to_hex val = [hex_digits ! unat (drop_bit 4 val), hex_digits ! unat (val AND 0xf)]"

definition sha1_to_hex :: "byte list \<Rightarrow> string" where
  "sha1_to_hex sha1 = concat (map byte_to_hex (take GIT_SHA1_RAWSZ sha1))"

section \<open>The digits\<close>

lemma length_hexval_table: "length hexval_table = 256"
  by (simp add: hexval_table_def)

lemma hexval_entries:
  "list_all (\<lambda>(n, t). if t = -1 then True else if n < 58 then t = int n - 48 \<and> 48 \<le> n
     else if n < 71 then t = int n - 55 \<and> 65 \<le> n else t = int n - 87 \<and> 97 \<le> n \<and> n < 103)
     (enumerate 0 hexval_table)"
  by code_simp

lemma hexval_digits: "list_all (\<lambda>n. hexval_table ! nat (char_code (hex_digits ! n)) = int n) [0..<16]"
  by code_simp

lemma hex_digit_char:
  assumes "hexval_table ! of_char c = t" and "t \<noteq> -1"
  shows "0 \<le> t \<and> t < 16 \<and> hex_digits ! nat t = tolower c"
proof -
  have "list_all (\<lambda>n. char_code (hex_digits ! n) = int (if n < 10 then n + 48 else n + 87)) [0..<16]"
    by code_simp
  then have code: "char_code (hex_digits ! n) = int (if n < 10 then n + 48 else n + 87)" if "n < 16" for n
    using that by (simp add: list_all_iff)
  have entry: "if t = -1 then True else if of_char c < (58 :: nat) then t = int (of_char c) - 48 \<and> (48 :: nat) \<le> of_char c
     else if of_char c < (71 :: nat) then t = int (of_char c) - 55 \<and> (65 :: nat) \<le> of_char c
     else t = int (of_char c) - 87 \<and> (97 :: nat) \<le> of_char c \<and> of_char c < (103 :: nat)"
    using table_nth [OF hexval_entries length_hexval_table, of c] unfolding assms(1) .
  then have range: "0 \<le> t \<and> t < 16" using assms(2) by (auto split: if_splits)
  have "char_code (hex_digits ! nat t) = (if t < 10 then t + 48 else t + 87)"
    using code [of "nat t"] range by (auto split: if_splits)
  also have "\<dots> = char_code (tolower c)"
    using entry assms(2) unfolding tolower_code isupper_iff unfolding char_code_of_char
    by (auto split: if_splits)
  finally show ?thesis using range by simp
qed

lemma hexval_hex_digit: "n < 16 \<Longrightarrow> hexval (hex_digits ! n) = word_of_nat n"
  using hexval_digits by (simp add: hexval_def list_all_iff)

lemma hex_digit_not_NUL: "n < 16 \<Longrightarrow> hex_digits ! n \<noteq> NUL"
proof -
  have "list_all (\<lambda>n. hex_digits ! n \<noteq> NUL) [0..<16]" by code_simp
  then show "n < 16 \<Longrightarrow> hex_digits ! n \<noteq> NUL" by (simp add: list_all_iff)
qed

lemma nibbles:
  "push_bit 4 (word_of_nat (unat (drop_bit 4 b)) :: u32) OR word_of_nat (unat (b AND 0xf)) = ucast (b :: byte)"
proof -
  have f: "(0xf :: byte) = mask 4" by (simp add: mask_eq_exp_minus_1)
  show ?thesis
    unfolding f
    by (rule bit_word_eqI) (auto simp: bit_simps dest: bit_imp_le_length)
qed

lemma byte_in_range: "(ucast (b :: byte) :: u32) AND NOT 0xff = 0"
proof -
  have f: "(0xff :: u32) = mask 8" by (simp add: mask_eq_exp_minus_1)
  show ?thesis unfolding f by (rule bit_word_eqI) (auto simp: bit_simps dest: bit_imp_le_length)
qed

lemma ucast_ucast_byte: "ucast (ucast (b :: byte) :: u32) = b"
  by (rule bit_word_eqI) (auto simp: bit_simps)

lemma nibble_less: "unat (drop_bit 4 (b :: byte)) < 16" "unat (b AND 0xf) < 16"
proof -
  show "unat (drop_bit 4 b) < 16"
    unfolding unat_drop_bit_eq by (simp add: drop_bit_eq_div less_mult_imp_div_less)
  have "b AND 0xf \<le> 0xf" by (rule word_and_le1)
  then show "unat (b AND 0xf) < 16" by (simp add: word_le_nat_alt)
qed

section \<open>Round trips\<close>

lemma get_sha1_hex_step:
  "get_sha1_hex_loop (Suc n) (byte_to_hex b @ rest) = map_option ((#) b) (get_sha1_hex_loop n rest)"
proof -
  have val: "push_bit 4 (hexval (hex_digits ! unat (drop_bit 4 b))) OR hexval (hex_digits ! unat (b AND 0xf)) = ucast b"
    unfolding hexval_hex_digit [OF nibble_less(1)] hexval_hex_digit [OF nibble_less(2)] by (rule nibbles)
  show ?thesis
    using hex_digit_not_NUL [OF nibble_less(1)]
    using byte_in_range [of b] by (simp add: byte_to_hex_def Let_def val ucast_ucast_byte)
qed

lemma get_sha1_hex_prefix:
  "get_sha1_hex_loop (length sha1) (concat (map byte_to_hex sha1) @ rest) = Some sha1"
proof (induction sha1)
  case (Cons b sha1)
  have "get_sha1_hex_loop (length (b # sha1)) (concat (map byte_to_hex (b # sha1)) @ rest) =
    get_sha1_hex_loop (Suc (length sha1)) (byte_to_hex b @ concat (map byte_to_hex sha1) @ rest)" by simp
  then show ?case unfolding get_sha1_hex_step Cons.IH by simp
qed simp

text \<open>Two characters are accepted only when both are digits.\<close>

lemma hexval_cases:
  "hexval c = 0xffffffff \<or> (\<exists>n < 16. hexval c = word_of_nat n \<and> hex_digits ! n = tolower c)"
proof (cases "hexval_table ! of_char c = -1")
  case True
  then show ?thesis by (simp add: hexval_def)
next
  case False
  from hex_digit_char [OF refl this] show ?thesis
    by (intro disjI2 exI [of _ "nat (hexval_table ! of_char c)"]) (auto simp: hexval_def)
qed

lemma hex_pair:
  assumes "(push_bit 4 (hexval c) OR hexval d) AND NOT 0xff = 0"
  shows "\<exists>b. ucast (push_bit 4 (hexval c) OR hexval d) = b \<and> byte_to_hex b = [tolower c, tolower d]"
proof -
  have bits: "\<not> bit (push_bit 4 (hexval c) OR hexval d) 8"
    using arg_cong [OF assms, of "\<lambda>w. bit w 8"] by (simp add: bit_simps)
  have "hexval c \<noteq> 0xffffffff" "hexval d \<noteq> 0xffffffff"
    using bits by (auto simp: bit_simps)
  then obtain m n where m: "m < 16" "hexval c = word_of_nat m" "hex_digits ! m = tolower c"
    and n: "n < 16" "hexval d = word_of_nat n" "hex_digits ! n = tolower d"
    using hexval_cases by metis
  let ?b = "ucast (push_bit 4 (hexval c) OR hexval d) :: byte"
  have "\<forall>m \<in> {..<16}. \<forall>n \<in> {..<16}. let b = ucast (push_bit 4 (word_of_nat m :: u32) OR word_of_nat n) :: byte
    in unat (drop_bit 4 b) = m \<and> unat (b AND 0xf) = n"
    by code_simp
  then have "unat (drop_bit 4 ?b) = m" "unat (?b AND 0xf) = n"
    using m(1,2) n(1,2) by (auto simp: Let_def)
  then show ?thesis using m(3) n(3) by (auto simp: byte_to_hex_def)
qed

lemma get_sha1_hex_sound:
  "get_sha1_hex_loop n hex = Some sha1 \<Longrightarrow>
     length sha1 = n \<and> map tolower (take (2 * n) hex) = concat (map byte_to_hex sha1)"
proof (induction n hex arbitrary: sha1 rule: get_sha1_hex_loop.induct)
  case (2 n hex)
  let ?val = "push_bit 4 (hexval (peek hex)) OR hexval (peek (tl hex))"
  from "2.prems" obtain sha1' where ok: "peek hex \<noteq> NUL" "?val AND NOT 0xff = 0"
    and rest: "get_sha1_hex_loop n (drop 2 hex) = Some sha1'" and sha1: "sha1 = ucast ?val # sha1'"
    by (auto simp: Let_def split: if_splits)
  have IH: "length sha1' = n" "map tolower (take (2 * n) (drop 2 hex)) = concat (map byte_to_hex sha1')"
    using "2.IH" [OF ok(1) refl _ rest] ok(2) by auto
  have pair: "byte_to_hex (ucast ?val) = [tolower (peek hex), tolower (peek (tl hex))]"
    using hex_pair [OF ok(2)] by blast
  have "hex \<noteq> []" using ok(1) by auto
  have "tl hex \<noteq> []"
  proof
    assume "tl hex = []"
    moreover have "hexval_table ! 0 = -1" by code_simp
    then have "hexval NUL = 0xffffffff" by (simp add: hexval_def)
    ultimately have "bit (?val AND NOT 0xff) 8" by (simp add: bit_simps)
    then show False using ok(2) by simp
  qed
  with \<open>hex \<noteq> []\<close> have "hex = peek hex # peek (tl hex) # drop 2 hex"
    by (cases hex; cases "tl hex") auto
  then have "map tolower (take (2 * Suc n) hex) =
      tolower (peek hex) # tolower (peek (tl hex)) # map tolower (take (2 * n) (drop 2 hex))"
    by (metis (no_types, lifting) list.simps(9) mult_Suc_right numeral_2_eq_2 add_2_eq_Suc take_Suc_Cons)
  then show ?case using IH pair by (simp add: sha1)
qed simp

text \<open>
  C26. \<^verbatim>\<open>get_sha1_hex\<close> reads every 20-byte name back from the 40 digits \<^verbatim>\<open>sha1_to_hex\<close>
  writes, whatever follows them; and what it accepts is a spelling of such digits in either case: the
  string starts with 40 characters whose lower case is \<^verbatim>\<open>sha1_to_hex\<close> of the result.
\<close>

theorem hex_round_trip:
  "(length sha1 = 20 \<longrightarrow> get_sha1_hex (sha1_to_hex sha1 @ rest) = Some sha1 \<and> length (sha1_to_hex sha1) = 40) \<and>
   (get_sha1_hex hex = Some sha1 \<longrightarrow> length sha1 = 20 \<and> map tolower (take 40 hex) = sha1_to_hex sha1)"
proof (intro conjI impI)
  assume len: "length sha1 = 20"
  then show "get_sha1_hex (sha1_to_hex sha1 @ rest) = Some sha1"
    using get_sha1_hex_prefix [of sha1 rest] by (simp add: get_sha1_hex_def sha1_to_hex_def)
  have "length (concat (map byte_to_hex sha1)) = 2 * length sha1"
    by (induction sha1) (auto simp: byte_to_hex_def)
  with len show "length (sha1_to_hex sha1) = 40" by (simp add: sha1_to_hex_def)
next
  assume "get_sha1_hex hex = Some sha1"
  then show "length sha1 = 20" and "map tolower (take 40 hex) = sha1_to_hex sha1"
    using get_sha1_hex_sound [of 20 hex sha1] by (auto simp: get_sha1_hex_def sha1_to_hex_def)
qed

theorem hex_round_trip_witness:
  "get_sha1_hex (sha1_to_hex (replicate 20 0xab)) = Some (replicate 20 0xab)"
  using hex_round_trip [of "replicate 20 0xab" "[]"] by simp

end
