(* ===== verification/Url.thy ===== *)
theory Url
  imports Hex
begin

text \<open>
  \<^verbatim>\<open>url.c\<close> and the percent-encoding of \<^verbatim>\<open>strbuf.c\<close>. A query pointer is the string it points at. The
  counter \<open>len\<close> of the decoding loop is a C \<open>int\<close> that is only compared with zero: it is negative
  where the caller wants to stop at the NUL.
\<close>

section \<open>Schemes\<close>

definition is_urlschemechar :: "bool \<Rightarrow> char \<Rightarrow> bool" where
  "is_urlschemechar first_flag ch \<longleftrightarrow>
     isalnum ch \<or> (\<not> first_flag \<and> (ch = CHR ''+'' \<or> ch = CHR ''-'' \<or> ch = CHR ''.''))"

fun is_url_loop :: "string \<Rightarrow> bool" where
  "is_url_loop [] \<longleftrightarrow> False"
| "is_url_loop (c # url) \<longleftrightarrow>
     (if c = CHR '':'' then peek url = CHR ''/'' \<and> peek (tl url) = CHR ''/''
      else is_urlschemechar False c \<and> is_url_loop url)"

definition is_url :: "string \<Rightarrow> bool" where
  "is_url url \<longleftrightarrow> is_urlschemechar True (peek url) \<and> is_url_loop (tl url)"

section \<open>Decoding\<close>

definition url_hex_digit :: "char \<Rightarrow> int option" where
  "url_hex_digit c =
     (let c = char_code c in
      if 48 \<le> c \<and> c \<le> 57 then Some (c - 48)
      else if 97 \<le> c \<and> c \<le> 102 then Some (c - 97 + 10)
      else if 65 \<le> c \<and> c \<le> 70 then Some (c - 65 + 10)
      else None)"

definition url_decode_char :: "string \<Rightarrow> char option" where
  "url_decode_char q =
     (case url_hex_digit (peek q) of
        None \<Rightarrow> None
      | Some v1 \<Rightarrow>
          (case url_hex_digit (peek (tl q)) of
             None \<Rightarrow> None
           | Some v2 \<Rightarrow> Some (char_of (v1 * 16 + v2))))"

function url_decode_internal ::
  "string \<Rightarrow> int \<Rightarrow> string \<Rightarrow> string \<Rightarrow> bool \<Rightarrow> string \<times> string" where
  "url_decode_internal [] len stop_at out decode_plus = (out, [])"
| "url_decode_internal (c # q) len stop_at out decode_plus =
     (if len = 0 then (out, c # q)
      else if c \<in> set stop_at then (out, q)
      else case (if c = CHR ''%'' then url_decode_char q else None) of
        Some val \<Rightarrow> url_decode_internal (drop 2 q) (len - 3) stop_at (out @ [val]) decode_plus
      | None \<Rightarrow>
          url_decode_internal q (len - 1) stop_at
            (out @ [if decode_plus \<and> c = CHR ''+'' then CHR '' '' else c]) decode_plus)"
  by pat_completeness auto
termination
  by (relation "measure (\<lambda>(q, _). length q)") auto

definition url_decode_mem :: "string \<Rightarrow> int \<Rightarrow> string" where
  "url_decode_mem url len =
     (let scheme = takeWhile (\<lambda>c. c \<noteq> CHR '':'') (take (nat len) url) in
      if length scheme < length (take (nat len) url) \<and> scheme \<noteq> [] then
        fst (url_decode_internal (drop (length scheme) url) (len - int (length scheme)) [] scheme False)
      else fst (url_decode_internal url len [] [] False))"

text \<open>The length of the string becomes an \<open>int\<close>.\<close>

definition url_decode :: "string \<Rightarrow> string" where
  "url_decode url = url_decode_mem url (sint (word_of_nat (length url) :: 32 word))"

definition url_decode_parameter_name :: "string \<Rightarrow> string \<times> string" where
  "url_decode_parameter_name query = url_decode_internal query (-1) ''&='' [] True"

definition url_decode_parameter_value :: "string \<Rightarrow> string \<times> string" where
  "url_decode_parameter_value query = url_decode_internal query (-1) ''&'' [] True"

definition end_url_with_slash :: "string \<Rightarrow> string \<Rightarrow> string" where
  "end_url_with_slash buf url =
     (let buf = buf @ url in if buf \<noteq> [] \<and> last buf \<noteq> CHR ''/'' then buf @ ''/'' else buf)"

section \<open>Encoding\<close>

definition is_rfc3986_reserved :: "char \<Rightarrow> bool" where
  "is_rfc3986_reserved ch \<longleftrightarrow> ch \<in> set (CHR 0x27 # ''!*();:@&=+$,/?#[]'')"

definition is_rfc3986_unreserved :: "char \<Rightarrow> bool" where
  "is_rfc3986_unreserved ch \<longleftrightarrow>
     isalnum ch \<or> ch = CHR ''-'' \<or> ch = CHR ''_'' \<or> ch = CHR ''.'' \<or> ch = CHR ''~''"

text \<open>
  \<open>strbuf_addf(sb, "%%%02x", ch)\<close>: a \<open>char\<close> is signed where \<open>git\<close> usually runs, so one above
  127 is printed as a negative \<open>int\<close>.
\<close>

definition percent_hex :: "char \<Rightarrow> string" where
  "percent_hex ch =
     CHR ''%'' # (if char_code ch < 128 then [] else ''ffffff'') @
     [hex_digits ! (of_char ch div 16), hex_digits ! (of_char ch mod 16)]"

definition strbuf_add_urlencode :: "string \<Rightarrow> string \<Rightarrow> bool \<Rightarrow> string" where
  "strbuf_add_urlencode sb s reserved =
     sb @ concat (map (\<lambda>ch. if is_rfc3986_unreserved ch \<or> (\<not> reserved \<and> is_rfc3986_reserved ch)
                           then [ch] else percent_hex ch) s)"

section \<open>The encoding is undone\<close>

lemma url_hex_digit_hex: "n < 16 \<Longrightarrow> url_hex_digit (hex_digits ! n) = Some (int n)"
proof -
  have "list_all (\<lambda>n. url_hex_digit (hex_digits ! n) = Some (int n)) [0..<16]" by code_simp
  then show "n < 16 \<Longrightarrow> url_hex_digit (hex_digits ! n) = Some (int n)" by (simp add: list_all_iff)
qed

lemma of_char_div_16: "(of_char c :: nat) div 16 < 16"
  using nat_of_char_less_256 [of c] by (simp add: less_mult_imp_div_less)

lemma url_decode_percent:
  "url_decode_char (hex_digits ! (of_char c div 16) # hex_digits ! (of_char c mod 16) # rest) = Some c"
proof -
  have "int (of_char c div 16) * 16 + int (of_char c mod 16) = int (of_char c)"
    using div_mult_mod_eq [of "of_char c :: nat" 16] by presburger
  then show ?thesis
    by (simp add: url_decode_char_def url_hex_digit_hex of_char_div_16)
qed

definition url_esc :: "bool \<Rightarrow> char \<Rightarrow> string" where
  "url_esc reserved ch =
     (if is_rfc3986_unreserved ch \<or> (\<not> reserved \<and> is_rfc3986_reserved ch) then [ch] else percent_hex ch)"

lemma strbuf_add_urlencode_esc: "strbuf_add_urlencode sb s reserved = sb @ concat (map (url_esc reserved) s)"
  by (simp add: strbuf_add_urlencode_def url_esc_def [abs_def])

lemma plain_unreserved: "is_rfc3986_unreserved ch \<Longrightarrow> ch \<notin> set ''%+&=:''"
  by (auto simp: is_rfc3986_unreserved_def isalnum_iff isalpha_iff isdigit_iff)

lemma percent_not_reserved: "is_rfc3986_reserved ch \<Longrightarrow> ch \<noteq> CHR ''%''"
  by (auto simp: is_rfc3986_reserved_def)

lemma hex_digit_no_colon: "n < 16 \<Longrightarrow> hex_digits ! n \<noteq> CHR '':''"
proof -
  have "list_all (\<lambda>n. hex_digits ! n \<noteq> CHR '':'') [0..<16]" by code_simp
  then show "n < 16 \<Longrightarrow> hex_digits ! n \<noteq> CHR '':''" by (simp add: list_all_iff)
qed

lemma url_esc_no_colon: "char_code c < 128 \<Longrightarrow> reserved \<or> c \<noteq> CHR '':'' \<Longrightarrow> CHR '':'' \<notin> set (url_esc reserved c)"
  using plain_unreserved [of c] hex_digit_no_colon [of "of_char c mod 16"] hex_digit_no_colon [OF of_char_div_16 [of c]]
  by (auto simp: url_esc_def percent_hex_def)

text \<open>Reserved characters may be left as they are where no character stops the decoder and a plus stands for itself.\<close>

lemma url_decode_esc:
  "set stop_at \<subseteq> set ''&='' \<Longrightarrow> reserved \<or> stop_at = [] \<and> \<not> p \<Longrightarrow> \<forall>c \<in> set s. char_code c < 128 \<Longrightarrow>
     len < 0 \<or> len \<ge> int (length (concat (map (url_esc reserved) s))) \<Longrightarrow>
     url_decode_internal (concat (map (url_esc reserved) s) @ rest) len stop_at out p =
       url_decode_internal rest (len - int (length (concat (map (url_esc reserved) s)))) stop_at (out @ s) p"
proof (induction s arbitrary: len out)
  case (Cons c s)
  have stop: "CHR ''%'' \<notin> set stop_at" using Cons.prems(1) by auto
  consider "is_rfc3986_unreserved c" | "\<not> is_rfc3986_unreserved c" "\<not> reserved" "is_rfc3986_reserved c"
    | "\<not> is_rfc3986_unreserved c" "reserved \<or> \<not> is_rfc3986_reserved c" by blast
  then show ?case
  proof cases
    case 1
    with plain_unreserved [OF 1] Cons show ?thesis
      by (auto simp: url_esc_def algebra_simps)
  next
    case 2
    with percent_not_reserved [OF 2(3)] Cons show ?thesis
      by (auto simp: url_esc_def algebra_simps)
  next
    case 3
    then have "url_esc reserved c = [CHR ''%'', hex_digits ! (of_char c div 16), hex_digits ! (of_char c mod 16)]"
      using Cons.prems(3) by (auto simp: url_esc_def percent_hex_def)
    then show ?thesis
      using Cons.IH [of "len - 3" "out @ [c]"] Cons.prems stop
      by (auto simp: url_decode_percent algebra_simps)
  qed
qed simp

lemma sint_of_length: "n < 2 ^ 31 \<Longrightarrow> sint (word_of_nat n :: 32 word) = int n"
  by (simp add: signed_of_nat signed_take_bit_int_eq_self)

text \<open>
  C28. A form parameter whose name and value are encoded with \<^verbatim>\<open>strbuf_add_urlencode\<close>, the reserved characters too
  (\<open>reserved\<close> = 1), is split and decoded to the name and the value it was built from, whatever follows it. \<^verbatim>\<open>url_decode\<close> decodes an
  encoded string of less than 2 GiB, with the reserved characters encoded or, if it has no colon, not encoded.
  This holds for strings of ASCII characters.
\<close>

theorem url_round_trip:
  assumes "\<forall>c \<in> set name \<union> set val. char_code c < 128"
    and "length (strbuf_add_urlencode [] name reserved) < 2 ^ 31" and "reserved \<or> CHR '':'' \<notin> set name"
  shows "url_decode_parameter_name
           (strbuf_add_urlencode [] name True @ ''='' @ strbuf_add_urlencode [] val True @ rest)
           = (name, strbuf_add_urlencode [] val True @ rest) \<and>
         url_decode_parameter_value (strbuf_add_urlencode [] val True @ ''&'' @ rest) = (val, rest) \<and>
         url_decode (strbuf_add_urlencode [] name reserved) = name"
proof (intro conjI)
  have n: "\<forall>c \<in> set name. char_code c < 128" and v: "\<forall>c \<in> set val. char_code c < 128"
    using assms by auto
  show "url_decode_parameter_name
      (strbuf_add_urlencode [] name True @ ''='' @ strbuf_add_urlencode [] val True @ rest)
      = (name, strbuf_add_urlencode [] val True @ rest)"
    using url_decode_esc [of "''&=''" True True name "-1"] n
    by (simp add: strbuf_add_urlencode_esc url_decode_parameter_name_def)
  show "url_decode_parameter_value (strbuf_add_urlencode [] val True @ ''&'' @ rest) = (val, rest)"
    using url_decode_esc [of "''&''" True True val "-1"] v
    by (simp add: strbuf_add_urlencode_esc url_decode_parameter_value_def)
  define e where "e = concat (map (url_esc reserved) name)"
  have len: "sint (word_of_nat (length e) :: 32 word) = int (length e)"
    using assms(2) by (intro sint_of_length) (simp add: e_def strbuf_add_urlencode_esc)
  have "CHR '':'' \<notin> set (url_esc reserved c)" if "c \<in> set name" for c
    using url_esc_no_colon [of c reserved] n assms(3) that by metis
  then have "CHR '':'' \<notin> set e" by (auto simp: e_def)
  then have all: "takeWhile (\<lambda>c. c \<noteq> CHR '':'') e = e" by (subst takeWhile_eq_all_conv) auto
  have "url_decode_internal e (int (length e)) [] [] False = (name, [])"
    using url_decode_esc [of "[]" reserved False name "int (length e)" "[]" "[]"] n by (simp add: e_def)
  then have "url_decode e = name" unfolding url_decode_def len by (simp add: url_decode_mem_def Let_def all)
  then show "url_decode (strbuf_add_urlencode [] name reserved) = name"
    by (simp add: strbuf_add_urlencode_esc e_def)
qed

theorem url_round_trip_witness:
  "url_decode_parameter_value (strbuf_add_urlencode [] ''a b&c'' True @ ''&'' @ ''x=1'') = (''a b&c'', ''x=1'') \<and>
   url_decode (strbuf_add_urlencode [] ''user'' False) = ''user''"
proof -
  have "\<forall>c \<in> set ''user'' \<union> set ''a b&c''. char_code c < 128" by (simp add: char_code_def)
  moreover have "strbuf_add_urlencode [] ''user'' False = ''user''" by code_simp
  then have "length (strbuf_add_urlencode [] ''user'' False) < 2 ^ 31" by simp
  moreover have "False \<or> CHR '':'' \<notin> set ''user''" by simp
  ultimately show ?thesis using url_round_trip [of "''user''" "''a b&c''" False "''x=1''"] by blast
qed

text \<open>
  Two things that go wrong: a percent sequence that crosses the end of the counted buffer takes the
  counter below zero, so that decoding runs on to the NUL; and a byte above 127 is encoded with eight
  digits, of which a decoder reads the first two.
\<close>

lemma url_decode_mem_overrun: "url_decode_mem ''%41bc'' 1 = ''Abc''"
  by code_simp

lemma urlencode_sign_extends: "strbuf_add_urlencode [] [CHR 0xe9] True = ''%ffffffe9''"
  by code_simp

end
