(* ===== verification/Base85.thy ===== *)
theory Base85
  imports Git_Prelude
begin

unbundle bit_operations_syntax

text \<open>
  \<^verbatim>\<open>base85.c\<close>: the base 85 encoding of binary patches. The accumulator is the 32-bit word of the
  code; the decoder returns what it wrote, or \<open>None\<close> for its error return.
\<close>

definition en85 :: string where
  "en85 = ''0123456789ABCDEFGHIJKLMNOPQRSTUVWXYZabcdefghijklmnopqrstuvwxyz!#$%&()*+-;<=>?@^_`{|}~''"

definition prep_base85 :: "nat list" where
  "prep_base85 = fold (\<lambda>i tab. tab[of_char (en85 ! i) := i + 1]) [0..<85] (replicate 256 0)"

definition de85 :: "char \<Rightarrow> int" where
  "de85 ch = int (prep_base85 ! of_char ch)"

text \<open>The first four digits of a group.\<close>

fun decode_digits :: "nat \<Rightarrow> string \<Rightarrow> u32 \<Rightarrow> (u32 \<times> string) option" where
  "decode_digits 0 buffer acc = Some (acc, buffer)"
| "decode_digits (Suc cnt) buffer acc =
     (let de = de85 (peek buffer) - 1 in
      if de < 0 then None else decode_digits cnt (tl buffer) (acc * 85 + word_of_int de))"

text \<open>A whole group of five; the two overflow tests are the code's.\<close>

definition decode_group :: "string \<Rightarrow> (u32 \<times> string) option" where
  "decode_group buffer =
     (case decode_digits 4 buffer 0 of
        None \<Rightarrow> None
      | Some (acc, buffer) \<Rightarrow>
          let de = de85 (peek buffer) - 1 in
          if de < 0 then None
          else if 0xffffffff div 85 < acc \<or> 0xffffffff - word_of_int de < acc * 85 then None
          else Some (acc * 85 + word_of_int de, tl buffer))"

fun rotate_out :: "nat \<Rightarrow> u32 \<Rightarrow> byte list" where
  "rotate_out 0 acc = []"
| "rotate_out (Suc cnt) acc =
     (let acc = push_bit 8 acc OR drop_bit 24 acc in ucast acc # rotate_out cnt acc)"

function decode_85 :: "string \<Rightarrow> nat \<Rightarrow> byte list option" where
  "decode_85 buffer len =
     (if len = 0 then Some []
      else case decode_group buffer of
        None \<Rightarrow> None
      | Some (acc, buffer) \<Rightarrow>
          let cnt = (if len < 4 then len else 4)
          in map_option ((@) (rotate_out cnt acc)) (decode_85 buffer (len - cnt)))"
  by pat_completeness auto
termination
  by (relation "measure snd") auto

declare decode_85.simps [simp del]

fun gather :: "nat list \<Rightarrow> byte list \<Rightarrow> u32 \<Rightarrow> u32 \<times> byte list" where
  "gather [] bytes acc = (acc, bytes)"
| "gather (cnt # cnts) [] acc = (acc, [])"
| "gather (cnt # cnts) (ch # bytes) acc =
     (let acc = acc OR push_bit cnt (ucast ch) in
      if bytes = [] then (acc, []) else gather cnts bytes acc)"

fun digits_out :: "nat \<Rightarrow> u32 \<Rightarrow> string \<Rightarrow> string" where
  "digits_out 0 acc buf = buf"
| "digits_out (Suc cnt) acc buf = digits_out cnt (acc div 85) (en85 ! unat (acc mod 85) # buf)"

lemma gather_length: "length (snd (gather cnts bytes acc)) \<le> length bytes"
  by (induction cnts bytes acc rule: gather.induct) (auto simp: Let_def)

lemma gather_shorter: "cnts \<noteq> [] \<Longrightarrow> bytes \<noteq> [] \<Longrightarrow> length (snd (gather cnts bytes acc)) < length bytes"
  by (cases cnts; cases bytes) (auto simp: Let_def less_Suc_eq_le gather_length)

function encode_85 :: "byte list \<Rightarrow> string" where
  "encode_85 bytes =
     (if bytes = [] then []
      else let (acc, bytes) = gather [24, 16, 8, 0] bytes 0 in digits_out 5 acc [] @ encode_85 bytes)"
  by pat_completeness auto
termination
proof (relation "measure length", goal_cases)
  case (2 bytes x acc bytes')
  then show ?case using gather_shorter [of "[24, 16, 8, 0]" bytes 0] by (metis in_measure list.discI snd_conv)
qed simp

declare encode_85.simps [simp del]

section \<open>One group\<close>

lemma decode_digits_add:
  "decode_digits (m + n) s acc = Option.bind (decode_digits m s acc) (\<lambda>(a, s). decode_digits n s a)"
  by (induction m arbitrary: s acc) (auto simp: Let_def)

lemma fold_update_other:
  "i \<notin> f ` set xs \<Longrightarrow> fold (\<lambda>x tab. tab[f x := g x]) xs tab ! i = tab ! i"
  by (induction xs arbitrary: tab) auto

lemma fold_update_nth:
  "distinct (map f xs) \<Longrightarrow> \<forall>x \<in> set xs. f x < length tab \<Longrightarrow> x \<in> set xs \<Longrightarrow>
     fold (\<lambda>x tab. tab[f x := g x]) xs tab ! f x = g x"
proof (induction xs arbitrary: tab)
  case (Cons y xs)
  show ?case
  proof (cases "x = y")
    case True
    with Cons.prems have "f x \<notin> f ` set xs" by auto
    with True Cons.prems(2) show ?thesis by (simp add: fold_update_other)
  qed (use Cons in auto)
qed simp

lemma length_en85: "length en85 = 85"
  by (simp add: en85_def)

lemma distinct_en85: "distinct (map (\<lambda>i. of_char (en85 ! i) :: nat) [0..<85])"
proof -
  have "distinct en85" by code_simp
  then have "distinct (map (of_char :: char \<Rightarrow> nat) en85)" by (simp add: distinct_map inj_on_def)
  then show ?thesis by (simp add: map_nth flip: length_en85 map_map [unfolded comp_def])
qed

lemma de85_en85: "n < 85 \<Longrightarrow> de85 (en85 ! n) = int n + 1"
  using fold_update_nth [OF distinct_en85, of "replicate 256 0" n "\<lambda>i. i + 1"]
  by (simp add: de85_def prep_base85_def)

lemma mod_85_less: "unat (acc mod 85 :: u32) < 85"
  by (simp add: unat_mod_distrib)

lemma word_div_mod_85: "acc div 85 * 85 + acc mod 85 = (acc :: u32)"
  by (rule div_mult_mod_eq)

lemma decode_digit: "decode_digits 1 (en85 ! unat (acc mod 85) # s) a = Some (a * 85 + acc mod 85, s)"
  using de85_en85 [OF mod_85_less [of acc]] by simp

lemma decode_digits_out:
  "decode_digits n (digits_out n acc s) a = Some (a * 85 ^ n + word_of_nat (unat acc mod 85 ^ n), s)"
proof (induction n arbitrary: acc s)
  case (Suc n)
  let ?w = "word_of_nat :: nat \<Rightarrow> u32"
  have "unat acc mod 85 ^ Suc n = 85 * (unat acc div 85 mod 85 ^ n) + unat acc mod 85"
    by (simp add: mod_mult2_eq)
  then have "?w (unat acc mod 85 ^ Suc n) = ?w (unat acc div 85 mod 85 ^ n) * 85 + acc mod 85"
    by (simp add: of_nat_add of_nat_mult mult.commute word_arith_nat_mod)
  moreover have "unat (acc div 85) = unat acc div 85" by (simp add: unat_div_distrib)
  ultimately show ?case
    using decode_digits_add [of n 1] decode_digit
    by (simp add: Suc.IH algebra_simps del: decode_digits.simps)
qed simp

lemma decode_group_out: "decode_group (digits_out 5 acc s) = Some (acc, s)"
proof -
  let ?d = "en85 ! unat (acc mod 85)"
  have "digits_out 5 acc s = digits_out 4 (acc div 85) (?d # s)" by (simp add: numeral_eq_Suc)
  moreover have "decode_digits 4 (digits_out 4 (acc div 85) (?d # s)) 0 = Some (acc div 85, ?d # s)"
  proof -
    have "unat (acc div 85) < 85 ^ 4"
      using unat_u32_less [of acc] by (simp add: unat_div_distrib del: unat_u32_less)
    then show ?thesis by (simp add: decode_digits_out)
  qed
  moreover have "\<not> (0xffffffff div 85 < acc div 85)"
    using unat_u32_less [of acc] by (simp add: word_less_nat_alt unat_div_distrib del: unat_u32_less)
  moreover have "\<not> (0xffffffff - acc mod 85 < acc div 85 * 85)"
  proof -
    have "unat (0xffffffff - acc mod 85) = 0xffffffff - unat acc mod 85"
      by (subst unat_sub) (auto simp: word_le_nat_alt unat_mod_distrib)
    moreover have "unat (acc div 85 * 85) = unat acc div 85 * 85"
      using unat_u32_less [of acc] by (simp add: unat_mult_lem unat_div_distrib unat_word_ariths del: unat_u32_less)
    ultimately show ?thesis
      using unat_u32_less [of acc] div_mult_mod_eq [of "unat acc" 85] unfolding word_less_nat_alt
      by linarith
  qed
  ultimately show ?thesis
    using de85_en85 [OF mod_85_less [of acc]] word_div_mod_85 [of acc] by (simp add: decode_group_def)
qed

section \<open>Bytes and words\<close>

lemma rotate_out_bytes:
  "rotate_out 4 acc = [ucast (drop_bit 24 acc), ucast (drop_bit 16 acc), ucast (drop_bit 8 acc), ucast acc]"
proof -
  have four: "(4 :: nat) = Suc (Suc (Suc (Suc 0)))" by simp
  show ?thesis
    unfolding four rotate_out.simps Let_def list.inject
    by (intro conjI refl; rule bit_word_eqI) (auto simp: bit_simps dest: bit_imp_le_length)
qed

lemma rotate_out_take: "n \<le> m \<Longrightarrow> rotate_out n acc = take n (rotate_out m acc)"
proof (induction n arbitrary: m acc)
  case (Suc n)
  then show ?case by (cases m) (auto simp: Let_def)
qed simp

definition block :: "byte \<Rightarrow> byte \<Rightarrow> byte \<Rightarrow> byte \<Rightarrow> u32" where
  "block b0 b1 b2 b3 = ((push_bit 24 (ucast b0) OR push_bit 16 (ucast b1)) OR push_bit 8 (ucast b2)) OR ucast b3"

lemma rotate_block: "rotate_out 4 (block b0 b1 b2 b3) = [b0, b1, b2, b3]"
  unfolding rotate_out_bytes block_def
  by (simp, intro conjI; rule bit_word_eqI) (auto simp: bit_simps dest: bit_imp_le_length)

lemma decode_85_group:
  assumes "0 < len" and "gather [24, 16, 8, 0] bytes 0 = (acc, rest)"
  shows "decode_85 (digits_out 5 acc [] @ s) len =
    map_option ((@) (take (min len 4) (rotate_out 4 acc))) (decode_85 s (len - min len 4))"
proof -
  have app: "digits_out n acc buf @ s = digits_out n acc (buf @ s)" for n acc buf s
    by (induction n arbitrary: acc buf) auto
  show ?thesis
    using assms(1) decode_group_out [of acc s] rotate_out_take [of len 4 acc] rotate_out_take [of 4 4 acc]
    by (subst decode_85.simps) (auto simp: app min_def)
qed

text \<open>
  C27. \<^verbatim>\<open>decode_85\<close> reads back, from what \<^verbatim>\<open>encode_85\<close> wrote for a buffer of any length and
  given that length, the very bytes of the buffer; the encoding has five characters for every group of
  four bytes begun.
\<close>

theorem decode_encode_85:
  "decode_85 (encode_85 bytes) (length bytes) = Some bytes \<and> length (encode_85 bytes) = (length bytes + 3) div 4 * 5"
proof (induction bytes rule: encode_85.induct)
  case (1 bytes)
  have len5: "length (digits_out 5 acc []) = 5" for acc by (simp add: numeral_eq_Suc)
  show ?case
  proof (cases "bytes = []")
    case True
    then show ?thesis by (simp add: encode_85.simps decode_85.simps)
  next
    case False
    obtain acc rest where g: "gather [24, 16, 8, 0] bytes 0 = (acc, rest)" by fastforce
    have IH: "decode_85 (encode_85 rest) (length rest) = Some rest"
      "length (encode_85 rest) = (length rest + 3) div 4 * 5"
      using "1.IH" [OF False g [symmetric] refl] by auto
    have enc: "encode_85 bytes = digits_out 5 acc [] @ encode_85 rest"
      using False g by (subst encode_85.simps) simp
    have parts: "take (min (length bytes) 4) (rotate_out 4 acc) @ rest = bytes \<and>
        length rest = length bytes - min (length bytes) 4"
    proof (cases bytes rule: remdups_adj.cases)
      case (2 b0)
      then have "acc = block b0 0 0 0" "rest = []" using g by (auto simp: block_def)
      with 2 show ?thesis by (simp add: rotate_block)
    next
      case (3 b0 b1 r)
      show ?thesis
      proof (cases r rule: remdups_adj.cases)
        case 1
        then have "acc = block b0 b1 0 0" "rest = []" using g 3 by (auto simp: block_def)
        with 1 3 show ?thesis by (simp add: rotate_block)
      next
        case (2 b2)
        then have "acc = block b0 b1 b2 0" "rest = []" using g 3 by (auto simp: block_def)
        with 2 3 show ?thesis by (simp add: rotate_block)
      next
        case (3 b2 b3 q)
        then have "acc = block b0 b1 b2 b3" "rest = q" using g \<open>bytes = b0 # b1 # r\<close>
          by (auto simp: block_def Let_def split: if_splits)
        with 3 \<open>bytes = b0 # b1 # r\<close> show ?thesis by (simp add: rotate_block)
      qed
    qed (use False in simp)
    have "decode_85 (encode_85 bytes) (length bytes) = Some bytes"
      using decode_85_group [OF _ g, of "length bytes" "encode_85 rest"] False IH(1) parts by (simp add: enc)
    moreover have "length (encode_85 bytes) = (length bytes + 3) div 4 * 5"
    proof (cases "length bytes < 4")
      case True
      with False parts have "rest = []" and "(length bytes + 3) div 4 = 1"
        by (auto intro!: div_nat_eqI simp: Suc_le_eq)
      with IH(2) show ?thesis by (simp add: enc len5)
    next
      case False
      then have "length bytes + 3 = length rest + 3 + 4" using parts by simp
      then have "(length bytes + 3) div 4 = (length rest + 3) div 4 + 1" by (simp only: div_add_self2)
      with IH(2) show ?thesis by (simp add: enc len5)
    qed
    ultimately show ?thesis by simp
  qed
qed

end
