(* ===== verification/Pkt_Line.thy ===== *)
theory Pkt_Line
  imports Hex
begin

text \<open>
  \<^verbatim>\<open>pkt-line.c\<close> and \<^verbatim>\<open>sideband.c\<close>: the packets of the wire protocol, and several streams multiplexed over
  them. The source of a read (a descriptor or a buffer) is the string of bytes that are still to come;
  tracing is left out. \<open>die\<close> is \<open>Died\<close>, the gentle \<open>-1\<close> at the end of the input is \<open>Eof\<close>.
\<close>

datatype 'a packet = Died | Eof | Packet 'a

abbreviation LARGE_PACKET_MAX :: nat where "LARGE_PACKET_MAX \<equiv> 65520"

section \<open>Packets\<close>

abbreviation (input) hex_nibble :: "nat \<Rightarrow> char" where
  "hex_nibble a \<equiv> hex_digits ! (a mod 16)"

definition packet_header :: "nat \<Rightarrow> string" where
  "packet_header n =
     [hex_nibble (n div 16 ^ 3), hex_nibble (n div 16 ^ 2), hex_nibble (n div 16), hex_nibble n]"

text \<open>\<open>payload\<close> is what the format and its arguments expand to.\<close>

definition format_packet :: "string \<Rightarrow> string \<Rightarrow> string option" where
  "format_packet out payload =
     (let n = length payload + 4 in
      if n > LARGE_PACKET_MAX then None else Some (out @ packet_header n @ payload))"

definition packet_buf_flush :: "string \<Rightarrow> string" where
  "packet_buf_flush buf = buf @ ''0000''"

definition get_packet_data :: "string \<Rightarrow> nat \<Rightarrow> bool \<Rightarrow> (string \<times> string) packet" where
  "get_packet_data src sz gentle =
     (if length src < sz then (if gentle then Eof else Died) else Packet (take sz src, drop sz src))"

definition packet_digit :: "char \<Rightarrow> int option" where
  "packet_digit c =
     (let c = char_code c in
      if 48 \<le> c \<and> c \<le> 57 then Some (c - 48)
      else if 97 \<le> c \<and> c \<le> 102 then Some (c - 97 + 10)
      else if 65 \<le> c \<and> c \<le> 70 then Some (c - 65 + 10)
      else None)"

fun packet_length :: "string \<Rightarrow> int \<Rightarrow> int" where
  "packet_length [] len = len"
| "packet_length (c # linelen) len =
     (case packet_digit c of None \<Rightarrow> -1 | Some v \<Rightarrow> packet_length linelen (len * 16 + v))"

text \<open>
  \<open>packet_read\<close> returns the length with what it put into the buffer and the rest of the source. The
  comparison \<open>len >= size\<close> is between \<open>unsigned int\<close>s.
\<close>

definition packet_read :: "nat \<Rightarrow> bool \<Rightarrow> bool \<Rightarrow> string \<Rightarrow> (nat \<times> string \<times> string) packet" where
  "packet_read sz gentle chomp src =
     (case get_packet_data src 4 gentle of
        Died \<Rightarrow> Died
      | Eof \<Rightarrow> Eof
      | Packet (linelen, src) \<Rightarrow>
          let len = packet_length linelen 0 in
          if len < 0 then Died
          else if len = 0 then Packet (0, [], src)
          else let ulen = nat ((len - 4) mod 2 ^ 32) in
            if ulen \<ge> sz then Died
            else (case get_packet_data src ulen gentle of
                Died \<Rightarrow> Died
              | Eof \<Rightarrow> Eof
              | Packet (buffer, src) \<Rightarrow>
                  let buffer = (if chomp \<and> ulen \<noteq> 0 \<and> last buffer = CHR 0x0a then butlast buffer else buffer)
                  in Packet (length buffer, buffer, src)))"

text \<open>NULL for a packet without content.\<close>

definition packet_read_line :: "string \<Rightarrow> (string option \<times> string) packet" where
  "packet_read_line src =
     (case packet_read LARGE_PACKET_MAX False True src of
        Died \<Rightarrow> Died
      | Eof \<Rightarrow> Eof
      | Packet (len, buffer, src) \<Rightarrow> Packet (if len \<noteq> 0 then Some buffer else None, src))"

section \<open>The side band\<close>

abbreviation SIDEBAND_PROTOCOL_ERROR :: int where "SIDEBAND_PROTOCOL_ERROR \<equiv> -2"
abbreviation SIDEBAND_REMOTE_ERROR :: int where "SIDEBAND_REMOTE_ERROR \<equiv> -1"

text \<open>
  What \<open>send_sideband\<close> writes for the \<open>sz\<close> bytes of \<open>p\<close>. The rest of \<open>sz\<close>, a \<open>ssize_t\<close>, is cut to an \<open>unsigned\<close> in every round;
  \<open>None\<close> is a loop that never ends. Four digits are enough for \<open>packet_max\<close> up to 65535, and it is at least 5.
\<close>

partial_function (option) send_sideband :: "int \<Rightarrow> string \<Rightarrow> nat \<Rightarrow> string option" where
  "send_sideband band p packet_max =
     (if p = [] then Some []
      else let n = length p mod 2 ^ 32;
               n = (if packet_max - 5 < n then packet_max - 5 else n)
           in Option.bind (send_sideband band (drop n p) packet_max) (\<lambda>rest.
                Some ((if 0 \<le> band then packet_header (n + 5) @ [char_of (nat band)] else packet_header (n + 4)) @ take n p @ rest)))"

abbreviation PREFIX :: string where "PREFIX \<equiv> ''remote:''"

text \<open>\<open>brk\<close>: the position behind the first line break from \<open>start\<close> on, or 0.\<close>

definition find_break :: "string \<Rightarrow> nat \<Rightarrow> nat" where
  "find_break b start =
     (let n = length (takeWhile (\<lambda>c. c \<noteq> CHR 0x0a \<and> c \<noteq> CHR 0x0d) (drop start b))
      in if start + n < length b then start + n + 1 else 0)"

text \<open>A \<open>%.*s\<close> stops at a NUL.\<close>

definition printed :: "nat \<Rightarrow> string \<Rightarrow> string" where
  "printed n s = takeWhile (\<lambda>c. c \<noteq> NUL) (take n s)"

text \<open>
  One round of the loop over a band 2 message: what is printed, the new \<open>skip_pf\<close>, what is left.
\<close>

definition band2_step :: "string \<Rightarrow> bool \<Rightarrow> string \<Rightarrow> string \<times> bool \<times> string" where
  "band2_step suffix skip_pf msg =
     (let pf = length PREFIX;
          b = (if skip_pf then msg else PREFIX @ '' '' @ msg);
          brk = find_break b (if skip_pf then 0 else pf + 1)
      in if brk > (if skip_pf then 0 else pf + 1 + 1) then
           (printed (brk + length suffix) (take (brk - 1) b @ suffix @ [b ! (brk - 1)]), brk = 0, drop brk b)
         else let l = (if brk \<noteq> 0 then brk else length b)
           in (printed l b, brk = 0, drop l b))"

lemma find_break_less: "find_break b start \<noteq> 0 \<Longrightarrow> start < find_break b start \<and> find_break b start \<le> length b"
  by (auto simp: find_break_def Let_def split: if_splits)

lemma band2_step_shorter: "msg \<noteq> [] \<Longrightarrow> band2_step suffix skip_pf msg = (t, s, rest) \<Longrightarrow> length rest < length msg"
  using find_break_less [of "if skip_pf then msg else PREFIX @ '' '' @ msg" "if skip_pf then 0 else length PREFIX + 1"]
  by (auto simp: band2_step_def Let_def split: if_splits)

lemma band2_step_empty: "band2_step suffix skip_pf [] = (t, s, rest) \<Longrightarrow> rest = []"
  by (cases skip_pf) (auto simp: band2_step_def Let_def find_break_def split: if_splits)

lemma band2_rest_shorter:
  "band2_step suffix skip_pf msg = (t, s, rest) \<Longrightarrow> rest \<noteq> [] \<Longrightarrow> length rest < length msg"
  by (cases "msg = []") (auto dest: band2_step_empty band2_step_shorter)

function band2_loop :: "string \<Rightarrow> bool \<Rightarrow> string \<Rightarrow> string \<Rightarrow> string \<times> bool" where
  "band2_loop suffix skip_pf msg err =
     (case band2_step suffix skip_pf msg of
        (txt, skip_pf, rest) \<Rightarrow>
          if rest = [] then (err @ txt, skip_pf) else band2_loop suffix skip_pf rest (err @ txt))"
  by pat_completeness auto
termination
  by (relation "measure (\<lambda>(_, _, msg, _). length msg)") (simp_all, metis band2_rest_shorter)

declare band2_loop.simps [simp del]

text \<open>
  \<open>recv_sideband\<close> up to the flush packet: the status, what went to \<open>out\<close> and to the standard
  error, and the rest of the input. \<open>None\<close>: the process died in \<open>packet_read\<close>.
\<close>

lemma packet_read_shorter:
  "packet_read sz gentle chomp src = Packet (len, buf, src') \<Longrightarrow> length src' < length src"
  by (auto simp: packet_read_def get_packet_data_def Let_def split: if_splits packet.splits intro!: diff_less)

function recv_sideband ::
  "string \<Rightarrow> bool \<Rightarrow> string \<Rightarrow> string \<Rightarrow> string \<Rightarrow> (int \<times> string \<times> string \<times> string) option" where
  "recv_sideband suffix skip_pf src out err =
     (case packet_read LARGE_PACKET_MAX False False src of
        Died \<Rightarrow> None
      | Eof \<Rightarrow> None
      | Packet (len, buf, src) \<Rightarrow>
          (case buf of
             [] \<Rightarrow> Some (0, out, err, src)
           | band # msg \<Rightarrow>
               if band = CHR 0x03 then
                 Some (SIDEBAND_REMOTE_ERROR, out, err @ printed (length (PREFIX @ '' '' @ msg)) (PREFIX @ '' '' @ msg) @ [CHR 0x0a], src)
               else if band = CHR 0x02 then
                 (let (err, skip_pf) = band2_loop suffix skip_pf msg err
                  in recv_sideband suffix skip_pf src out err)
               else if band = CHR 0x01 then recv_sideband suffix skip_pf src (out @ msg) err
               else Some (SIDEBAND_PROTOCOL_ERROR, out, err, src)))"
  by pat_completeness auto
termination
  by (relation "measure (\<lambda>(_, _, src, _). length src)") (auto dest: packet_read_shorter)

declare recv_sideband.simps [simp del]

section \<open>Packets are read back\<close>

lemma packet_digit_hex: "packet_digit (hex_nibble n) = Some (int (n mod 16))"
proof -
  have "list_all (\<lambda>n. packet_digit (hex_digits ! n) = Some (int n)) [0..<16]" by code_simp
  then show ?thesis by (simp add: list_all_iff)
qed

lemma hex_sum:
  "n = d0 + 16 * a \<Longrightarrow> a = d1 + 16 * b \<Longrightarrow> b = d2 + 16 * c \<Longrightarrow> d3 = c \<Longrightarrow>
     ((d3 * 16 + d2) * 16 + d1) * 16 + d0 = (n :: nat)"
  by simp

lemma packet_length_digits:
  "packet_length [hex_nibble a, hex_nibble b, hex_nibble c, hex_nibble d] 0 =
     int (((a mod 16 * 16 + b mod 16) * 16 + c mod 16) * 16 + d mod 16)"
  by (simp add: packet_digit_hex)

lemma packet_length_header: "n < 65536 \<Longrightarrow> packet_length (packet_header n) 0 = int n"
proof -
  assume n: "n < 65536"
  have "n = n mod 16 + 16 * (n div 16)" by (rule mod_mult_div_eq [symmetric])
  moreover have "n div 16 = n div 16 mod 16 + 16 * (n div 16 div 16)" by (rule mod_mult_div_eq [symmetric])
  moreover have "n div 16 div 16 = n div 16 div 16 mod 16 + 16 * (n div 16 div 16 div 16)"
    by (rule mod_mult_div_eq [symmetric])
  moreover have "n div 16 div 16 div 16 < 16" using n by linarith
  then have "n div 16 div 16 div 16 mod 16 = n div 16 div 16 div 16" by (rule mod_less)
  ultimately have "((n div 16 div 16 div 16 mod 16 * 16 + n div 16 div 16 mod 16) * 16 + n div 16 mod 16) * 16 + n mod 16 = n"
    by (rule hex_sum)
  moreover have "n div 4096 = n div 16 div 16 div 16" "n div 256 = n div 16 div 16"
    by (simp_all flip: div_mult2_eq)
  moreover have "packet_header n = [hex_nibble (n div 4096), hex_nibble (n div 256), hex_nibble (n div 16), hex_nibble n]"
    by (simp add: packet_header_def)
  ultimately show ?thesis by (simp only: packet_length_digits)
qed

lemma length_packet_header [simp]: "length (packet_header n) = 4"
  by (simp add: packet_header_def)

lemma packet_read_packet:
  assumes "length payload + 4 \<le> LARGE_PACKET_MAX"
  shows "packet_read LARGE_PACKET_MAX gentle chomp (packet_header (length payload + 4) @ payload @ rest) =
    (let buf = (if chomp \<and> payload \<noteq> [] \<and> last payload = CHR 0x0a then butlast payload else payload)
     in Packet (length buf, buf, rest))"
proof -
  have "packet_length (packet_header (length payload + 4)) 0 = int (length payload + 4)"
    by (rule packet_length_header) (use assms in simp)
  moreover have "nat ((int (length payload + 4) - 4) mod 2 ^ 32) = length payload"
    using assms by (simp add: mod_pos_pos_trivial)
  ultimately show ?thesis
    using assms by (auto simp: packet_read_def get_packet_data_def Let_def)
qed

text \<open>
  C29. What \<^verbatim>\<open>packet_buf_write\<close> appends for a message of at most 65516 bytes is read by
  \<^verbatim>\<open>packet_read\<close> as exactly that message (less a final newline on request), leaving what follows; a longer
  message dies, and a flush packet reads as length 0.
\<close>

theorem packet_round_trip:
  "(if length payload \<le> 65516 then
      \<exists>s. format_packet out payload = Some (out @ s) \<and>
        packet_read LARGE_PACKET_MAX gentle False (s @ rest) = Packet (length payload, payload, rest) \<and>
        packet_read_line (s @ rest) =
          (let line = (if payload \<noteq> [] \<and> last payload = CHR 0x0a then butlast payload else payload)
           in Packet (if line = [] then None else Some line, rest))
    else format_packet out payload = None) \<and>
   packet_read sz gentle chomp (packet_buf_flush [] @ rest) = Packet (0, [], rest)"
proof (intro conjI)
  show "packet_read sz gentle chomp (packet_buf_flush [] @ rest) = Packet (0, [], rest)"
    by (simp add: packet_read_def packet_buf_flush_def get_packet_data_def packet_digit_def char_code_def)
  show "if length payload \<le> 65516 then
      \<exists>s. format_packet out payload = Some (out @ s) \<and>
        packet_read LARGE_PACKET_MAX gentle False (s @ rest) = Packet (length payload, payload, rest) \<and>
        packet_read_line (s @ rest) =
          (let line = (if payload \<noteq> [] \<and> last payload = CHR 0x0a then butlast payload else payload)
           in Packet (if line = [] then None else Some line, rest))
    else format_packet out payload = None"
    using packet_read_packet [of payload gentle False rest] packet_read_packet [of payload False True rest]
    by (auto simp: format_packet_def packet_read_line_def Let_def)
qed

section \<open>The side band carries the data\<close>

lemma send_sideband_step:
  assumes "p \<noteq> []" and "length p < 2 ^ 32" and "5 < packet_max"
    and "send_sideband 1 (drop (min (length p) (packet_max - 5)) p) packet_max = Some s"
  shows "send_sideband 1 p packet_max =
    Some (packet_header (min (length p) (packet_max - 5) + 5) @ (CHR 0x01 # take (min (length p) (packet_max - 5)) p) @ s)"
proof -
  let ?n = "if packet_max - 5 < length p then packet_max - 5 else length p"
  have n: "min (length p) (packet_max - 5) = ?n" by simp
  have band: "char_of (Suc 0) = CHR 0x01" by (simp add: char_of_def bit_0)
  show ?thesis
    using assms by (subst send_sideband.simps) (simp only: n, simp add: Let_def band)
qed

lemma recv_send_sideband:
  "length p < 2 ^ 32 \<Longrightarrow> 5 < packet_max \<Longrightarrow> packet_max \<le> LARGE_PACKET_MAX \<Longrightarrow>
   \<exists>s. send_sideband 1 p packet_max = Some s \<and>
     (\<forall>src out err. recv_sideband suffix skip_pf (s @ src) out err = recv_sideband suffix skip_pf src (out @ p) err)"
proof (induction p rule: length_induct)
  case (1 p)
  show ?case
  proof (cases "p = []")
    case True
    then show ?thesis by (simp add: send_sideband.simps)
  next
    case False
    let ?n = "min (length p) (packet_max - 5)"
    have "length (drop ?n p) < length p" using False "1.prems" by simp
    then obtain s where s: "send_sideband 1 (drop ?n p) packet_max = Some s"
      "\<And>src out err. recv_sideband suffix skip_pf (s @ src) out err = recv_sideband suffix skip_pf src (out @ drop ?n p) err"
      using "1.IH" [rule_format, of "drop ?n p"] "1.prems" by (meson less_trans)
    note send = send_sideband_step [OF False "1.prems"(1,2) s(1)]
    have eq: "length (CHR 0x01 # take ?n p) + 4 = ?n + 5" by simp
    have le: "length (CHR 0x01 # take ?n p) + 4 \<le> LARGE_PACKET_MAX" using "1.prems" by simp
    have "recv_sideband suffix skip_pf ((packet_header (?n + 5) @ (CHR 0x01 # take ?n p) @ s) @ src) out err =
        recv_sideband suffix skip_pf src (out @ p) err" for src out err
    proof -
      note packet = packet_read_packet [OF le, of False False "s @ src", unfolded eq]
      have "recv_sideband suffix skip_pf (packet_header (?n + 5) @ (CHR 0x01 # take ?n p) @ s @ src) out err =
        recv_sideband suffix skip_pf (s @ src) (out @ take ?n p) err"
        by (subst recv_sideband.simps) (simp only: packet, simp add: Let_def)
      also have "\<dots> = recv_sideband suffix skip_pf src ((out @ take ?n p) @ drop ?n p) err" by (rule s(2))
      finally show ?thesis by simp
    qed
    with send show ?thesis by blast
  qed
qed

text \<open>
  C30. \<^verbatim>\<open>send_sideband\<close> returns on less than 4 GiB of data, and whatever it sends on band 1, split into
  packets of any admissible size, \<^verbatim>\<open>recv_sideband\<close> writes to its output byte for byte, wherever in the stream it stands; a flush packet
  ends the stream with status 0.
\<close>

theorem sideband_round_trip:
  assumes "length p < 2 ^ 32" and "5 < packet_max" and "packet_max \<le> 65520"
  shows "\<exists>s. send_sideband 1 p packet_max = Some s \<and>
    (\<forall>src out err. recv_sideband suffix skip_pf (s @ src) out err = recv_sideband suffix skip_pf src (out @ p) err) \<and>
    (\<forall>rest. recv_sideband suffix skip_pf (s @ packet_buf_flush [] @ rest) [] [] = Some (0, p, [], rest))"
proof -
  obtain s where s: "send_sideband 1 p packet_max = Some s"
    "\<And>src out err. recv_sideband suffix skip_pf (s @ src) out err = recv_sideband suffix skip_pf src (out @ p) err"
    using recv_send_sideband [OF assms, of suffix skip_pf] by blast
  have "packet_read LARGE_PACKET_MAX False False (packet_buf_flush [] @ rest) = Packet (0, [], rest)" for rest
    by (simp add: packet_read_def packet_buf_flush_def get_packet_data_def packet_digit_def char_code_def)
  then have "recv_sideband suffix skip_pf (packet_buf_flush [] @ rest) p [] = Some (0, p, [], rest)" for rest
    by (subst recv_sideband.simps) simp
  with s show ?thesis by (intro exI [of _ s]) simp
qed

theorem sideband_round_trip_witness:
  "\<exists>s. send_sideband 1 ''hello world'' 10 = Some s \<and>
     recv_sideband [] False (s @ packet_buf_flush [] @ ''x'') [] [] = Some (0, ''hello world'', [], ''x'')"
  using sideband_round_trip [of "''hello world''" 10 "[]" False] by auto

text \<open>
  From 4 GiB on, the rest of \<open>sz\<close> comes down to a multiple of \<open>2 ^ 32\<close>, which is cut to 0: empty packets are sent for ever.
\<close>

lemma send_sideband_loops:
  assumes "2 ^ 32 \<le> length p"
  shows "send_sideband band p packet_max = None"
proof -
  have "length p < 2 ^ 32" if "send_sideband band p packet_max = Some s" for band p packet_max s
    using that
  proof (rule send_sideband.raw_induct [where P = "\<lambda>band p packet_max s. length p < 2 ^ 32", rotated], goal_cases)
    case (1 send band p packet_max s)
    show ?case
    proof (rule ccontr)
      assume big: "\<not> length p < 2 ^ 32"
      then have "p \<noteq> []" by auto
      define n where "n = (if packet_max - 5 < length p mod 2 ^ 32 then packet_max - 5 else length p mod 2 ^ 32)"
      from 1(2) \<open>p \<noteq> []\<close> obtain r where "send band (drop n p) packet_max = Some r"
        unfolding Let_def n_def [symmetric] by (auto simp: bind_eq_Some_conv)
      from 1(1) [OF this] have "length p - n < 2 ^ 32" by simp
      moreover have "n \<le> length p mod 2 ^ 32" by (simp add: n_def)
      moreover have "2 ^ 32 \<le> length p - length p mod 2 ^ 32"
        using big by (simp add: minus_mod_eq_mult_div Suc_le_eq div_greater_zero_iff)
      ultimately show False by (meson diff_le_mono2 le_trans not_le)
    qed
  qed
  then show ?thesis using assms by (metis not_None_eq not_less)
qed

end
