(* ===== verification/Path.thy ===== *)
theory Path
  imports Ctype
begin

text \<open>
  The textual path functions of \<^verbatim>\<open>path.c\<close>, as compiled for a POSIX system: the only directory separator
  is the slash and there are no drive prefixes. A pointer into a path is the rest of the path; the
  destination of a copy is the string written so far. NULL and a failure status are \<open>None\<close>.
\<close>

abbreviation is_dir_sep :: "char \<Rightarrow> bool" where
  "is_dir_sep c \<equiv> c = CHR ''/''"

abbreviation skip_seps :: "string \<Rightarrow> string" where
  "skip_seps s \<equiv> dropWhile is_dir_sep s"

abbreviation DOT :: char where "DOT \<equiv> CHR ''.''"

definition cleanup_path :: "string \<Rightarrow> string" where
  "cleanup_path path = (if take 2 path = ''./'' then skip_seps (drop 2 path) else path)"

section \<open>normalize_path_copy\<close>

text \<open>
  \<open>up_one\<close> goes back over the last component of \<open>dst\<close>, which ends with a slash; \<open>prefix_len\<close>
  is reduced when that eats into the prefix.
\<close>

definition up_one :: "string \<Rightarrow> string option" where
  "up_one dst =
     (if length dst \<le> 1 then None
      else Some (rev (dropWhile (\<lambda>c. c \<noteq> CHR ''/'') (rev (butlast dst)))))"

text \<open>
  What the code makes of a component that begins with a dot: \<open>Here\<close> is (2), \<open>Parent\<close> is (3) and
  (4), each with the rest of the path; anything else is copied, and (1) skips its dot first.
\<close>

datatype dots = Plain string | Here string | Parent string

definition dot_component :: "string \<Rightarrow> dots" where
  "dot_component src =
     (if peek src = DOT then
        if tl src = [] then Plain (tl src)
        else if is_dir_sep (peek (tl src)) then Here (skip_seps (drop 2 src))
        else if peek (tl src) = DOT then
          if drop 2 src = [] then Parent (drop 2 src)
          else if is_dir_sep (peek (drop 2 src)) then Parent (skip_seps (drop 3 src))
          else Plain src
        else Plain src
      else Plain src)"

lemma skip_seps_length: "length (skip_seps s) \<le> length s"
  by (rule length_dropWhile_le)

lemma dot_component_length:
  "dot_component src = Plain src' \<Longrightarrow> length src' \<le> length src"
  "dot_component src = Here src' \<Longrightarrow> length src' < length src"
  "dot_component src = Parent src' \<Longrightarrow> length src' < length src"
  using skip_seps_length [of "drop 2 src"] skip_seps_length [of "drop 3 src"]
  by (cases src; auto simp: dot_component_def split: if_splits)+

lemma rest_length:
  "dropWhile (\<lambda>c. c \<noteq> CHR ''/'') s \<noteq> [] \<Longrightarrow>
     length (skip_seps (dropWhile (\<lambda>c. c \<noteq> CHR ''/'') s)) < length s"
proof (induction s)
  case (Cons c s)
  then show ?case using skip_seps_length [of s] by (cases "c = CHR ''/''") auto
qed simp

function normalize_loop :: "string \<Rightarrow> string \<Rightarrow> nat \<Rightarrow> (string \<times> nat) option" where
  "normalize_loop dst src prefix_len =
     (case dot_component src of
        Here src \<Rightarrow> normalize_loop dst src prefix_len
      | Parent src \<Rightarrow>
          (case up_one dst of
             None \<Rightarrow> None
           | Some dst \<Rightarrow> normalize_loop dst src (min prefix_len (length dst)))
      | Plain src \<Rightarrow>
          let seg = takeWhile (\<lambda>c. c \<noteq> CHR ''/'') src;
              rest = dropWhile (\<lambda>c. c \<noteq> CHR ''/'') src
          in if rest = [] then Some (dst @ seg, prefix_len)
             else normalize_loop (dst @ seg @ ''/'') (skip_seps rest) prefix_len)"
  by pat_completeness auto
termination
proof (relation "measure (\<lambda>(_, src, _). length src)", goal_cases)
  case (2 dst src prefix_len src' seg rest)
  then show ?case using dot_component_length(1) [of src src'] rest_length [of src'] by auto
qed (auto dest: dot_component_length)

declare normalize_loop.simps [simp del]

definition normalize_path_copy_len :: "string \<Rightarrow> nat \<Rightarrow> (string \<times> nat) option" where
  "normalize_path_copy_len src prefix_len =
     (if is_dir_sep (peek src) then normalize_loop ''/'' (skip_seps src) prefix_len
      else normalize_loop [] src prefix_len)"

definition normalize_path_copy :: "string \<Rightarrow> string option" where
  "normalize_path_copy src = map_option fst (normalize_path_copy_len src 0)"

section \<open>Prefixes and suffixes\<close>

definition longest_ancestor_length :: "string \<Rightarrow> string list \<Rightarrow> int" where
  "longest_ancestor_length path prefixes =
     (if path = ''/'' then -1
      else foldl (\<lambda>max_len ceil.
             let len = length ceil in
             if len = 1 \<and> ceil = ''/'' then (if 0 > max_len then 0 else max_len)
             else if take len path = ceil \<and> peek (drop len path) = CHR ''/'' then
               (if int len > max_len then int len else max_len)
             else max_len) (-1) prefixes)"

definition chomp_trailing_dir_sep :: "string \<Rightarrow> string" where
  "chomp_trailing_dir_sep path = rev (skip_seps (rev path))"

text \<open>The loop of \<open>strip_path_suffix\<close>, over the part of each string that is left.\<close>

function strip_suffix_loop :: "string \<Rightarrow> string \<Rightarrow> string option" where
  "strip_suffix_loop path suffix =
     (if suffix = [] then Some path
      else if path = [] then None
      else if is_dir_sep (last path) then
        if \<not> is_dir_sep (last suffix) then None
        else strip_suffix_loop (chomp_trailing_dir_sep path) (chomp_trailing_dir_sep suffix)
      else if last path \<noteq> last suffix then None
      else strip_suffix_loop (butlast path) (butlast suffix))"
  by pat_completeness auto
termination
proof (relation "measure (length \<circ> snd)", goal_cases)
  case (2 path suffix)
  then show ?case
    using skip_seps_length [of "rev (butlast suffix)"]
    by (cases suffix rule: rev_cases) (auto simp: chomp_trailing_dir_sep_def less_Suc_eq_le)
qed auto

declare strip_suffix_loop.simps [simp del]

definition strip_path_suffix :: "string \<Rightarrow> string \<Rightarrow> string option" where
  "strip_path_suffix path suffix =
     (case strip_suffix_loop path suffix of
        None \<Rightarrow> None
      | Some path \<Rightarrow>
          if path \<noteq> [] \<and> \<not> is_dir_sep (last path) then None
          else Some (chomp_trailing_dir_sep path))"

section \<open>Aliases\<close>

text \<open>The loop of \<open>daemon_avoid_alias\<close>: \<open>True\<close> is the return value 0.\<close>

fun avoid_alias_loop :: "bool \<Rightarrow> nat \<Rightarrow> string \<Rightarrow> bool" where
  "avoid_alias_loop sl ndot [] = (if sl then \<not> (0 < ndot \<and> ndot < 3) else True)"
| "avoid_alias_loop sl ndot (ch # p) =
     (if sl then
        if ch = DOT then avoid_alias_loop sl (ndot + 1) p
        else if ch = CHR ''/'' then (if ndot < 3 then False else avoid_alias_loop sl 0 p)
        else avoid_alias_loop False 0 p
      else if ch = CHR ''/'' then avoid_alias_loop True 0 p
      else avoid_alias_loop sl ndot p)"

definition daemon_avoid_alias :: "string \<Rightarrow> bool" where
  "daemon_avoid_alias p \<longleftrightarrow>
     (peek p = CHR ''/'' \<or> peek p = CHR ''~'') \<and> avoid_alias_loop True 0 (tl p)"

section \<open>Relative paths\<close>

text \<open>Without drive prefixes \<open>have_same_root\<close> compares whether the paths are absolute.\<close>

definition is_absolute_path :: "string \<Rightarrow> bool" where
  "is_absolute_path path \<longleftrightarrow> is_dir_sep (peek path)"

definition have_same_root :: "string \<Rightarrow> string \<Rightarrow> bool" where
  "have_same_root path1 path2 \<longleftrightarrow>
     (let is_abs1 = is_absolute_path path1; is_abs2 = is_absolute_path path2 in
      (is_abs1 \<and> is_abs2 \<and> tolower (peek path1) = tolower (peek path2)) \<or> (\<not> is_abs1 \<and> \<not> is_abs2))"

text \<open>\<open>while (is_dir_sep(s[i])) i++\<close>\<close>

definition skip_at :: "string \<Rightarrow> nat \<Rightarrow> nat" where
  "skip_at s i = i + length (takeWhile is_dir_sep (drop i s))"

lemma skip_at_progress: "i < length s \<Longrightarrow> is_dir_sep (s ! i) \<Longrightarrow> i < skip_at s i"
  by (simp add: skip_at_def flip: Cons_nth_drop_Suc)

function common_loop ::
  "string \<Rightarrow> string \<Rightarrow> nat \<Rightarrow> nat \<Rightarrow> nat \<Rightarrow> nat \<Rightarrow> nat \<times> nat \<times> nat \<times> nat" where
  "common_loop prefix inp i j prefix_off in_off =
     (if i < length prefix \<and> j < length inp \<and> prefix ! i = inp ! j then
        if is_dir_sep (prefix ! i) then
          let i = skip_at prefix i; j = skip_at inp j in common_loop prefix inp i j i j
        else common_loop prefix inp (i + 1) (j + 1) prefix_off in_off
      else (i, j, prefix_off, in_off))"
  by pat_completeness auto
termination
  by (relation "measure (\<lambda>(prefix, _, i, _). length prefix - i)")
     (auto intro!: diff_less_mono2 skip_at_progress)

declare common_loop.simps [simp del]

fun leading_dots :: "string \<Rightarrow> bool \<Rightarrow> string" where
  "leading_dots [] in_run = []"
| "leading_dots (c # prefix) in_run =
     (if is_dir_sep c then (if in_run then [] else ''../'') @ leading_dots prefix True
      else leading_dots prefix False)"

definition relative_path :: "string \<Rightarrow> string \<Rightarrow> string" where
  "relative_path inp prefix =
     (let in_len = length inp; prefix_len = length prefix in
      if in_len = 0 then ''./''
      else if prefix_len = 0 then inp
      else if \<not> have_same_root inp prefix then inp
      else
        let (i, j, prefix_off, in_off) = common_loop prefix inp 0 0 0 0;
            (i, in_off) =
              (if i \<ge> prefix_len \<and> prefix_off < prefix_len then
                 if j \<ge> in_len then (i, in_len)
                 else if is_dir_sep (inp ! j) then (i, skip_at inp j)
                 else (prefix_off, in_off)
               else if j \<ge> in_len \<and> in_off < in_len \<and> is_dir_sep (peek (drop i prefix)) then
                 (skip_at prefix i, in_len)
               else (i, in_off));
            inp = drop in_off inp
        in if i \<ge> prefix_len then (if inp = [] then ''./'' else inp)
           else leading_dots (drop i prefix) False @
                (if \<not> is_dir_sep (prefix ! (prefix_len - 1)) then ''../'' else []) @ inp)"

text \<open>The loop of \<open>remove_leading_path\<close>: \<open>None\<close> is returning \<open>in\<close> as it is.\<close>

function remove_loop :: "string \<Rightarrow> string \<Rightarrow> string option" where
  "remove_loop [] inp = Some inp"
| "remove_loop (c # prefix) inp =
     (if is_dir_sep c then
        if \<not> is_dir_sep (peek inp) then None
        else remove_loop (skip_seps prefix) (skip_seps inp)
      else if peek inp \<noteq> c then None
      else remove_loop prefix (tl inp))"
  by pat_completeness auto
termination
  by (relation "measure (length \<circ> fst)") (auto simp: le_imp_less_Suc skip_seps_length)

definition remove_leading_path :: "string \<Rightarrow> string \<Rightarrow> string" where
  "remove_leading_path inp prefix =
     (if prefix = [] then inp
      else case remove_loop prefix inp of
        None \<Rightarrow> inp
      | Some rest \<Rightarrow>
          if rest \<noteq> [] \<and> \<not> is_dir_sep (last prefix) \<and> \<not> is_dir_sep (peek rest) then inp
          else let rest = skip_seps rest in if rest = [] then ''.'' else rest)"

section \<open>Normalization against a reference\<close>

text \<open>
  The reference works on the list of components: empty ones and dots are dropped, a double dot takes
  the component before it away, and what follows the last slash stays without a slash.
\<close>

fun split_slash :: "string \<Rightarrow> string list" where
  "split_slash [] = [[]]"
| "split_slash (c # s) =
     (if c = CHR ''/'' then [] # split_slash s
      else case split_slash s of [] \<Rightarrow> [[c]] | d # ds \<Rightarrow> (c # d) # ds)"

fun normalize_components :: "string list \<Rightarrow> string list \<Rightarrow> (string list \<times> string) option" where
  "normalize_components dirs [] = Some (dirs, [])"
| "normalize_components dirs [s] =
     (if s = [] \<or> s = ''.'' then Some (dirs, [])
      else if s = ''..'' then (if dirs = [] then None else Some (butlast dirs, []))
      else Some (dirs, s))"
| "normalize_components dirs (s # t # ss) =
     (if s = [] \<or> s = ''.'' then normalize_components dirs (t # ss)
      else if s = ''..'' then (if dirs = [] then None else normalize_components (butlast dirs) (t # ss))
      else normalize_components (dirs @ [s]) (t # ss))"

abbreviation dirs_path :: "string list \<Rightarrow> string" where
  "dirs_path dirs \<equiv> concat (map (\<lambda>d. d @ ''/'') dirs)"

definition normalize_spec :: "string \<Rightarrow> string option" where
  "normalize_spec src =
     map_option (\<lambda>(dirs, base). (if peek src = CHR ''/'' then ''/'' else []) @ dirs_path dirs @ base)
       (normalize_components [] (split_slash src))"

definition dir_name :: "string \<Rightarrow> bool" where
  "dir_name d \<longleftrightarrow> d \<noteq> [] \<and> CHR ''/'' \<notin> set d"

lemma list_all_butlast: "list_all P xs \<Longrightarrow> list_all P (butlast xs)"
  by (auto simp: list_all_iff dest: in_set_butlastD)

lemma split_slash_not_Nil [simp]: "split_slash s \<noteq> []"
  by (induction s) (auto split: list.splits)

lemma split_slash_seg: "CHR ''/'' \<notin> set d \<Longrightarrow> split_slash (d @ CHR ''/'' # s) = d # split_slash s"
  by (induction d) auto

lemma split_slash_last: "CHR ''/'' \<notin> set d \<Longrightarrow> split_slash d = [d]"
  by (induction d) auto

lemma split_slash_unfold:
  "split_slash s = takeWhile (\<lambda>c. c \<noteq> CHR ''/'') s #
     (if dropWhile (\<lambda>c. c \<noteq> CHR ''/'') s = [] then []
      else split_slash (tl (dropWhile (\<lambda>c. c \<noteq> CHR ''/'') s)))"
  by (induction s) auto

lemma normalize_components_skip:
  "ss \<noteq> [] \<Longrightarrow> normalize_components dirs ([] # ss) = normalize_components dirs ss"
  "ss \<noteq> [] \<Longrightarrow> normalize_components dirs (''.'' # ss) = normalize_components dirs ss"
  "ss \<noteq> [] \<Longrightarrow> normalize_components dirs (''..'' # ss) =
     (if dirs = [] then None else normalize_components (butlast dirs) ss)"
  "ss \<noteq> [] \<Longrightarrow> s \<noteq> [] \<Longrightarrow> s \<noteq> ''.'' \<Longrightarrow> s \<noteq> ''..'' \<Longrightarrow>
     normalize_components dirs (s # ss) = normalize_components (dirs @ [s]) ss"
  by (cases ss; simp)+

lemma normalize_components_seps:
  "normalize_components dirs (split_slash (skip_seps s)) = normalize_components dirs (split_slash s)"
  by (induction s) (auto simp: normalize_components_skip)

lemma up_one_root: "up_one [] = None" "up_one ''/'' = None"
  by (simp_all add: up_one_def)

lemma up_one_dirs:
  assumes "list_all dir_name dirs" and "root \<in> {[], ''/''}"
  shows "up_one (root @ dirs_path dirs) = (if dirs = [] then None else Some (root @ dirs_path (butlast dirs)))"
proof (cases dirs rule: rev_cases)
  case Nil
  then show ?thesis using assms(2) by (auto simp: up_one_def)
next
  case (snoc ds d)
  let ?front = "root @ dirs_path ds"
  have d: "d \<noteq> []" "CHR ''/'' \<notin> set d" using assms(1) snoc by (auto simp: dir_name_def)
  have "?front = [] \<or> last ?front = CHR ''/''"
    using assms(2) by (cases ds rule: rev_cases) auto
  then have front: "dropWhile (\<lambda>c. c \<noteq> CHR ''/'') (rev ?front) = rev ?front"
    by (cases ?front rule: rev_cases) auto
  have "dropWhile (\<lambda>c. c \<noteq> CHR ''/'') (rev d @ rev ?front) = dropWhile (\<lambda>c. c \<noteq> CHR ''/'') (rev ?front)"
    using d(2) by (subst dropWhile_append2) auto
  moreover have "root @ dirs_path dirs = ?front @ d @ ''/''" using snoc by simp
  ultimately show ?thesis
    using d(1) snoc front by (simp add: up_one_def butlast_append length_Suc_conv)
qed

text \<open>The classes of \<open>dot_component\<close>.\<close>

lemma dot_component_cases:
  obtains (lone) "src = ''.''" "dot_component src = Plain []"
  | (here) s where "src = ''./'' @ s" "dot_component src = Here (skip_seps s)"
  | (lone_parent) "src = ''..''" "dot_component src = Parent []"
  | (parent) s where "src = ''../'' @ s" "dot_component src = Parent (skip_seps s)"
  | (plain) "dot_component src = Plain src" "takeWhile (\<lambda>c. c \<noteq> CHR ''/'') src \<notin> {''.'', ''..''}"
proof (cases "takeWhile (\<lambda>c. c \<noteq> CHR ''/'') src \<in> {''.'', ''..''}")
  case True
  define seg where "seg = takeWhile (\<lambda>c. c \<noteq> CHR ''/'') src"
  define rest where "rest = dropWhile (\<lambda>c. c \<noteq> CHR ''/'') src"
  have src: "src = seg @ rest" by (simp add: seg_def rest_def)
  have "rest = [] \<or> (\<exists>s. rest = CHR ''/'' # s)"
    by (cases rest) (auto simp: rest_def dest: arg_cong [of _ _ "\<lambda>s. hd s"] simp: dropWhile_eq_Cons_conv)
  with True that src show thesis by (fold seg_def) (auto simp: dot_component_def)
next
  case False
  have "dot_component src = Plain src"
  proof (cases src)
    case (Cons c s)
    then show ?thesis using False by (cases s; cases "tl s") (auto simp: dot_component_def split: if_splits)
  qed (simp add: dot_component_def)
  with False that show thesis by blast
qed

lemma peek_skip_seps: "peek (skip_seps s) \<noteq> CHR ''/''"
  by (induction s) auto

lemma normalize_loop_spec:
  assumes "root \<in> {[], ''/''}"
  shows "list_all dir_name dirs \<Longrightarrow> peek src \<noteq> CHR ''/'' \<Longrightarrow>
    map_option fst (normalize_loop (root @ dirs_path dirs) src n) =
      map_option (\<lambda>(dirs, base). root @ dirs_path dirs @ base) (normalize_components dirs (split_slash src))"
proof (induction "length src" arbitrary: src dirs n rule: less_induct)
  case less
  show ?case
  proof (cases src rule: dot_component_cases)
    case lone
    then show ?thesis by (subst normalize_loop.simps) simp
  next
    case (here s)
    then have "length (skip_seps s) < length src" using skip_seps_length [of s] by simp
    from less.hyps [OF this less.prems(1) peek_skip_seps] here show ?thesis
      by (subst normalize_loop.simps) (simp add: normalize_components_skip normalize_components_seps)
  next
    case lone_parent
    have "list_all dir_name (butlast dirs)" using less.prems(1) by (rule list_all_butlast)
    with less.hyps [of "[]"] lone_parent up_one_dirs [OF less.prems(1) assms] show ?thesis
      by (subst normalize_loop.simps) (auto split: option.splits)
  next
    case (parent s)
    then have len: "length (skip_seps s) < length src" using skip_seps_length [of s] by simp
    have "list_all dir_name (butlast dirs)" using less.prems(1) by (rule list_all_butlast)
    from less.hyps [OF len this peek_skip_seps] parent up_one_dirs [OF less.prems(1) assms] show ?thesis
      by (subst normalize_loop.simps) (auto simp: normalize_components_skip normalize_components_seps)
  next
    case plain
    define seg where "seg = takeWhile (\<lambda>c. c \<noteq> CHR ''/'') src"
    define rest where "rest = dropWhile (\<lambda>c. c \<noteq> CHR ''/'') src"
    show ?thesis
    proof (cases rest)
      case Nil
      then have "split_slash src = [seg]" using split_slash_unfold [of src] by (simp add: seg_def rest_def)
      with Nil plain show ?thesis
        by (subst normalize_loop.simps) (auto simp: Let_def simp flip: seg_def rest_def)
    next
      case (Cons c s)
      have src: "src = seg @ rest" by (simp add: seg_def rest_def)
      have c: "c = CHR ''/''" using Cons by (simp add: rest_def dropWhile_eq_Cons_conv)
      have ne: "seg \<noteq> []" using less.prems(2) src Cons c by auto
      have "CHR ''/'' \<notin> set seg" unfolding seg_def by (metis (mono_tags, lifting) set_takeWhileD)
      with ne have dir: "list_all dir_name (dirs @ [seg])" using less.prems(1) by (simp add: dir_name_def)
      have "length (skip_seps rest) < length src" using skip_seps_length [of s] src Cons c by simp
      from less.hyps [OF this dir peek_skip_seps, of n]
      have "map_option fst (normalize_loop (root @ dirs_path dirs @ seg @ ''/'') (skip_seps rest) n) =
        map_option (\<lambda>(dirs, base). root @ dirs_path dirs @ base) (normalize_components (dirs @ [seg]) (split_slash s))"
        using Cons c by (simp add: normalize_components_seps)
      moreover have "normalize_components dirs (split_slash src) = normalize_components (dirs @ [seg]) (split_slash s)"
        using split_slash_unfold [of src] Cons ne plain(2) unfolding seg_def [symmetric] rest_def [symmetric]
        by (simp add: normalize_components_skip)
      moreover have "normalize_loop (root @ dirs_path dirs) src n =
          normalize_loop (root @ dirs_path dirs @ seg @ ''/'') (skip_seps rest) n"
        using plain(1) Cons by (subst normalize_loop.simps) (simp add: Let_def flip: seg_def rest_def)
      ultimately show ?thesis by simp
    qed
  qed
qed

lemma normalize_path_eq: "normalize_path_copy src = normalize_spec src"
proof (cases "peek src = CHR ''/''")
  case True
  then show ?thesis
    using normalize_loop_spec [of "''/''" "[]" "skip_seps src" 0] peek_skip_seps [of src]
    by (simp add: normalize_path_copy_def normalize_path_copy_len_def normalize_spec_def normalize_components_seps
        option.map_comp comp_def case_prod_unfold)
next
  case False
  then show ?thesis
    using normalize_loop_spec [of "[]" "[]" src 0]
    by (simp add: normalize_path_copy_def normalize_path_copy_len_def normalize_spec_def case_prod_unfold)
qed

text \<open>
  C14. \<^verbatim>\<open>normalize_path_copy\<close> computes the reference on every path: it fails exactly when a
  double dot has no component before it, and otherwise writes the remaining components, each with one
  slash behind it, and what followed the last slash.
\<close>

theorem normalize_path_spec: "normalize_path_copy src = normalize_spec src"
  by (rule normalize_path_eq)

text \<open>A normalized path is left alone.\<close>

definition plain_name :: "string \<Rightarrow> bool" where
  "plain_name d \<longleftrightarrow> dir_name d \<and> d \<noteq> ''.'' \<and> d \<noteq> ''..''"

lemma plain_nameI: "CHR ''/'' \<notin> set s \<Longrightarrow> s \<noteq> [] \<Longrightarrow> s \<noteq> ''.'' \<Longrightarrow> s \<noteq> ''..'' \<Longrightarrow> plain_name s"
  by (simp add: plain_name_def dir_name_def)

lemma normalize_components_plain:
  "normalize_components dirs ss = Some (dirs', base) \<Longrightarrow> list_all plain_name dirs \<Longrightarrow>
   \<forall>s \<in> set ss. CHR ''/'' \<notin> set s \<Longrightarrow> list_all plain_name dirs' \<and> (base = [] \<or> plain_name base)"
  by (induction dirs ss rule: normalize_components.induct)
     (auto split: if_splits intro: plain_nameI list_all_butlast)

lemma split_slash_dirs:
  "list_all dir_name dirs \<Longrightarrow> base = [] \<or> dir_name base \<Longrightarrow> split_slash (dirs_path dirs @ base) = dirs @ [base]"
  by (induction dirs) (auto simp: dir_name_def split_slash_seg split_slash_last)

lemma normalize_components_fixed:
  "list_all plain_name ds \<Longrightarrow> base = [] \<or> plain_name base \<Longrightarrow>
     normalize_components dirs (ds @ [base]) = Some (dirs @ ds, base)"
  by (induction ds arbitrary: dirs) (auto simp: plain_name_def dir_name_def normalize_components_skip)

lemma split_slash_no_slash: "s \<in> set (split_slash p) \<Longrightarrow> CHR ''/'' \<notin> set s"
proof (induction p arbitrary: s)
  case (Cons c p)
  then show ?case by (cases "split_slash p") (auto split: if_splits)
qed simp

lemma normalized_form:
  assumes "normalize_path_copy src = Some dst"
  shows "normalize_path_copy dst = Some dst \<and>
    (\<exists>dirs base. dst = (if peek src = CHR ''/'' then ''/'' else []) @ dirs_path dirs @ base \<and>
      list_all plain_name dirs \<and> (base = [] \<or> plain_name base))"
proof -
  let ?root = "if peek src = CHR ''/'' then ''/'' else []"
  from assms obtain dirs base where nc: "normalize_components [] (split_slash src) = Some (dirs, base)"
    and dst: "dst = ?root @ dirs_path dirs @ base"
    unfolding normalize_path_eq normalize_spec_def by auto
  have plain: "list_all plain_name dirs" "base = [] \<or> plain_name base"
    using normalize_components_plain [OF nc] split_slash_no_slash by auto
  have names: "list_all dir_name dirs" "base = [] \<or> dir_name base"
    using plain by (auto simp: plain_name_def list_all_iff)
  have fixed: "normalize_components [] (split_slash (dirs_path dirs @ base)) = Some (dirs, base)"
    using split_slash_dirs [OF names] normalize_components_fixed [OF plain, of "[]"] by simp
  have "peek (dirs_path dirs @ base) \<noteq> CHR ''/''"
    using names by (cases dirs; cases base) (auto simp: dir_name_def neq_Nil_conv)
  with fixed have "normalize_spec dst = Some dst"
    by (auto simp: normalize_spec_def dst normalize_components_skip)
  with plain dst show ?thesis unfolding normalize_path_eq by blast
qed

text \<open>
  Lemma normalize_path_idempotent. Normalizing twice is normalizing once, and the result has no empty component,
  no dot and no double dot in it: it is an optional slash, directory names with a slash each, and a last name
  that may be missing.
\<close>

theorem normalize_path_idempotent:
  assumes "normalize_path_copy src = Some dst"
  shows "normalize_path_copy dst = Some dst \<and>
    (\<exists>dirs base. dst = (if peek src = CHR ''/'' then ''/'' else []) @ dirs_path dirs @ base \<and>
      list_all plain_name dirs \<and> (base = [] \<or> plain_name base))"
  using assms by (rule normalized_form)

theorem normalize_path_idempotent_witness: "normalize_path_copy ''/a/c/'' = Some ''/a/c/''"
proof -
  have "normalize_path_copy ''//a/./b/../c//'' = Some ''/a/c/''" by code_simp
  from normalize_path_idempotent [OF this] show ?thesis by blast
qed

section \<open>Aliases, suffixes, ancestors\<close>

fun no_dots :: "string list \<Rightarrow> bool" where
  "no_dots [] = True"
| "no_dots [s] = (s \<noteq> ''.'' \<and> s \<noteq> ''..'')"
| "no_dots (s # t # ss) = (s \<noteq> [] \<and> s \<noteq> ''.'' \<and> s \<noteq> ''..'' \<and> no_dots (t # ss))"

lemma no_dots_Cons:
  "ss \<noteq> [] \<Longrightarrow> no_dots (s # ss) = (s \<noteq> [] \<and> s \<noteq> ''.'' \<and> s \<noteq> ''..'' \<and> no_dots ss)"
  by (cases ss) auto

lemma replicate_dots:
  "replicate n DOT = [] \<longleftrightarrow> n = 0" "replicate n DOT = ''.'' \<longleftrightarrow> n = 1" "replicate n DOT = ''..'' \<longleftrightarrow> n = 2"
  by (auto simp: replicate_eq_replicate [of _ _ 1, simplified] dest: arg_cong [of _ _ length])
     (simp add: numeral_2_eq_2)

lemma avoid_alias_loop_spec:
  "avoid_alias_loop True n p = no_dots ((replicate n DOT @ hd (split_slash p)) # tl (split_slash p)) \<and>
   avoid_alias_loop False m p = no_dots (tl (split_slash p))"
proof (induction p arbitrary: n m)
  case Nil
  then show ?case by (simp add: replicate_dots) presburger
next
  case (Cons c p)
  obtain d ds where split: "split_slash p = d # ds" by (cases "split_slash p") auto
  have dots: "replicate n DOT @ DOT # d = replicate (Suc n) DOT @ d" by (simp add: replicate_app_Cons_same)
  have slash: "no_dots (replicate n DOT # d # ds) \<longleftrightarrow> 3 \<le> n \<and> no_dots (d # ds)"
    by (auto simp: replicate_dots)
  have other: "no_dots ((replicate n DOT @ c # d) # ds) = no_dots ds" if "c \<noteq> DOT" "c \<noteq> CHR ''/''"
  proof -
    have "c \<in> set (replicate n DOT @ c # d)" by simp
    then have "replicate n DOT @ c # d \<noteq> ''.''" "replicate n DOT @ c # d \<noteq> ''..''"
      using that(1) by (metis empty_iff empty_set set_ConsD)+
    then show ?thesis by (cases ds) auto
  qed
  consider "c = DOT" | "c = CHR ''/''" | "c \<noteq> DOT" "c \<noteq> CHR ''/''" by blast
  then show ?case
  proof cases
    case 1
    have "avoid_alias_loop True (Suc n) p = no_dots ((replicate (Suc n) DOT @ d) # ds)"
      "avoid_alias_loop False m p = no_dots ds"
      using Cons.IH [of "Suc n" m] unfolding split list.sel by blast+
    then show ?thesis using 1 split unfolding dots [symmetric] by simp
  next
    case 2
    then show ?thesis using Cons.IH [of 0 0] split slash by simp
  next
    case 3
    then show ?thesis using Cons.IH [of 0 0] Cons.IH [of 0 m] split other by simp
  qed
qed

text \<open>
  C31. \<^verbatim>\<open>daemon_avoid_alias\<close> accepts a path exactly when it starts with a slash or a
  tilde and, behind that character, has no empty component before the last and no dot or double dot component.
\<close>

theorem daemon_avoid_alias_spec:
  "daemon_avoid_alias p \<longleftrightarrow>
     (\<exists>c q. p = c # q \<and> (c = CHR ''/'' \<or> c = CHR ''~'') \<and>
        (let ss = split_slash q in
         list_all (\<lambda>s. s \<noteq> []) (butlast ss) \<and> list_all (\<lambda>s. s \<noteq> ''.'' \<and> s \<noteq> ''..'') ss))"
proof -
  have "no_dots ss \<longleftrightarrow> list_all (\<lambda>s. s \<noteq> []) (butlast ss) \<and> list_all (\<lambda>s. s \<noteq> ''.'' \<and> s \<noteq> ''..'') ss"
    for ss by (induction ss rule: no_dots.induct) auto
  moreover have "hd (split_slash q) # tl (split_slash q) = split_slash q" for q by simp
  ultimately show ?thesis
    using avoid_alias_loop_spec [of 0] by (cases p) (auto simp: daemon_avoid_alias_def Let_def)
qed

text \<open>The components of a path, from left to right; \<open>acc\<close> is the one being read.\<close>

fun components_from :: "string \<Rightarrow> string \<Rightarrow> string list" where
  "components_from acc [] = (if acc = [] then [] else [acc])"
| "components_from acc (c # s) =
     (if c = CHR ''/'' then (if acc = [] then [] else [acc]) @ components_from [] s
      else components_from (acc @ [c]) s)"

abbreviation components :: "string \<Rightarrow> string list" where
  "components \<equiv> components_from []"

lemma components_cong:
  "(\<And>acc. components_from acc u = components_from acc v) \<Longrightarrow> components_from acc (x @ u) = components_from acc (x @ v)"
  by (induction x arbitrary: acc) auto

lemma components_slashes:
  "0 < n \<Longrightarrow> components_from acc (replicate n (CHR ''/'') @ s) = components_from acc (CHR ''/'' # s)"
proof (induction n arbitrary: acc)
  case (Suc n)
  then show ?case by (cases n) auto
qed simp

lemma components_append:
  "r = [] \<and> acc = [] \<or> r \<noteq> [] \<and> last r = CHR ''/'' \<Longrightarrow>
     components_from acc (r @ p) = components_from acc r @ components p"
proof (induction r arbitrary: acc)
  case (Cons c r)
  then show ?case by (cases "r = []") auto
qed simp

text \<open>Two paths that differ only in how many slashes stand in each place.\<close>

inductive same_path :: "string \<Rightarrow> string \<Rightarrow> bool" where
  same_Nil: "same_path [] []"
| same_char: "same_path a b \<Longrightarrow> same_path (a @ [c]) (b @ [c])"
| same_seps: "same_path a b \<Longrightarrow> 0 < n \<Longrightarrow> 0 < m \<Longrightarrow>
    same_path (a @ replicate n (CHR ''/'')) (b @ replicate m (CHR ''/''))"

lemma same_path_components: "same_path a b \<Longrightarrow> components_from acc (a @ s) = components_from acc (b @ s)"
proof (induction arbitrary: s acc rule: same_path.induct)
  case (same_seps a b n m)
  have "components_from acc (x @ replicate n (CHR ''/'') @ s) = components_from acc (x @ CHR ''/'' # s)"
    if "0 < n" for n x acc by (rule components_cong) (rule components_slashes [OF that])
  with same_seps show ?case by simp
qed auto

lemma chomp_split:
  "path \<noteq> [] \<Longrightarrow> is_dir_sep (last path) \<Longrightarrow>
     \<exists>n > 0. path = chomp_trailing_dir_sep path @ replicate n (CHR ''/'')"
proof -
  assume "path \<noteq> []" and sep: "is_dir_sep (last path)"
  let ?run = "takeWhile is_dir_sep (rev path)"
  have "rev path = ?run @ skip_seps (rev path)" by simp
  then have "path = chomp_trailing_dir_sep path @ rev ?run"
    unfolding chomp_trailing_dir_sep_def by (metis rev_append rev_rev_ident)
  moreover have "\<forall>c \<in> set (rev ?run). c = CHR ''/''" by (auto dest: set_takeWhileD)
  then have "rev ?run = replicate (length ?run) (CHR ''/'')"
    by (metis length_rev replicate_length_same)
  moreover have "0 < length ?run" using \<open>path \<noteq> []\<close> sep by (cases path rule: rev_cases) auto
  ultimately show ?thesis by metis
qed

lemma strip_suffix_loop_sound:
  "strip_suffix_loop path suffix = Some r \<Longrightarrow> \<exists>p. path = r @ p \<and> same_path p suffix"
proof (induction path suffix rule: strip_suffix_loop.induct)
  case (1 path suffix)
  show ?case
  proof (cases "suffix = [] \<or> path = []")
    case True
    with "1.prems" show ?thesis by (subst (asm) strip_suffix_loop.simps) (auto intro: same_Nil split: if_splits)
  next
    case False
    show ?thesis
    proof (cases "is_dir_sep (last path)")
      case True
      then have sep: "is_dir_sep (last suffix)"
        and go: "strip_suffix_loop (chomp_trailing_dir_sep path) (chomp_trailing_dir_sep suffix) = Some r"
        using False "1.prems" by (simp_all add: strip_suffix_loop.simps [of path suffix] split: if_splits)
      then obtain p where p: "chomp_trailing_dir_sep path = r @ p" "same_path p (chomp_trailing_dir_sep suffix)"
        using "1.IH"(1) False True by blast
      obtain n m where nm: "0 < n" "path = chomp_trailing_dir_sep path @ replicate n (CHR ''/'')"
        "0 < m" "suffix = chomp_trailing_dir_sep suffix @ replicate m (CHR ''/'')"
        using chomp_split False True sep by metis
      have "path = r @ p @ replicate n (CHR ''/'')" using nm(2) p(1) by (metis append_assoc)
      moreover have "same_path (p @ replicate n (CHR ''/'')) suffix"
        using same_seps [OF p(2) nm(1,3)] nm(4) by metis
      ultimately show ?thesis by blast
    next
      case no: False
      then have eq: "last path = last suffix" and go: "strip_suffix_loop (butlast path) (butlast suffix) = Some r"
        using False "1.prems" by (simp_all add: strip_suffix_loop.simps [of path suffix] split: if_splits)
      then obtain p where p: "butlast path = r @ p" "same_path p (butlast suffix)"
        using "1.IH"(2) False no by blast
      have "path = r @ p @ [last path]" using False p(1) by (metis append_assoc append_butlast_last_id)
      moreover have "same_path (p @ [last path]) suffix"
        using same_char [OF p(2), of "last suffix"] eq False by simp
      ultimately show ?thesis by blast
    qed
  qed
qed

text \<open>
  Lemma strip_path_suffix_sound. When \<^verbatim>\<open>strip_path_suffix\<close> returns a path, the components of the argument
  are those of the result followed by those of the suffix: only whole components are taken off. The result does
  not end with a slash.
\<close>

theorem strip_path_suffix_sound:
  assumes "strip_path_suffix path suffix = Some p"
  shows "components path = components p @ components suffix \<and> (p \<noteq> [] \<longrightarrow> last p \<noteq> CHR ''/'')"
proof
  from assms obtain r where loop: "strip_suffix_loop path suffix = Some r"
    and r: "r = [] \<or> is_dir_sep (last r)" and p: "p = chomp_trailing_dir_sep r"
    by (auto simp: strip_path_suffix_def split: option.splits if_splits)
  from strip_suffix_loop_sound [OF loop] obtain q where q: "path = r @ q" "same_path q suffix" by blast
  have "components path = components r @ components q"
    unfolding q(1) by (rule components_append) (use r in auto)
  moreover have "components q = components suffix" using same_path_components [OF q(2), of "[]" "[]"] by simp
  moreover have "components r = components p"
  proof (cases "r = []")
    case False
    then obtain n where n: "0 < n" "r = p @ replicate n (CHR ''/'')" using r chomp_split p by auto
    have "components_from acc (p @ replicate n (CHR ''/'') @ []) = components_from acc (p @ [])" for acc
      by (rule components_cong) (simp add: components_slashes [OF n(1), of _ "[]", simplified])
    then show ?thesis using n(2) by simp
  qed (simp add: p chomp_trailing_dir_sep_def)
  ultimately show "components path = components p @ components suffix" by simp
  show "p \<noteq> [] \<longrightarrow> last p \<noteq> CHR ''/''"
    unfolding p chomp_trailing_dir_sep_def
    using hd_dropWhile [of is_dir_sep "rev r"] by (cases "skip_seps (rev r) = []") (simp_all add: last_rev)
qed

theorem strip_path_suffix_sound_witness:
  "components ''/usr/libexec//git-core'' = components ''/usr'' @ components ''libexec/git-core''"
proof -
  have "strip_path_suffix ''/usr/libexec//git-core'' ''libexec/git-core'' = Some ''/usr''"
    by (simp add: strip_path_suffix_def strip_suffix_loop.simps chomp_trailing_dir_sep_def)
  from strip_path_suffix_sound [OF this] show ?thesis by blast
qed

section \<open>Paths inside of a prefix\<close>

lemma skip_at_inside:
  assumes "i < length prefix" and "\<not> is_dir_sep (last prefix)"
  shows "skip_at (prefix @ s) i = skip_at prefix i" and "skip_at prefix i < length prefix"
proof -
  have mem: "last prefix \<in> set (drop i prefix)" using assms(1) by (metis drop_eq_Nil last_drop last_in_set not_le)
  then have "takeWhile is_dir_sep (drop i prefix @ s) = takeWhile is_dir_sep (drop i prefix)"
    using assms(2) by (rule takeWhile_append1)
  then show "skip_at (prefix @ s) i = skip_at prefix i" using assms(1) by (simp add: skip_at_def)
  have "length (takeWhile is_dir_sep (drop i prefix)) \<noteq> length (drop i prefix)"
    using mem assms(2) by (metis set_takeWhileD takeWhile_eq_take take_all_iff le_refl)
  then have "length (takeWhile is_dir_sep (drop i prefix)) < length (drop i prefix)"
    using length_takeWhile_le [of is_dir_sep "drop i prefix"] by linarith
  then show "skip_at prefix i < length prefix" by (simp add: skip_at_def)
qed

lemma common_loop_inside:
  assumes "\<not> is_dir_sep (last prefix)"
  shows "i \<le> length prefix \<Longrightarrow> prefix_off < length prefix \<Longrightarrow>
    \<exists>prefix_off' in_off'. common_loop prefix (prefix @ CHR ''/'' # rest) i i prefix_off in_off =
      (length prefix, length prefix, prefix_off', in_off') \<and> prefix_off' < length prefix"
proof (induction "length prefix - i" arbitrary: i prefix_off in_off rule: less_induct)
  case less
  let ?inp = "prefix @ CHR ''/'' # rest"
  show ?case
  proof (cases "i < length prefix")
    case True
    note skip = skip_at_inside(1) [OF True assms, of "CHR ''/'' # rest"] skip_at_inside(2) [OF True assms]
    have same: "?inp ! i = prefix ! i" using True by (simp add: nth_append)
    show ?thesis
    proof (cases "is_dir_sep (prefix ! i)")
      case sep: True
      have "length prefix - skip_at prefix i < length prefix - i"
        using skip_at_progress [OF True sep] True by (simp add: diff_less_mono2)
      from less.hyps [OF this, of "skip_at prefix i" "skip_at prefix i"] skip True sep same show ?thesis
        by (subst common_loop.simps) (simp add: Let_def)
    next
      case False
      then show ?thesis
        using less.hyps [of "i + 1" prefix_off in_off] less.prems True same
        by (subst common_loop.simps) simp
    qed
  next
    case False
    then show ?thesis using less.prems by (subst common_loop.simps) auto
  qed
qed

lemma skip_at_drop: "drop (skip_at s i) s = skip_seps (drop i s)"
  by (simp add: skip_at_def dropWhile_eq_drop add.commute)

lemma remove_loop_inside: "remove_loop prefix (prefix @ s) = Some (if prefix \<noteq> [] \<and> is_dir_sep (last prefix) then skip_seps s else s)"
proof (induction "length prefix" arbitrary: prefix s rule: less_induct)
  case less
  show ?case
  proof (cases prefix)
    case (Cons c p)
    show ?thesis
    proof (cases "is_dir_sep c")
      case True
      have len: "length (skip_seps p) < length prefix" using skip_seps_length [of p] Cons by simp
      show ?thesis
      proof (cases "skip_seps p = []")
        case all: True
        then have "\<forall>c \<in> set p. is_dir_sep c" by (simp add: dropWhile_eq_Nil_conv)
        then have "skip_seps (p @ s) = skip_seps s" by (intro dropWhile_append2) blast
        moreover have "p \<noteq> [] \<longrightarrow> is_dir_sep (last p)" using \<open>\<forall>c \<in> set p. is_dir_sep c\<close> last_in_set by blast
        ultimately show ?thesis using True Cons all by (simp del: dropWhile_eq_Nil_conv)
      next
        case False
        then obtain x where "x \<in> set p" "\<not> is_dir_sep x" by (auto simp: dropWhile_eq_Nil_conv)
        then have "skip_seps (p @ s) = skip_seps p @ s" by (rule dropWhile_append1)
        moreover have "last (skip_seps p) = last p"
          using False by (metis append_Nil2 last_append takeWhile_dropWhile_id)
        moreover have "p \<noteq> []" using False by auto
        ultimately show ?thesis using less.hyps [OF len] True Cons False by auto
      qed
    next
      case False
      then show ?thesis using less.hyps [of p s] Cons by auto
    qed
  qed simp
qed

text \<open>
  Lemma relative_path_inside. For a path below a directory, \<^verbatim>\<open>relative_path\<close> and
  \<^verbatim>\<open>remove_leading_path\<close> return what follows the directory and its separators, whatever
  the directory's own separators are; the directory itself becomes \<^verbatim>\<open>./\<close> and \<^verbatim>\<open>.\<close>
\<close>

theorem relative_path_inside:
  assumes "prefix \<noteq> []" and "last prefix \<noteq> CHR ''/''"
  shows "relative_path (prefix @ CHR ''/'' # s) prefix = (if skip_seps s = [] then ''./'' else skip_seps s) \<and>
    remove_leading_path (prefix @ CHR ''/'' # s) prefix = (if skip_seps s = [] then ''.'' else skip_seps s)"
proof
  let ?inp = "prefix @ CHR ''/'' # s"
  have root: "have_same_root ?inp prefix"
    using assms(1) by (cases prefix) (auto simp: have_same_root_def is_absolute_path_def)
  obtain po io where loop: "common_loop prefix ?inp 0 0 0 0 = (length prefix, length prefix, po, io)"
    and po: "po < length prefix"
    using common_loop_inside [OF assms(2), of 0 0 s 0] assms(1) by auto
  have "drop (skip_at ?inp (length prefix)) ?inp = skip_seps s" by (subst skip_at_drop) simp
  then show "relative_path ?inp prefix = (if skip_seps s = [] then ''./'' else skip_seps s)"
    using assms(1) root loop po by (simp add: relative_path_def Let_def del: drop_append drop_eq_Nil drop_eq_Nil2 dropWhile_eq_Nil_conv)
  show "remove_leading_path ?inp prefix = (if skip_seps s = [] then ''.'' else skip_seps s)"
    using assms remove_loop_inside [of prefix "CHR ''/'' # s"] by (simp add: remove_leading_path_def Let_def)
qed

theorem relative_path_inside_witness: "relative_path ''/a//b//c/d'' ''/a//b'' = ''c/d''"
  using relative_path_inside [of "''/a//b''" "''/c/d''"] by simp

end
