(* ===== verification/Refname.thy ===== *)
theory Refname
  imports Path
begin

text \<open>
  The checks of reference names in \<^verbatim>\<open>refs.c\<close>. The pattern flag is cleared when an asterisk is met, so it
  is passed along; the other flags do not change.
\<close>

definition refname_disposition :: "nat list" where
  "refname_disposition =
    [1, 4, 4, 4, 4, 4, 4, 4, 4, 4, 4, 4, 4, 4, 4, 4,
     4, 4, 4, 4, 4, 4, 4, 4, 4, 4, 4, 4, 4, 4, 4, 4,
     4, 0, 0, 0, 0, 0, 0, 0, 0, 0, 5, 0, 0, 0, 2, 1,
     0, 0, 0, 0, 0, 0, 0, 0, 0, 0, 4, 0, 0, 0, 0, 4,
     0, 0, 0, 0, 0, 0, 0, 0, 0, 0, 0, 0, 0, 0, 0, 0,
     0, 0, 0, 0, 0, 0, 0, 0, 0, 0, 0, 4, 4, 0, 4, 0,
     0, 0, 0, 0, 0, 0, 0, 0, 0, 0, 0, 0, 0, 0, 0, 0,
     0, 0, 0, 0, 0, 0, 0, 0, 0, 0, 0, 3, 0, 0, 4, 4] @ replicate 128 0"

abbreviation LOCK_SUFFIX :: string where "LOCK_SUFFIX \<equiv> ''.lock''"

abbreviation disposition :: "char \<Rightarrow> nat" where
  "disposition c \<equiv> refname_disposition ! of_char c"

text \<open>The scan over one component: how far it goes (with the flag), or \<open>None\<close> for a return of -1.\<close>

fun component_scan :: "string \<Rightarrow> char \<Rightarrow> bool \<Rightarrow> nat \<Rightarrow> (nat \<times> bool) option" where
  "component_scan [] prev pattern n = Some (n, pattern)"
| "component_scan (ch # cp) prev pattern n =
     (let disp = disposition ch in
      if disp = 1 then Some (n, pattern)
      else if disp = 2 \<and> prev = DOT then None
      else if disp = 3 \<and> prev = CHR ''@'' then None
      else if disp = 4 then None
      else if disp = 5 then (if \<not> pattern then None else component_scan cp ch False (n + 1))
      else component_scan cp ch pattern (n + 1))"

definition check_refname_component :: "string \<Rightarrow> bool \<Rightarrow> int \<times> bool" where
  "check_refname_component refname pattern =
     (case component_scan refname NUL pattern 0 of
        None \<Rightarrow> (-1, pattern)
      | Some (n, pattern) \<Rightarrow>
          if n = 0 then (0, pattern)
          else if peek refname = DOT then (-1, pattern)
          else if length LOCK_SUFFIX \<le> n \<and> take (length LOCK_SUFFIX) (drop (n - length LOCK_SUFFIX) refname) = LOCK_SUFFIX
          then (-1, pattern)
          else (int n, pattern))"

function check_components :: "string \<Rightarrow> bool \<Rightarrow> bool \<Rightarrow> nat \<Rightarrow> int" where
  "check_components refname onelevel pattern component_count =
     (let (component_len, pattern) = check_refname_component refname pattern in
      if component_len \<le> 0 then -1
      else let n = nat component_len in
        if drop n refname = [] then
          (if refname ! (n - 1) = DOT then -1
           else if \<not> onelevel \<and> component_count + 1 < 2 then -1
           else 0)
        else check_components (drop (n + 1) refname) onelevel pattern (component_count + 1))"
  by pat_completeness auto
termination
  by (relation "measure (\<lambda>(refname, _). length refname)") auto

declare check_components.simps [simp del]

definition check_refname_format :: "string \<Rightarrow> bool \<Rightarrow> bool \<Rightarrow> int" where
  "check_refname_format refname onelevel pattern =
     (if refname = ''@'' then -1 else check_components refname onelevel pattern 0)"

definition refname_is_safe :: "string \<Rightarrow> bool" where
  "refname_is_safe refname =
     (if take 5 refname = ''refs/'' then normalize_path_copy (drop 5 refname) \<noteq> None
      else list_all (\<lambda>c. isupper c \<or> c = CHR ''_'') refname)"

section \<open>The rules\<close>

text \<open>
  The characters that no reference name has, as the documentation of \<^verbatim>\<open>git check-ref-format\<close> lists them: control characters
  (a NUL ends the string), DEL, the space, tilde, caret, colon, question mark, opening bracket and backslash. The asterisk has a rule of its own.
\<close>

definition bad_char :: "char \<Rightarrow> bool" where
  "bad_char c \<longleftrightarrow>
     0 < (of_char c :: nat) \<and> (of_char c :: nat) < 0x20 \<or> of_char c = (0x7F :: nat) \<or>
     c \<in> set '' ~^:?['' \<or> c = CHR 0x5C"

lemma length_refname_disposition: "length refname_disposition = 256"
  by (simp add: refname_disposition_def)

lemma list_all_enumerate_replicate:
  "(\<And>i. i < k \<Longrightarrow> Q (n + i) x) \<Longrightarrow> list_all (\<lambda>(n, t). Q n t) (enumerate n (replicate k x))"
proof -
  assume Q: "\<And>i. i < k \<Longrightarrow> Q (n + i) x"
  have "Q a x" if "n \<le> a" "a < n + k" for a using Q [of "a - n"] that by simp
  then show ?thesis by (auto simp: list_all_iff in_set_enumerate_eq)
qed

lemma disposition_table:
  "list_all (\<lambda>(n, t). (t = 1) = (n = 0 \<or> n = 47) \<and> (t = 2) = (n = 46) \<and> (t = 3) = (n = 123) \<and> (t = 5) = (n = 42))
     (enumerate 0 refname_disposition)"
  unfolding refname_disposition_def enumerate_append_eq list_all_append
  by (rule conjI, simp, rule list_all_enumerate_replicate, simp)

lemma disposition_bad_table:
  "list_all (\<lambda>(n, t). (t = 4) = (0 < n \<and> n < 32 \<or> n = 127 \<or> n = 32 \<or> n = 126 \<or> n = 94 \<or> n = 58 \<or> n = 63 \<or> n = 91 \<or> n = 92))
     (enumerate 0 refname_disposition)"
  unfolding refname_disposition_def enumerate_append_eq list_all_append
  by (rule conjI, simp, rule list_all_enumerate_replicate, simp)

lemma disposition_iff:
  "disposition c = 1 \<longleftrightarrow> c = NUL \<or> c = CHR ''/''"
  "disposition c = 2 \<longleftrightarrow> c = DOT"
  "disposition c = 3 \<longleftrightarrow> c = CHR ''{''"
  "disposition c = 5 \<longleftrightarrow> c = CHR ''*''"
  "disposition c = 4 \<longleftrightarrow> bad_char c"
proof -
  note t = table_nth [OF disposition_table length_refname_disposition, of c]
  have code: "of_char c = (of_char d :: nat) \<longleftrightarrow> c = d" for d by simp
  show "disposition c = 1 \<longleftrightarrow> c = NUL \<or> c = CHR ''/''" using t code [of NUL] code [of "CHR ''/''"] by simp
  show "disposition c = 2 \<longleftrightarrow> c = DOT" using t code [of DOT] by simp
  show "disposition c = 3 \<longleftrightarrow> c = CHR ''{''" using t code [of "CHR ''{''"] by simp
  show "disposition c = 5 \<longleftrightarrow> c = CHR ''*''" using t code [of "CHR ''*''"] by simp
  show "disposition c = 4 \<longleftrightarrow> bad_char c"
    using table_nth [OF disposition_bad_table length_refname_disposition, of c] code [of "CHR '' ''"] code [of "CHR ''~''"] code [of "CHR ''^''"] code [of "CHR '':''"] code [of "CHR ''?''"]
      code [of "CHR ''[''"] code [of "CHR 0x5C"]
    by (auto simp: bad_char_def)
qed

fun adjacent :: "char \<Rightarrow> char \<Rightarrow> string \<Rightarrow> bool" where
  "adjacent a b (c # d # s) \<longleftrightarrow> (c = a \<and> d = b) \<or> adjacent a b (d # s)"
| "adjacent a b s \<longleftrightarrow> False"

abbreviation stars :: "string \<Rightarrow> nat" where
  "stars s \<equiv> length (filter (\<lambda>c. c = CHR ''*'') s)"

definition component_ok :: "string \<Rightarrow> bool" where
  "component_ok s \<longleftrightarrow>
     s \<noteq> [] \<and> hd s \<noteq> DOT \<and> \<not> (length LOCK_SUFFIX \<le> length s \<and> drop (length s - length LOCK_SUFFIX) s = LOCK_SUFFIX) \<and>
     list_all (\<lambda>c. \<not> bad_char c) s \<and> \<not> adjacent DOT DOT s \<and> \<not> adjacent (CHR ''@'') (CHR ''{'') s"

definition refname_ok :: "string \<Rightarrow> bool \<Rightarrow> bool \<Rightarrow> bool" where
  "refname_ok refname onelevel pattern \<longleftrightarrow>
     refname \<noteq> ''@'' \<and> list_all component_ok (split_slash refname) \<and> last refname \<noteq> DOT \<and>
     stars refname \<le> (if pattern then 1 else 0) \<and> (onelevel \<or> 2 \<le> length (split_slash refname))"

lemma component_scan_spec:
  "c_string s \<Longrightarrow>
   component_scan s prev pattern n =
     (let seg = takeWhile (\<lambda>c. c \<noteq> CHR ''/'') s in
      if list_all (\<lambda>c. disposition c \<noteq> 4) seg \<and> \<not> adjacent DOT DOT (prev # seg) \<and>
         \<not> adjacent (CHR ''@'') (CHR ''{'') (prev # seg) \<and> stars seg \<le> (if pattern then 1 else 0)
      then Some (n + length seg, pattern \<and> stars seg = 0) else None)"
proof (induction s arbitrary: prev pattern n)
  case (Cons ch cp)
  note disp = disposition_iff(1-4) [of ch]
  have cp: "c_string cp" and ch: "ch \<noteq> NUL" using Cons.prems by simp_all
  note IH = Cons.IH [OF cp]
  consider "ch = CHR ''/''" | "ch = DOT" | "ch = CHR ''{''" | "ch = CHR ''*''" | "disposition ch = 4"
    | "disposition ch \<noteq> 1" "disposition ch \<noteq> 2" "disposition ch \<noteq> 3" "disposition ch \<noteq> 4" "disposition ch \<noteq> 5"
    using disp ch by metis
  then show ?case
  proof cases
    case 1
    then show ?thesis using disp(1) by (simp add: Let_def)
  next
    case 2
    then have "disposition ch = 2" "ch \<noteq> CHR ''{''" using disp by simp_all
    then show ?thesis using 2 by (simp add: Let_def IH)
  next
    case 3
    then have "disposition ch = 3" using disp by simp
    then show ?thesis using 3 by (simp add: Let_def IH)
  next
    case 4
    then have "disposition ch = 5" using disp by simp
    then show ?thesis using 4 by (cases pattern) (simp_all add: Let_def IH)
  next
    case 5
    then have "ch \<noteq> CHR ''/''" using disp(1) by auto
    then show ?thesis using 5 by (simp add: Let_def)
  next
    case 6
    then have "ch \<noteq> CHR ''/''" "ch \<noteq> DOT" "ch \<noteq> CHR ''{''" "ch \<noteq> CHR ''*''" using disp by auto
    then show ?thesis using 6 by (simp add: Let_def IH)
  qed
qed simp

definition lock_suffix :: "string \<Rightarrow> bool" where
  "lock_suffix s \<longleftrightarrow> length LOCK_SUFFIX \<le> length s \<and> drop (length s - length LOCK_SUFFIX) s = LOCK_SUFFIX"

lemma check_refname_component_spec:
  assumes "c_string s" and "seg = takeWhile (\<lambda>c. c \<noteq> CHR ''/'') s"
  shows "let (len, pattern') = check_refname_component s pattern;
      ok = (component_ok seg \<and> stars seg \<le> (if pattern then 1 else 0))
    in (0 < len \<longleftrightarrow> ok) \<and> (ok \<longrightarrow> len = int (length seg) \<and> pattern' = (pattern \<and> stars seg = 0))"
proof -
  define C where "C \<longleftrightarrow> list_all (\<lambda>c. disposition c \<noteq> 4) seg \<and> \<not> adjacent DOT DOT seg \<and>
    \<not> adjacent (CHR ''@'') (CHR ''{'') seg \<and> stars seg \<le> (if pattern then 1 else 0)"
  have "adjacent a b (NUL # seg) = adjacent a b seg" if "a \<noteq> NUL" for a b using that by (cases seg) auto
  then have scan: "component_scan s NUL pattern 0 = (if C then Some (length seg, pattern \<and> stars seg = 0) else None)"
    using component_scan_spec [OF assms(1), of NUL pattern 0]
    unfolding assms(2) [symmetric] C_def Let_def by simp
  have front: "take (length seg) s = seg" using assms(2) by (metis takeWhile_eq_take)
  have lock: "take k (drop (length seg - k) s) = drop (length seg - k) seg" if "k \<le> length seg" for k
  proof -
    have "take k (drop (length seg - k) s) = drop (length seg - k) (take (length seg) s)"
      using that by (simp add: drop_take)
    then show ?thesis by (simp only: front)
  qed
  have head: "peek s = hd seg" if "seg \<noteq> []" using that assms(2) by (cases s) (auto split: if_splits)
  have ok: "component_ok seg \<and> stars seg \<le> (if pattern then 1 else 0) \<longleftrightarrow>
      seg \<noteq> [] \<and> hd seg \<noteq> DOT \<and> \<not> lock_suffix seg \<and> C"
    unfolding component_ok_def lock_suffix_def C_def disposition_iff(5) by blast
  have "check_refname_component s pattern =
    (if \<not> C then (-1, pattern)
     else let pattern = (pattern \<and> stars seg = 0) in
       if seg = [] then (0, pattern) else if hd seg = DOT then (-1, pattern)
       else if lock_suffix seg then (-1, pattern) else (int (length seg), pattern))"
    using lock [of "length LOCK_SUFFIX"] head unfolding check_refname_component_def scan lock_suffix_def
    by (cases "length LOCK_SUFFIX \<le> length seg") (simp_all add: Let_def)
  then show ?thesis unfolding Let_def ok by simp
qed

lemma star_budget:
  "a \<le> (if p then 1 else 0) \<Longrightarrow> p' = (p \<and> a = 0) \<Longrightarrow>
     (b \<le> (if p' then 1 else 0)) = (a + b \<le> (if p then 1 else 0 :: nat))"
  by (cases p) auto

lemma stars_append: "stars (x @ y) = stars x + stars y"
  by simp

lemma check_components_spec:
  "c_string s \<Longrightarrow>
   check_components s onelevel pattern n =
     (if list_all component_ok (split_slash s) \<and> last s \<noteq> DOT \<and> stars s \<le> (if pattern then 1 else 0) \<and>
         (onelevel \<or> 2 \<le> n + length (split_slash s)) then 0 else -1)"
proof (induction "length s" arbitrary: s pattern n rule: less_induct)
  case less
  define seg where "seg = takeWhile (\<lambda>c. c \<noteq> CHR ''/'') s"
  define rest where "rest = dropWhile (\<lambda>c. c \<noteq> CHR ''/'') s"
  have s: "s = seg @ rest" by (simp add: seg_def rest_def)
  obtain len p' where crc: "check_refname_component s pattern = (len, p')" by fastforce
  have spec: "(0 < len \<longleftrightarrow> component_ok seg \<and> stars seg \<le> (if pattern then 1 else 0))"
    "component_ok seg \<and> stars seg \<le> (if pattern then 1 else 0) \<Longrightarrow> len = int (length seg) \<and> p' = (pattern \<and> stars seg = 0)"
    using check_refname_component_spec [OF less.prems seg_def, of pattern] unfolding crc Let_def by auto
  have drops: "drop (length seg) s = rest" "drop (length seg + 1) s = tl rest"
    using s by (metis append_eq_conv_conj, metis append_eq_conv_conj drop_Suc add.commute drop_drop drop_0 drop_Suc_Cons One_nat_def tl_drop)
  show ?case
  proof (cases "component_ok seg \<and> stars seg \<le> (if pattern then 1 else 0)")
    case False
    obtain ds where "split_slash s = seg # ds" using split_slash_unfold [of s] unfolding seg_def [symmetric] by blast
    moreover have "stars seg \<le> stars s" by (subst s) simp
    ultimately have "\<not> (list_all component_ok (split_slash s) \<and> stars s \<le> (if pattern then 1 else 0))"
      using False by auto
    moreover have "\<not> 0 < len" using False spec(1) by blast
    ultimately show ?thesis using crc by (subst check_components.simps) auto
  next
    case True
    note ok = spec(2) [OF True]
    note True' = True
    have ne: "seg \<noteq> []" using True by (simp add: component_ok_def)
    show ?thesis
    proof (cases rest)
      case Nil
      then have "s = seg" using s by simp
      moreover have "split_slash s = [seg]"
        using split_slash_unfold [of s] Nil unfolding seg_def [symmetric] rest_def [symmetric] by simp
      ultimately show ?thesis
        using True ok ne crc by (subst check_components.simps) (auto simp: last_conv_nth)
    next
      case (Cons c t)
      then have c: "c = CHR ''/''" by (simp add: rest_def dropWhile_eq_Cons_conv)
      have split: "split_slash s = seg # split_slash t"
        using split_slash_unfold [of s] Cons unfolding seg_def [symmetric] rest_def [symmetric] by simp
      have t: "length t < length s" "c_string t" using s Cons less.prems by auto
      have rec: "check_components s onelevel pattern n = check_components t onelevel p' (n + 1)"
        using crc ok ne drops Cons t(1) s by (subst check_components.simps) (simp add: Let_def)
      have st: "stars s = stars seg + stars t" using s Cons c by simp
      show ?thesis
      proof (cases "t = []")
        case True
        then have "\<not> list_all component_ok (split_slash t)" by (simp add: component_ok_def)
        then show ?thesis using less.hyps [OF t, of p' "n + 1"] rec split by simp
      next
        case False
        then have "last s = last t" using s Cons by simp
        moreover have "stars t \<le> (if p' then 1 else 0) \<longleftrightarrow> stars s \<le> (if pattern then 1 else 0)"
          unfolding st using True' ok by (intro star_budget) blast+
        moreover have "component_ok seg" using True' by blast
        ultimately show ?thesis
          using less.hyps [OF t, of p' "n + 1"] unfolding rec split by simp
      qed
    qed
  qed
qed

text \<open>
  C13. \<^verbatim>\<open>check_refname_format\<close> accepts a name exactly when it follows the rules: it is not
  a lone at sign, no component is empty, begins with a dot, ends with \<^verbatim>\<open>.lock\<close> or contains a control character, DEL, space, tilde, caret, colon, question mark,
  opening bracket or backslash, two
  dots or an at sign before a brace, the name does not end with a dot, an asterisk occurs at most once and only in a
  pattern, and there are two components unless one is allowed.
\<close>

theorem check_refname_spec:
  assumes "c_string refname"
  shows "check_refname_format refname onelevel pattern = (if refname_ok refname onelevel pattern then 0 else -1)"
  using check_components_spec [OF assms, of onelevel pattern 0]
  by (auto simp: check_refname_format_def refname_ok_def)

theorem check_refname_spec_witness: "check_refname_format ''refs/heads/*'' False True = 0"
proof -
  have "refname_ok ''refs/heads/*'' False True" by code_simp
  then show ?thesis using check_refname_spec [of "''refs/heads/*''" False True] by simp
qed

lemma normalize_components_ok:
  "list_all (\<lambda>s. s \<noteq> ''..'') ss \<Longrightarrow> normalize_components dirs ss \<noteq> None"
  by (induction dirs ss rule: normalize_components.induct) auto

lemma component_ok_not_dots: "component_ok s \<Longrightarrow> s \<noteq> ''..''"
  by (auto simp: component_ok_def)

text \<open>
  C32. A name below \<^verbatim>\<open>refs/\<close> that \<^verbatim>\<open>refname_is_safe\<close> accepts normalizes to
  plain components, so it does not leave that directory; and every name \<^verbatim>\<open>check_refname_format\<close> accepts below
  \<^verbatim>\<open>refs/\<close> is safe.
\<close>

theorem safe_refname_stays_inside:
  "(refname_is_safe (''refs/'' @ s) \<longleftrightarrow>
      (\<exists>dirs base. normalize_path_copy s = Some ((if peek s = CHR ''/'' then ''/'' else []) @ dirs_path dirs @ base) \<and>
         list_all plain_name dirs \<and> (base = [] \<or> plain_name base))) \<and>
   (c_string s \<and> check_refname_format (''refs/'' @ s) onelevel pattern = 0 \<longrightarrow> refname_is_safe (''refs/'' @ s))"
proof (intro conjI impI)
  have refs: "refname_is_safe (''refs/'' @ s) \<longleftrightarrow> normalize_path_copy s \<noteq> None"
    by (simp add: refname_is_safe_def)
  then show "refname_is_safe (''refs/'' @ s) \<longleftrightarrow>
      (\<exists>dirs base. normalize_path_copy s = Some ((if peek s = CHR ''/'' then ''/'' else []) @ dirs_path dirs @ base) \<and>
         list_all plain_name dirs \<and> (base = [] \<or> plain_name base))"
    using normalized_form [of s] by blast
  assume ok: "c_string s \<and> check_refname_format (''refs/'' @ s) onelevel pattern = 0"
  have "c_string (''refs/'' @ s)" using ok by simp
  moreover have "check_components (''refs/'' @ s) onelevel pattern 0 = 0"
    using ok by (simp add: check_refname_format_def split: if_splits)
  ultimately have "list_all component_ok (split_slash (''refs/'' @ s))"
    using check_components_spec [of "''refs/'' @ s" onelevel pattern 0] by (simp split: if_splits)
  then have "list_all component_ok (split_slash s)" by (cases "split_slash s") auto
  then have "list_all (\<lambda>s. s \<noteq> ''..'') (split_slash s)"
    unfolding list_all_iff using component_ok_not_dots by blast
  then show "refname_is_safe (''refs/'' @ s)"
    unfolding refs normalize_path_eq normalize_spec_def using normalize_components_ok by simp
qed

theorem safe_refname_stays_inside_witness: "refname_is_safe (''refs/'' @ ''heads/a'')"
proof -
  have "check_components (''refs/'' @ ''heads/a'') False False 0 = 0"
    using check_components_spec [of "''refs/heads/a''" False False 0] by code_simp
  then have "check_refname_format (''refs/'' @ ''heads/a'') False False = 0" by (simp add: check_refname_format_def)
  moreover have "c_string ''heads/a''" by simp
  ultimately show ?thesis using safe_refname_stays_inside [of "''heads/a''" False False] by blast
qed

end
