(* ===== verification/Utf8.thy ===== *)
theory Utf8
  imports Git_Prelude
begin

text \<open>
  Reading UTF-8 (\<^verbatim>\<open>utf8.c\<close>). A pointer into a text is the rest of the text, NULL is \<open>None\<close>. A
  code point is a number; all are below \<open>2 ^ 21\<close>. The bit operations of the code become arithmetic on
  the bytes, and that makes the accepted texts exactly the encodings of RFC 3629.
\<close>

section \<open>Reading one character\<close>

definition byte_at :: "string \<Rightarrow> nat \<Rightarrow> nat" where
  "byte_at s i = (if i < length s then of_char (s ! i) else 0)"

text \<open>
  The result is the code point and how many bytes it takes, or \<open>None\<close> for malformed text. The
  callers advance \<open>start\<close> and reduce the remainder by the number of bytes.
\<close>

definition utf8_char :: "string \<Rightarrow> nat \<Rightarrow> (nat \<times> nat) option" where
  "utf8_char s remainder =
     (let s0 = byte_at s 0; s1 = byte_at s 1; s2 = byte_at s 2; s3 = byte_at s 3
      in if remainder < 1 then None
         else if s0 < 0x80 then Some (s0, 1)
         else if s0 AND 0xe0 = 0xc0
         then if remainder < 2 \<or> s1 AND 0xc0 \<noteq> 0x80 \<or> s0 AND 0xfe = 0xc0 then None
              else Some (push_bit 6 (s0 AND 0x1f) OR (s1 AND 0x3f), 2)
         else if s0 AND 0xf0 = 0xe0
         then if remainder < 3 \<or> s1 AND 0xc0 \<noteq> 0x80 \<or> s2 AND 0xc0 \<noteq> 0x80 \<or>
                 s0 = 0xe0 \<and> s1 AND 0xe0 = 0x80 \<or>
                 s0 = 0xed \<and> s1 AND 0xe0 = 0xa0 \<or>
                 s0 = 0xef \<and> s1 = 0xbf \<and> s2 AND 0xfe = 0xbe then None
              else Some (push_bit 12 (s0 AND 0x0f) OR push_bit 6 (s1 AND 0x3f) OR (s2 AND 0x3f), 3)
         else if s0 AND 0xf8 = 0xf0
         then if remainder < 4 \<or> s1 AND 0xc0 \<noteq> 0x80 \<or> s2 AND 0xc0 \<noteq> 0x80 \<or> s3 AND 0xc0 \<noteq> 0x80 \<or>
                 s0 = 0xf0 \<and> s1 AND 0xf0 = 0x80 \<or>
                 s0 = 0xf4 \<and> s1 > 0x8f \<or> s0 > 0xf4 then None
              else Some (push_bit 18 (s0 AND 0x07) OR push_bit 12 (s1 AND 0x3f) OR
                         push_bit 6 (s2 AND 0x3f) OR (s3 AND 0x3f), 4)
         else None)"

definition pick_one_utf8_char ::
  "string \<Rightarrow> nat option \<Rightarrow> nat \<times> string option \<times> nat option" where
  "pick_one_utf8_char start remainder_p =
     (case utf8_char start (case remainder_p of Some r \<Rightarrow> r | None \<Rightarrow> 999) of
        None \<Rightarrow> (0, None, remainder_p)
      | Some (ch, incr) \<Rightarrow> (ch, Some (drop incr start), map_option (\<lambda>r. r - incr) remainder_p))"

text \<open>The length of one character of a text in UTF-8; a malformed byte counts as a character.\<close>

definition mbs_chrlen_utf8 :: "string \<Rightarrow> nat option \<Rightarrow> nat" where
  "mbs_chrlen_utf8 text remainder_p =
     (let r = (case remainder_p of Some r \<Rightarrow> r | None \<Rightarrow> 2 ^ 64 - 1)
      in if r < 1 then 0
         else case pick_one_utf8_char text (Some r) of
                (ch, Some p, r') \<Rightarrow> length text - length p
              | (ch, None, r') \<Rightarrow> 1)"

definition utf8_bom :: string where
  "utf8_bom = [CHR 0xEF, CHR 0xBB, CHR 0xBF]"

definition skip_utf8_bom :: "string \<Rightarrow> nat \<Rightarrow> string option" where
  "skip_utf8_bom text len =
     (if len < length utf8_bom \<or> take (length utf8_bom) text \<noteq> utf8_bom then None
      else Some (drop (length utf8_bom) text))"

section \<open>UTF-8 in arithmetic\<close>

lemma and_high:
  assumes "b < 256" and "k \<le> 8"
  shows "b AND push_bit k (mask (8 - k)) = b div 2 ^ k * (2 ^ k :: nat)"
proof -
  have b: "take_bit 8 b = b" using assms(1) by (simp add: take_bit_eq_mod)
  have "\<not> bit b n" if "8 \<le> n" for n
    using that b by (metis bit_take_bit_iff not_less)
  then have "b AND push_bit k (mask (8 - k)) = push_bit k (drop_bit k b)"
  proof (intro bit_eqI)
    fix n
    show "bit (b AND push_bit k (mask (8 - k))) n = bit (push_bit k (drop_bit k b)) n"
    proof (cases "k \<le> n \<and> bit b n")
      case True
      then have "n < 8" using \<open>\<And>n. 8 \<le> n \<Longrightarrow> \<not> bit b n\<close> by (meson not_less)
      then show ?thesis using True assms(2) by (simp add: bit_simps diff_less_mono)
    next
      case False
      then show ?thesis by (auto simp: bit_simps)
    qed
  qed
  then show ?thesis by (simp add: push_bit_eq_mult drop_bit_eq_div)
qed

lemma div_mult_interval:
  fixes b k q :: nat
  assumes "0 < k"
  shows "b div k * k = q * k \<longleftrightarrow> q * k \<le> b \<and> b < (q + 1) * k"
    and "q * k \<le> b \<Longrightarrow> b < (q + 1) * k \<Longrightarrow> b mod k = b - q * k"
proof -
  have *: "b div k = q \<longleftrightarrow> q * k \<le> b \<and> b < (q + 1) * k"
    using assms div_nat_eqI [of k q b] dividend_less_div_times [of k b] times_div_less_eq_dividend [of k b]
    by (auto simp: algebra_simps)
  then show "b div k * k = q * k \<longleftrightarrow> q * k \<le> b \<and> b < (q + 1) * k"
    using assms by simp
  show "b mod k = b - q * k" if "q * k \<le> b" "b < (q + 1) * k"
    using * that minus_div_mult_eq_mod [of b k] by simp
qed

lemma and_masks:
  assumes "b < 256"
  shows "b AND 0xe0 = 0xc0 \<longleftrightarrow> 192 \<le> b \<and> b < 224" "b AND 0xf0 = 0xe0 \<longleftrightarrow> 224 \<le> b \<and> b < 240"
    "b AND 0xf8 = 0xf0 \<longleftrightarrow> 240 \<le> b \<and> b < 248" "b AND 0xc0 = 0x80 \<longleftrightarrow> 128 \<le> b \<and> b < 192"
    "b AND 0xfe = 0xc0 \<longleftrightarrow> 192 \<le> b \<and> b < 194" "b AND 0xe0 = 0x80 \<longleftrightarrow> 128 \<le> b \<and> b < 160"
    "b AND 0xe0 = 0xa0 \<longleftrightarrow> 160 \<le> b \<and> b < 192" "b AND 0xfe = 0xbe \<longleftrightarrow> 190 \<le> b \<and> b < 192"
    "b AND 0xf0 = 0x80 \<longleftrightarrow> 128 \<le> b \<and> b < (144 :: nat)"
proof -
  have m: "(0xe0 :: nat) = push_bit 5 (mask (8 - 5))" "(0xf0 :: nat) = push_bit 4 (mask (8 - 4))"
    "(0xf8 :: nat) = push_bit 3 (mask (8 - 3))" "(0xc0 :: nat) = push_bit 6 (mask (8 - 6))"
    "(0xfe :: nat) = push_bit 1 (mask (8 - 1))"
    by (simp_all add: mask_eq_exp_minus_1 push_bit_eq_mult)
  have h: "b AND 0xe0 = b div 32 * 32" "b AND 0xf0 = b div 16 * 16" "b AND 0xf8 = b div 8 * 8"
      "b AND 0xc0 = b div 64 * 64" "b AND 0xfe = b div 2 * 2"
    using and_high [OF assms, of 5] and_high [OF assms, of 4] and_high [OF assms, of 3]
      and_high [OF assms, of 6] and_high [OF assms, of 1]
    unfolding m by simp_all
  show "b AND 0xe0 = 0xc0 \<longleftrightarrow> 192 \<le> b \<and> b < 224" unfolding h using div_mult_interval(1) [of 32 b 6] by simp
  show "b AND 0xf0 = 0xe0 \<longleftrightarrow> 224 \<le> b \<and> b < 240" unfolding h using div_mult_interval(1) [of 16 b 14] by simp
  show "b AND 0xf8 = 0xf0 \<longleftrightarrow> 240 \<le> b \<and> b < 248" unfolding h using div_mult_interval(1) [of 8 b 30] by simp
  show "b AND 0xc0 = 0x80 \<longleftrightarrow> 128 \<le> b \<and> b < 192" unfolding h using div_mult_interval(1) [of 64 b 2] by simp
  show "b AND 0xfe = 0xc0 \<longleftrightarrow> 192 \<le> b \<and> b < 194" unfolding h using div_mult_interval(1) [of 2 b 96] by simp
  show "b AND 0xe0 = 0x80 \<longleftrightarrow> 128 \<le> b \<and> b < 160" unfolding h using div_mult_interval(1) [of 32 b 4] by simp
  show "b AND 0xe0 = 0xa0 \<longleftrightarrow> 160 \<le> b \<and> b < 192" unfolding h using div_mult_interval(1) [of 32 b 5] by simp
  show "b AND 0xfe = 0xbe \<longleftrightarrow> 190 \<le> b \<and> b < 192" unfolding h using div_mult_interval(1) [of 2 b 95] by simp
  show "b AND 0xf0 = 0x80 \<longleftrightarrow> 128 \<le> b \<and> b < 144" unfolding h using div_mult_interval(1) [of 16 b 8] by simp
qed

lemma and_low: "b AND 0x1f = b mod 32" "b AND 0x3f = b mod 64" "b AND 0x0f = b mod 16" "b AND 0x07 = b mod (8 :: nat)"
  using take_bit_eq_mask [of 5 b] take_bit_eq_mask [of 6 b] take_bit_eq_mask [of 4 b] take_bit_eq_mask [of 3 b]
  by (simp_all add: mask_eq_exp_minus_1 take_bit_eq_mod)

lemma or_add:
  assumes "b < 2 ^ k"
  shows "push_bit k a OR b = a * 2 ^ k + (b :: nat)"
proof -
  have b: "take_bit k b = b" using assms by (simp add: take_bit_eq_mod)
  have "push_bit k a AND take_bit k b = 0" by (rule bit_eqI) (auto simp: bit_simps)
  then have "push_bit k a AND b = 0" by (simp only: b)
  then show ?thesis by (simp add: disjunctive_add_eq_or [symmetric] push_bit_eq_mult)
qed

lemma byte_at_less: "byte_at s i < 256"
  by (simp add: byte_at_def)

definition is_cont :: "nat \<Rightarrow> bool" where
  "is_cont b \<longleftrightarrow> 128 \<le> b \<and> b < 192"

text \<open>The bytes of a code point, as RFC 3629 has them.\<close>

definition utf8_bytes :: "nat \<Rightarrow> nat list" where
  "utf8_bytes c =
     (if c < 0x80 then [c]
      else if c < 0x800 then [192 + c div 64, 128 + c mod 64]
      else if c < 0x10000 then [224 + c div 4096, 128 + c div 64 mod 64, 128 + c mod 64]
      else [240 + c div 262144, 128 + c div 4096 mod 64, 128 + c div 64 mod 64, 128 + c mod 64])"

definition utf8_encode :: "nat \<Rightarrow> string" where
  "utf8_encode c = map char_of (utf8_bytes c)"

text \<open>What the code accepts: no surrogates, no noncharacters of the first plane, nothing above U+10FFFF.\<close>

definition utf8_valid :: "nat \<Rightarrow> bool" where
  "utf8_valid c \<longleftrightarrow> c \<le> 0x10FFFF \<and> \<not> (0xD800 \<le> c \<and> c \<le> 0xDFFF) \<and> c \<noteq> 0xFFFE \<and> c \<noteq> 0xFFFF"

text \<open>The function on bytes, with its tests and its result in arithmetic.\<close>

definition utf8_of_bytes :: "nat \<Rightarrow> nat \<Rightarrow> nat \<Rightarrow> nat \<Rightarrow> (nat \<times> nat) option" where
  "utf8_of_bytes s0 s1 s2 s3 =
     (if s0 < 128 then Some (s0, 1)
      else if 194 \<le> s0 \<and> s0 < 224 \<and> is_cont s1 then Some ((s0 - 192) * 64 + (s1 - 128), 2)
      else if 224 \<le> s0 \<and> s0 < 240 \<and> is_cont s1 \<and> is_cont s2 \<and> \<not> (s0 = 224 \<and> s1 < 160) \<and>
              \<not> (s0 = 237 \<and> 160 \<le> s1) \<and> \<not> (s0 = 239 \<and> s1 = 191 \<and> 190 \<le> s2)
      then Some ((s0 - 224) * 4096 + (s1 - 128) * 64 + (s2 - 128), 3)
      else if 240 \<le> s0 \<and> s0 \<le> 244 \<and> is_cont s1 \<and> is_cont s2 \<and> is_cont s3 \<and>
              \<not> (s0 = 240 \<and> s1 < 144) \<and> \<not> (s0 = 244 \<and> 143 < s1)
      then Some ((s0 - 240) * 262144 + (s1 - 128) * 4096 + (s2 - 128) * 64 + (s3 - 128), 4)
      else None)"

lemma cont_mod: "is_cont b \<Longrightarrow> b mod 64 = b - 128"
  unfolding is_cont_def using div_mult_interval(2) [of 64 2 b] by simp

lemma utf8_char_arith:
  "utf8_char s r = (case utf8_of_bytes (byte_at s 0) (byte_at s 1) (byte_at s 2) (byte_at s 3) of
     None \<Rightarrow> None | Some (c, n) \<Rightarrow> if n \<le> r then Some (c, n) else None)"
proof -
  let ?a = "byte_at s 0" and ?b = "byte_at s 1" and ?c = "byte_at s 2" and ?d = "byte_at s 3"
  note l = byte_at_less [of s 0] byte_at_less [of s 1] byte_at_less [of s 2] byte_at_less [of s 3]
  have c: "x AND 0xc0 = 0x80 \<longleftrightarrow> is_cont x" if "x < 256" for x
    using that by (simp add: and_masks is_cont_def)
  consider "?a < 128" | "128 \<le> ?a" "?a < 192" | "192 \<le> ?a" "?a < 224" | "224 \<le> ?a" "?a < 240"
    | "240 \<le> ?a" "?a < 248" | "248 \<le> ?a" by linarith
  then show ?thesis
  proof cases
    case 3
    then have "?a mod 32 = ?a - 192" using div_mult_interval(2) [of 32 6 ?a] by simp
    moreover have "push_bit 6 (?a mod 32) OR ?b mod 64 = ?a mod 32 * 64 + ?b mod 64" by (simp add: or_add)
    ultimately show ?thesis using 3 l
      by (auto simp: utf8_char_def Let_def utf8_of_bytes_def and_masks(1,5) c and_low cont_mod)
  next
    case 4
    then have "?a mod 16 = ?a - 224" using div_mult_interval(2) [of 16 14 ?a] by simp
    moreover have "push_bit 12 (?a mod 16) OR (push_bit 6 (?b mod 64) OR ?c mod 64) =
        ?a mod 16 * 4096 + (?b mod 64 * 64 + ?c mod 64)"
    proof -
      have "push_bit 6 (?b mod 64) OR ?c mod 64 = ?b mod 64 * 64 + ?c mod 64" by (simp add: or_add)
      moreover have "?b mod 64 < 64" "?c mod 64 < 64" by simp_all
      then have "?b mod 64 * 64 + ?c mod 64 < 2 ^ 12" by simp
      ultimately show ?thesis using or_add [of "?b mod 64 * 64 + ?c mod 64" 12 "?a mod 16"] by simp
    qed
    ultimately have v: "push_bit 12 (?a AND 0x0f) OR push_bit 6 (?b AND 0x3f) OR (?c AND 0x3f) =
        (?a - 224) * 4096 + (?b - 128) * 64 + (?c - 128)" if "is_cont ?b" "is_cont ?c"
      using that by (simp only: and_low cont_mod add.assoc)
    have a: "?a AND 0xe0 \<noteq> 0xc0" "?a AND 0xf0 = 0xe0" "\<not> ?a < 128" using 4 l(1) by (auto simp: and_masks)
    have q: "?a = 0xe0 \<and> ?b AND 0xe0 = 0x80 \<or> ?a = 0xed \<and> ?b AND 0xe0 = 0xa0 \<or>
        ?a = 0xef \<and> ?b = 0xbf \<and> ?c AND 0xfe = 0xbe \<longleftrightarrow>
        ?a = 224 \<and> ?b < 160 \<or> ?a = 237 \<and> 160 \<le> ?b \<or> ?a = 239 \<and> ?b = 191 \<and> 190 \<le> ?c"
      if "is_cont ?b" "is_cont ?c"
      using that by (auto simp: and_masks l is_cont_def)
    let ?q = "?a = 224 \<and> ?b < 160 \<or> ?a = 237 \<and> 160 \<le> ?b \<or> ?a = 239 \<and> ?b = 191 \<and> 190 \<le> ?c"
    have "utf8_char s r = (if r < 1 then None
        else if r < 3 \<or> \<not> is_cont ?b \<or> \<not> is_cont ?c \<or> ?q then None
        else Some ((?a - 224) * 4096 + (?b - 128) * 64 + (?c - 128), 3))"
    proof (cases "is_cont ?b \<and> is_cont ?c")
      case True
      then have b: "is_cont ?b" and d: "is_cont ?c" by simp_all
      show ?thesis
        unfolding utf8_char_def Let_def q [OF b d, symmetric] v [OF b d, symmetric]
        by (simp only: a c [OF l(2)] c [OF l(3)] b d if_False if_True simp_thms)
    next
      case False
      then show ?thesis
        unfolding utf8_char_def Let_def
        by (simp only: a c [OF l(2)] c [OF l(3)] if_False if_True simp_thms de_Morgan_conj) (auto split: if_splits)
    qed
    moreover have "utf8_of_bytes ?a ?b ?c ?d = (if \<not> is_cont ?b \<or> \<not> is_cont ?c \<or> ?q then None
        else Some ((?a - 224) * 4096 + (?b - 128) * 64 + (?c - 128), 3))"
      using 4 by (simp add: utf8_of_bytes_def)
    ultimately show ?thesis by simp
  next
    case 5
    then have "?a mod 8 = ?a - 240" using div_mult_interval(2) [of 8 30 ?a] by simp
    moreover have "push_bit 18 (?a mod 8) OR (push_bit 12 (?b mod 64) OR (push_bit 6 (?c mod 64) OR ?d mod 64)) =
        ?a mod 8 * 262144 + (?b mod 64 * 4096 + (?c mod 64 * 64 + ?d mod 64))"
    proof -
      have m: "?b mod 64 < 64" "?c mod 64 < 64" "?d mod 64 < 64" by simp_all
      have 1: "push_bit 6 (?c mod 64) OR ?d mod 64 = ?c mod 64 * 64 + ?d mod 64" by (simp add: or_add)
      have "?c mod 64 * 64 + ?d mod 64 < 2 ^ 12" using m by simp
      from or_add [OF this, of "?b mod 64"]
      have 2: "push_bit 12 (?b mod 64) OR (?c mod 64 * 64 + ?d mod 64) = ?b mod 64 * 4096 + (?c mod 64 * 64 + ?d mod 64)"
        by simp
      have "?b mod 64 * 4096 + (?c mod 64 * 64 + ?d mod 64) < 2 ^ 18" using m by simp
      from or_add [OF this, of "?a mod 8"] show ?thesis unfolding 1 2 by simp
    qed
    ultimately have v: "push_bit 18 (?a AND 0x07) OR push_bit 12 (?b AND 0x3f) OR
          push_bit 6 (?c AND 0x3f) OR (?d AND 0x3f) =
        (?a - 240) * 262144 + (?b - 128) * 4096 + (?c - 128) * 64 + (?d - 128)"
      if "is_cont ?b" "is_cont ?c" "is_cont ?d"
      using that by (simp only: and_low cont_mod add.assoc)
    have a: "?a AND 0xe0 \<noteq> 0xc0" "?a AND 0xf0 \<noteq> 0xe0" "?a AND 0xf8 = 0xf0" "\<not> ?a < 128"
      using 5 l(1) by (auto simp: and_masks)
    have q: "?b AND 0xf0 = 0x80 \<longleftrightarrow> ?b < 144" if "is_cont ?b"
      using that by (auto simp: and_masks l is_cont_def)
    let ?q = "?a = 240 \<and> ?b < 144 \<or> ?a = 244 \<and> ?b > 143 \<or> ?a > 244"
    have "utf8_char s r = (if r < 1 then None
        else if r < 4 \<or> \<not> is_cont ?b \<or> \<not> is_cont ?c \<or> \<not> is_cont ?d \<or> ?q then None
        else Some ((?a - 240) * 262144 + (?b - 128) * 4096 + (?c - 128) * 64 + (?d - 128), 4))"
    proof (cases "is_cont ?b \<and> is_cont ?c \<and> is_cont ?d")
      case True
      then have b: "is_cont ?b" and d: "is_cont ?c" and e: "is_cont ?d" by simp_all
      show ?thesis
        unfolding utf8_char_def Let_def q [OF b, symmetric] v [OF b d e, symmetric]
        by (simp only: a c [OF l(2)] c [OF l(3)] c [OF l(4)] b d e if_False if_True simp_thms)
    next
      case False
      then show ?thesis
        unfolding utf8_char_def Let_def
        by (simp only: a c [OF l(2)] c [OF l(3)] c [OF l(4)] if_False if_True simp_thms de_Morgan_conj) (auto split: if_splits)
    qed
    moreover have "utf8_of_bytes ?a ?b ?c ?d =
        (if \<not> is_cont ?b \<or> \<not> is_cont ?c \<or> \<not> is_cont ?d \<or> ?q then None
        else Some ((?a - 240) * 262144 + (?b - 128) * 4096 + (?c - 128) * 64 + (?d - 128), 4))"
      using 5 by (simp add: utf8_of_bytes_def)
    ultimately show ?thesis by simp
  qed (use l in \<open>auto simp: utf8_char_def Let_def utf8_of_bytes_def and_masks(1-3)\<close>)
qed

lemma div_64_digits:
  "c = c div 4096 * 4096 + c div 64 mod 64 * 64 + c mod (64 :: nat)"
  "c = c div 262144 * 262144 + c div 4096 mod 64 * 4096 + c div 64 mod 64 * 64 + c mod 64"
proof -
  have d: "c div 4096 = c div 64 div 64" "c div 262144 = c div 4096 div 64" by (simp_all add: div_mult2_eq [symmetric])
  have "c = c div 64 * 64 + c mod 64" "c div 64 = c div 4096 * 64 + c div 64 mod 64"
    "c div 4096 = c div 262144 * 64 + c div 4096 mod 64"
    unfolding d by simp_all
  then show "c = c div 4096 * 4096 + c div 64 mod 64 * 64 + c mod 64"
    "c = c div 262144 * 262144 + c div 4096 mod 64 * 4096 + c div 64 mod 64 * 64 + c mod 64"
    by linarith+
qed

lemma utf8_bytes_decode: "utf8_valid c \<Longrightarrow>
   (\<exists>s0. utf8_bytes c = [s0] \<and> s0 < 128 \<and> c = s0) \<or>
   (\<exists>s0 s1. utf8_bytes c = [s0, s1] \<and> (\<forall>s2 s3. utf8_of_bytes s0 s1 s2 s3 = Some (c, 2))) \<or>
   (\<exists>s0 s1 s2. utf8_bytes c = [s0, s1, s2] \<and> (\<forall>s3. utf8_of_bytes s0 s1 s2 s3 = Some (c, 3))) \<or>
   (\<exists>s0 s1 s2 s3. utf8_bytes c = [s0, s1, s2, s3] \<and> utf8_of_bytes s0 s1 s2 s3 = Some (c, 4))"
proof -
  assume v: "utf8_valid c"
  consider "c < 0x80" | "0x80 \<le> c" "c < 0x800" | "0x800 \<le> c" "c < 0x10000" | "0x10000 \<le> c" by linarith
  then show ?thesis
  proof cases
    case 2
    have "utf8_of_bytes (192 + c div 64) (128 + c mod 64) s2 s3 = Some (c, 2)" for s2 s3
    proof -
      have "2 \<le> c div 64" "c div 64 < 32" using 2 by linarith+
      then show ?thesis by (simp add: utf8_of_bytes_def is_cont_def)
    qed
    then show ?thesis using 2 by (simp add: utf8_bytes_def)
  next
    case 3
    have "utf8_of_bytes (224 + c div 4096) (128 + c div 64 mod 64) (128 + c mod 64) s3 = Some (c, 3)" for s3
    proof -
      define a b d where "a = c div 4096" and "b = c div 64 mod 64" and "d = c mod 64"
      have r: "b < 64" "d < 64" by (simp_all add: b_def d_def)
      have c: "c = a * 4096 + b * 64 + d" unfolding a_def b_def d_def by (rule div_64_digits(1))
      have "a < 16" using 3(2) c by linarith
      moreover have "\<not> (a = 0 \<and> b < 32)" using 3(1) c r by auto
      moreover have "\<not> (a = 13 \<and> 32 \<le> b)" using v c r by (auto simp: utf8_valid_def)
      moreover have "\<not> (a = 15 \<and> b = 63 \<and> 62 \<le> d)" using v c r by (auto simp: utf8_valid_def)
      ultimately show ?thesis
        unfolding a_def [symmetric] b_def [symmetric] d_def [symmetric]
        using r by (auto simp: utf8_of_bytes_def is_cont_def c)
    qed
    then show ?thesis using 3 by (simp add: utf8_bytes_def)
  next
    case 4
    have "utf8_of_bytes (240 + c div 262144) (128 + c div 4096 mod 64) (128 + c div 64 mod 64) (128 + c mod 64) = Some (c, 4)"
    proof -
      define a b d e where "a = c div 262144" and "b = c div 4096 mod 64" and "d = c div 64 mod 64" and "e = c mod 64"
      have r: "b < 64" "d < 64" "e < 64" by (simp_all add: b_def d_def e_def)
      have c: "c = a * 262144 + b * 4096 + d * 64 + e" unfolding a_def b_def d_def e_def by (rule div_64_digits(2))
      have m: "c \<le> 0x10FFFF" using v by (simp add: utf8_valid_def)
      have "a \<le> 4" using m c by linarith
      moreover have "\<not> (a = 0 \<and> b < 16)" using 4 c r by auto
      moreover have "\<not> (a = 4 \<and> 15 < b)" using m c r by auto
      ultimately show ?thesis
        unfolding a_def [symmetric] b_def [symmetric] d_def [symmetric] e_def [symmetric]
        using r by (auto simp: utf8_of_bytes_def is_cont_def c)
    qed
    then show ?thesis using 4 by (simp add: utf8_bytes_def)
  qed (simp add: utf8_bytes_def)
qed

lemma digit_64: "d < 64 \<Longrightarrow> (x * 64 + d) mod 64 = d" "d < 64 \<Longrightarrow> (x * 64 + d) div 64 = (x :: nat)"
  by simp_all

lemma utf8_of_bytes_cases:
  assumes "utf8_of_bytes s0 s1 s2 s3 = Some (c, n)"
  obtains "s0 < 128" "c = s0" "n = 1"
    | "194 \<le> s0" "s0 < 224" "is_cont s1" "c = (s0 - 192) * 64 + (s1 - 128)" "n = 2"
    | "224 \<le> s0" "s0 < 240" "is_cont s1" "is_cont s2" "\<not> (s0 = 224 \<and> s1 < 160)" "\<not> (s0 = 237 \<and> 160 \<le> s1)"
      "\<not> (s0 = 239 \<and> s1 = 191 \<and> 190 \<le> s2)" "c = (s0 - 224) * 4096 + (s1 - 128) * 64 + (s2 - 128)" "n = 3"
    | "240 \<le> s0" "s0 \<le> 244" "is_cont s1" "is_cont s2" "is_cont s3" "\<not> (s0 = 240 \<and> s1 < 144)" "\<not> (s0 = 244 \<and> 143 < s1)"
      "c = (s0 - 240) * 262144 + (s1 - 128) * 4096 + (s2 - 128) * 64 + (s3 - 128)" "n = 4"
proof -
  consider "s0 < 128" | "128 \<le> s0" "s0 < 224" | "224 \<le> s0" "s0 < 240" | "240 \<le> s0" by linarith
  then show thesis
  proof cases
    case 1
    then have "utf8_of_bytes s0 s1 s2 s3 = Some (s0, 1)" by (simp add: utf8_of_bytes_def)
    then show thesis using assms 1 that(1) by (simp only: option.inject prod.inject)
  next
    case 2
    have *: "utf8_of_bytes s0 s1 s2 s3 =
        (if 194 \<le> s0 \<and> is_cont s1 then Some ((s0 - 192) * 64 + (s1 - 128), 2) else None)"
      using 2 by (simp add: utf8_of_bytes_def)
    show thesis
    proof (cases "194 \<le> s0 \<and> is_cont s1")
      case True
      then have "c = (s0 - 192) * 64 + (s1 - 128)" "n = 2"
        using assms unfolding * by simp_all
      then show thesis using that(2) 2 True by (simp only: simp_thms)
    next
      case False
      then show thesis using assms unfolding * if_not_P [OF False] by simp
    qed
  next
    case 3
    let ?p = "is_cont s1 \<and> is_cont s2 \<and> \<not> (s0 = 224 \<and> s1 < 160) \<and>
      \<not> (s0 = 237 \<and> 160 \<le> s1) \<and> \<not> (s0 = 239 \<and> s1 = 191 \<and> 190 \<le> s2)"
    have *: "utf8_of_bytes s0 s1 s2 s3 =
        (if ?p then Some ((s0 - 224) * 4096 + (s1 - 128) * 64 + (s2 - 128), 3) else None)"
      using 3 by (simp add: utf8_of_bytes_def)
    show thesis
    proof (cases ?p)
      case True
      then have "c = (s0 - 224) * 4096 + (s1 - 128) * 64 + (s2 - 128)" "n = 3"
        using assms unfolding * by simp_all
      then show thesis using that(3) 3 True by (simp only: simp_thms)
    next
      case False
      then show thesis using assms unfolding * if_not_P [OF False] by simp
    qed
  next
    case 4
    let ?p = "s0 \<le> 244 \<and> is_cont s1 \<and> is_cont s2 \<and> is_cont s3 \<and> \<not> (s0 = 240 \<and> s1 < 144) \<and>
      \<not> (s0 = 244 \<and> 143 < s1)"
    have *: "utf8_of_bytes s0 s1 s2 s3 =
        (if ?p then Some ((s0 - 240) * 262144 + (s1 - 128) * 4096 + (s2 - 128) * 64 + (s3 - 128), 4) else None)"
      using 4 by (simp add: utf8_of_bytes_def)
    show thesis
    proof (cases ?p)
      case True
      then have "c = (s0 - 240) * 262144 + (s1 - 128) * 4096 + (s2 - 128) * 64 + (s3 - 128)" "n = 4"
        using assms unfolding * by simp_all
      then show thesis using that(4) 4 True by (simp only: simp_thms)
    next
      case False
      then show thesis using assms unfolding * if_not_P [OF False] by simp
    qed
  qed
qed

lemma utf8_bytes_encode:
  assumes "utf8_of_bytes s0 s1 s2 s3 = Some (c, n)"
  shows "utf8_valid c \<and> utf8_bytes c = take n [s0, s1, s2, s3] \<and> n = length (utf8_bytes c)"
  using assms
proof (cases rule: utf8_of_bytes_cases)
  case 1
    then show ?thesis by (simp add: utf8_bytes_def utf8_valid_def)
  next
    case 2
    define a b where "a = s0 - 192" and "b = s1 - 128"
    have s: "s0 = a + 192" "s1 = b + 128" "b < 64" "2 \<le> a" "a < 32" using 2 by (auto simp: a_def b_def is_cont_def)
    have c: "c = a * 64 + b" using 2(4) by (simp add: a_def b_def)
    then have "c div 64 = a" "c mod 64 = b" using s by simp_all
    moreover have "0x80 \<le> c" "c < 0x800" using c s by simp_all
    ultimately show ?thesis using 2(5) s by (simp add: utf8_bytes_def utf8_valid_def numeral_eq_Suc [of "num.One"])
  next
    case 3
    define a b d where "a = s0 - 224" and "b = s1 - 128" and "d = s2 - 128"
    have s: "s0 = a + 224" "s1 = b + 128" "s2 = d + 128" "b < 64" "d < 64" "a < 16"
      using 3(1-4) by (auto simp: a_def b_def d_def is_cont_def)
    have x: "\<not> (a = 0 \<and> b < 32)" "\<not> (a = 13 \<and> 32 \<le> b)" "\<not> (a = 15 \<and> b = 63 \<and> 62 \<le> d)"
      using 3(5-7) s(1-3) by auto
    have c: "c = a * 4096 + b * 64 + d" using 3(8) by (simp add: a_def b_def d_def)
    have "c = (a * 64 + b) * 64 + d" using c by simp
    then have q: "c mod 64 = d" "c div 64 = a * 64 + b"
      using digit_64 [OF s(5), of "a * 64 + b"] by (simp_all only:)
    have "c div 4096 = c div 64 div 64" by (simp add: div_mult2_eq [symmetric])
    then have "c div 4096 = a" "c div 64 mod 64 = b"
      using digit_64 [OF s(4), of a] unfolding q(2) by simp_all
    moreover have "0x800 \<le> c" "c < 0x10000" using c s x(1) by auto
    moreover have "\<not> (0xD800 \<le> c \<and> c \<le> 0xDFFF)"
    proof
      assume "0xD800 \<le> c \<and> c \<le> 0xDFFF"
      moreover from this have "a = 13" using c s(4,5) by linarith
      ultimately show False using c s(5) x(2) by linarith
    qed
    moreover have "c < 0xFFFE"
    proof (rule ccontr)
      assume "\<not> c < 0xFFFE"
      moreover from this have "a = 15" using c s(4-6) by linarith
      moreover from calculation have "b = 63" using c s(4,5) by linarith
      ultimately show False using c x(3) by linarith
    qed
    ultimately show ?thesis using 3(9) s(1-3) q(1) by (simp add: utf8_bytes_def utf8_valid_def)
  next
    case 4
    define a b d e where "a = s0 - 240" and "b = s1 - 128" and "d = s2 - 128" and "e = s3 - 128"
    have s: "s0 = a + 240" "s1 = b + 128" "s2 = d + 128" "s3 = e + 128" "b < 64" "d < 64" "e < 64" "a \<le> 4"
      using 4(1-5) by (auto simp: a_def b_def d_def e_def is_cont_def)
    have x: "\<not> (a = 0 \<and> b < 16)" "\<not> (a = 4 \<and> 15 < b)" using 4(6,7) s(1-2) by auto
    have c: "c = a * 262144 + b * 4096 + d * 64 + e" using 4(8) by (simp add: a_def b_def d_def e_def)
    have "c = ((a * 64 + b) * 64 + d) * 64 + e" using c by simp
    then have q: "c mod 64 = e" "c div 64 = (a * 64 + b) * 64 + d"
      using digit_64 [OF s(7), of "(a * 64 + b) * 64 + d"] by (simp_all only:)
    have "c div 4096 = c div 64 div 64" by (simp add: div_mult2_eq [symmetric])
    then have q2: "c div 4096 = a * 64 + b" "c div 64 mod 64 = d"
      using digit_64 [OF s(6), of "a * 64 + b"] unfolding q(2) by (simp_all only:)
    have "c div 262144 = c div 4096 div 64" by (simp add: div_mult2_eq [symmetric])
    then have "c div 262144 = a" "c div 4096 mod 64 = b"
      using digit_64 [OF s(5), of a] unfolding q2(1) by simp_all
    moreover have "0x10000 \<le> c" "c \<le> 0x10FFFF" using c s(5-8) x by auto
    ultimately show ?thesis using 4(9) s(1-4) q(1) q2(2) by (simp add: utf8_bytes_def utf8_valid_def)
qed

lemma utf8_bytes_256: "utf8_valid c \<Longrightarrow> b \<in> set (utf8_bytes c) \<Longrightarrow> b < 256"
proof -
  assume v: "utf8_valid c" and b: "b \<in> set (utf8_bytes c)"
  have m: "128 + x mod 64 < 256" for x :: nat
    using mod_less_divisor [of 64 x] by (simp del: mod_less_divisor)
  have d: "c < 0x800 \<Longrightarrow> c div 64 < 64" "c < 0x10000 \<Longrightarrow> c div 4096 < 32" "c div 262144 < 16"
    using v unfolding utf8_valid_def by linarith+
  consider "c < 0x80" "b = c" | "c < 0x800" "b = 192 + c div 64" | "c < 0x10000" "b = 224 + c div 4096"
    | "b = 240 + c div 262144" | x where "b = 128 + x mod 64"
    using b unfolding utf8_bytes_def by (auto split: if_splits)
  then show "b < 256" using m d by cases auto
qed

lemma byte_at_encode:
  assumes "utf8_valid c" and "take (length (utf8_bytes c)) s = utf8_encode c" and "i < length (utf8_bytes c)"
  shows "byte_at s i = utf8_bytes c ! i"
proof -
  have len: "length (take (length (utf8_bytes c)) s) = length (utf8_bytes c)"
    unfolding assms(2) by (simp add: utf8_encode_def)
  then have "i < length s" using assms(3) by simp
  moreover have "s ! i = char_of (utf8_bytes c ! i)"
    using arg_cong [OF assms(2), of "\<lambda>t. t ! i"] assms(3) by (simp add: utf8_encode_def)
  moreover have "utf8_bytes c ! i < 256" using utf8_bytes_256 [OF assms(1)] assms(3) by simp
  ultimately show ?thesis by (simp add: byte_at_def)
qed

lemma not_cont_0: "\<not> is_cont 0"
  by (simp add: is_cont_def)

lemma nth_four: "i < 4 \<Longrightarrow> [f 0, f 1, f 2, f 3] ! i = f i"
  by (auto simp: less_Suc_eq numeral_eq_Suc)

lemma utf8_char_iff:
  assumes "s \<noteq> []"
  shows "utf8_char s r = Some (c, n) \<longleftrightarrow>
    utf8_valid c \<and> n = length (utf8_encode c) \<and> n \<le> r \<and> take n s = utf8_encode c"
proof
  assume a: "utf8_char s r = Some (c, n)"
  then have u: "utf8_of_bytes (byte_at s 0) (byte_at s 1) (byte_at s 2) (byte_at s 3) = Some (c, n)" and r: "n \<le> r"
    unfolding utf8_char_arith by (simp_all split: option.split_asm prod.split_asm if_split_asm)
  note e = utf8_bytes_encode [OF u]
  have n: "n = length (utf8_bytes c)" using e by (elim conjE)
  have "n \<le> 4" unfolding n by (simp add: utf8_bytes_def)
  have nz: "i < length s" if "i < n" for i
  proof (rule ccontr)
    assume "\<not> i < length s"
    then have z: "byte_at s i = 0" by (simp add: byte_at_def)
    have "0 < i" using assms \<open>\<not> i < length s\<close> by (cases i) auto
    moreover have "i < 4" using that \<open>n \<le> 4\<close> by simp
    ultimately have i: "i = 1 \<or> i = 2 \<or> i = 3" by linarith
    then show False
    proof (cases rule: utf8_of_bytes_cases [OF u])
      case 1 then show False using that \<open>0 < i\<close> by linarith
    next
      case 2 then show False using that \<open>0 < i\<close> z not_cont_0 by (metis less_2_cases less_irrefl One_nat_def)
    next
      case 3 then show False using i that z not_cont_0 by auto
    next
      case 4 then show False using i that z not_cont_0 by auto
    qed
  qed
  then have len: "n \<le> length s" by (meson not_less order_less_irrefl)
  have "take n s = map char_of (take n [byte_at s 0, byte_at s 1, byte_at s 2, byte_at s 3])"
  proof (rule nth_equalityI)
    show "length (take n s) = length (map char_of (take n [byte_at s 0, byte_at s 1, byte_at s 2, byte_at s 3]) :: string)"
      using len \<open>n \<le> 4\<close> by simp
    fix i assume "i < length (take n s)"
    then have i: "i < n" "i < length s" by auto
    then have "[byte_at s 0, byte_at s 1, byte_at s 2, byte_at s 3] ! i = byte_at s i"
      using \<open>n \<le> 4\<close> nth_four [of i "byte_at s"] by simp
    moreover have "char_of (byte_at s i) = s ! i" using i by (simp add: byte_at_def)
    ultimately show "take n s ! i = map char_of (take n [byte_at s 0, byte_at s 1, byte_at s 2, byte_at s 3]) ! i"
      using i \<open>n \<le> 4\<close> by simp
  qed
  moreover have "utf8_valid c" "take n [byte_at s 0, byte_at s 1, byte_at s 2, byte_at s 3] = utf8_bytes c"
    using conjunct1 [OF e] conjunct1 [OF conjunct2 [OF e], symmetric] by this+
  ultimately have "take n s = utf8_encode c" by (simp only: utf8_encode_def)
  moreover have "n = length (utf8_encode c)" using n by (simp only: utf8_encode_def length_map)
  ultimately show "utf8_valid c \<and> n = length (utf8_encode c) \<and> n \<le> r \<and> take n s = utf8_encode c"
    using r \<open>utf8_valid c\<close> by blast
next
  assume a: "utf8_valid c \<and> n = length (utf8_encode c) \<and> n \<le> r \<and> take n s = utf8_encode c"
  then have v: "utf8_valid c" and n: "n = length (utf8_bytes c)" and r: "n \<le> r"
    and t: "take (length (utf8_bytes c)) s = utf8_encode c"
    unfolding utf8_encode_def length_map by auto
  have b: "byte_at s i = utf8_bytes c ! i" if "i < length (utf8_bytes c)" for i
    by (rule byte_at_encode [OF v t that])
  have "utf8_of_bytes (byte_at s 0) (byte_at s 1) (byte_at s 2) (byte_at s 3) = Some (c, n)"
    using utf8_bytes_decode [OF v]
  proof (elim disjE exE conjE)
    fix s0 assume "utf8_bytes c = [s0]" "s0 < 128" "c = s0"
    then show ?thesis using b [of 0] n by (simp add: utf8_of_bytes_def)
  next
    fix s0 s1 assume h: "utf8_bytes c = [s0, s1]" "\<forall>s2 s3. utf8_of_bytes s0 s1 s2 s3 = Some (c, 2)"
    then show ?thesis using b [of 0] b [of 1] n by simp
  next
    fix s0 s1 s2 assume h: "utf8_bytes c = [s0, s1, s2]" "\<forall>s3. utf8_of_bytes s0 s1 s2 s3 = Some (c, 3)"
    then show ?thesis using b [of 0] b [of 1] b [of 2] n by (simp add: numeral_eq_Suc)
  next
    fix s0 s1 s2 s3 assume h: "utf8_bytes c = [s0, s1, s2, s3]" "utf8_of_bytes s0 s1 s2 s3 = Some (c, 4)"
    then show ?thesis using b [of 0] b [of 1] b [of 2] b [of 3] n by (simp add: numeral_eq_Suc)
  qed
  then show "utf8_char s r = Some (c, n)" using r by (simp add: utf8_char_arith)
qed

text \<open>
  C39. \<^verbatim>\<open>pick_one_utf8_char\<close> decodes exactly the UTF-8 encodings (RFC 3629) of code points
  that are no surrogates, not U+FFFE or U+FFFF and at most U+10FFFF, when the remainder covers all bytes; it moves behind the
  encoding and reduces the remainder by its length. Overlong forms, stray and missing continuation bytes and truncated text give no position.
\<close>

theorem pick_one_utf8_char_spec:
  "start \<noteq> [] \<Longrightarrow>
   pick_one_utf8_char start (Some r) = (c, Some rest, Some r') \<longleftrightarrow>
   utf8_valid c \<and> start = utf8_encode c @ rest \<and> r = length (utf8_encode c) + r'"
proof -
  assume ne: "start \<noteq> []"
  have "pick_one_utf8_char start (Some r) = (c, Some rest, Some r') \<longleftrightarrow>
      (\<exists>n. utf8_char start r = Some (c, n) \<and> rest = drop n start \<and> r' = r - n)"
    by (auto simp: pick_one_utf8_char_def split: option.splits)
  also have "\<dots> \<longleftrightarrow> utf8_valid c \<and> start = utf8_encode c @ rest \<and> r = length (utf8_encode c) + r'"
    unfolding utf8_char_iff [OF ne]
    by (auto, metis append_take_drop_id)
  finally show ?thesis .
qed

lemma pick_one_utf8_char_spec_witness:
  "pick_one_utf8_char [CHR 0xC3, CHR 0xA9, CHR ''x''] (Some 3) = (0xE9, Some ''x'', Some 1)"
proof -
  have "utf8_valid 0xE9" by (simp add: utf8_valid_def)
  moreover have "utf8_encode 0xE9 = [CHR 0xC3, CHR 0xA9]" by (simp add: utf8_encode_def utf8_bytes_def char_of_def, code_simp)
  ultimately show ?thesis by (subst pick_one_utf8_char_spec) simp_all
qed

end
