(* ===== verification/Verify_Path.thy ===== *)
theory Verify_Path
  imports Utf8 Ctype Path
begin

text \<open>
  Which paths may enter the index (\<^verbatim>\<open>verify_path\<close> in \<^verbatim>\<open>read-cache.c\<close>), with the two functions that recognize
  a name which some file system takes for \<open>.git\<close>: HFS+, which ignores some code points (\<^verbatim>\<open>utf8.c\<close>), and
  NTFS, with its short names and its trailing blanks and dots (\<^verbatim>\<open>path.c\<close>).
\<close>

section \<open>Names that mean .git\<close>

definition hfs_ignored :: "nat \<Rightarrow> bool" where
  "hfs_ignored out \<longleftrightarrow>
     out \<in> {0x200c, 0x200d, 0x200e, 0x200f, 0x202a, 0x202b, 0x202c, 0x202d, 0x202e,
            0x206a, 0x206b, 0x206c, 0x206d, 0x206e, 0x206f, 0xfeff}"

lemma utf8_char_incr: "utf8_char s r = Some (ch, incr) \<Longrightarrow> 0 < incr"
  by (auto simp: utf8_char_def Let_def split: if_splits)

lemma utf8_char_Nil: "0 < r \<Longrightarrow> utf8_char [] r = Some (0, 1)"
  by (simp add: utf8_char_def byte_at_def)

text \<open>Behind the end of the text the pointer is not used again, so it stays there.\<close>

function next_hfs_char :: "string \<Rightarrow> nat \<times> string option" where
  "next_hfs_char in' =
     (case utf8_char in' 999 of
        None \<Rightarrow> (0, None)
      | Some (out, incr) \<Rightarrow>
          if hfs_ignored out then next_hfs_char (drop incr in') else (out, Some (drop incr in')))"
  by pat_completeness auto

termination
  by (relation "measure length")
    (auto simp: hfs_ignored_def utf8_char_Nil dest: utf8_char_incr intro: diff_less)

declare next_hfs_char.simps [simp del]

definition hfs_one_of :: "char list \<Rightarrow> string option \<Rightarrow> string option" where
  "hfs_one_of cs path =
     (case path of None \<Rightarrow> None
      | Some p \<Rightarrow> (case next_hfs_char p of
            (c, rest) \<Rightarrow> if c \<in> of_char ` set cs then rest else None))"

definition is_hfs_dotgit :: "string \<Rightarrow> bool" where
  "is_hfs_dotgit path =
     (case hfs_one_of ''tT'' (hfs_one_of ''iI'' (hfs_one_of ''gG'' (hfs_one_of ''.'' (Some path)))) of
        None \<Rightarrow> False
      | Some p \<Rightarrow> (case next_hfs_char p of (c, rest) \<Rightarrow> c = 0 \<or> c = of_char (CHR ''/'')))"

definition only_spaces_and_periods :: "string \<Rightarrow> nat \<Rightarrow> nat \<Rightarrow> bool" where
  "only_spaces_and_periods path len skip =
     (if len < skip then False
      else list_all (\<lambda>c. c = CHR '' '' \<or> c = CHR ''.'') (take (len - skip) (drop skip path)))"

fun strncasecmp_eq :: "string \<Rightarrow> string \<Rightarrow> nat \<Rightarrow> bool" where
  "strncasecmp_eq s t 0 = True"
| "strncasecmp_eq s t (Suc n) =
     (tolower (peek s) = tolower (peek t) \<and> (peek s = NUL \<or> strncasecmp_eq (tl s) (tl t) n))"

function is_ntfs_dotgit_from :: "string \<Rightarrow> nat \<Rightarrow> bool" where
  "is_ntfs_dotgit_from name len =
     (let c = peek (drop len name)
      in if c = NUL \<or> c = CHR 0x5C \<or> is_dir_sep c
         then if only_spaces_and_periods name len 4 \<and> strncasecmp_eq name ''.git'' 4 then True
              else if only_spaces_and_periods name len 5 \<and> strncasecmp_eq name ''git~1'' 5 then True
              else if c \<noteq> CHR 0x5C then False
              else is_ntfs_dotgit_from (drop (len + 1) name) 0
         else is_ntfs_dotgit_from name (len + 1))"
  by pat_completeness auto

termination
proof (relation "measures [\<lambda>(name, len). length name, \<lambda>(name, len). length name - len]", goal_cases)
  case (2 name len c)
  then have "drop len name \<noteq> []" by (cases "drop len name") auto
  then show ?case by auto
next
  case (3 name len c)
  then have "drop len name \<noteq> []" by (cases "drop len name") auto
  then show ?case by auto
qed simp

declare is_ntfs_dotgit_from.simps [simp del]

definition is_ntfs_dotgit :: "string \<Rightarrow> bool" where
  "is_ntfs_dotgit name = is_ntfs_dotgit_from name 0"

section \<open>Paths for the index\<close>

definition verify_dotfile :: "string \<Rightarrow> bool" where
  "verify_dotfile rest =
     (if peek rest = NUL \<or> is_dir_sep (peek rest) then False
      else let last = (if peek rest = CHR ''g'' \<or> peek rest = CHR ''G''
                       then if peek (drop 1 rest) \<noteq> CHR ''i'' \<and> peek (drop 1 rest) \<noteq> CHR ''I'' then None
                            else if peek (drop 2 rest) \<noteq> CHR ''t'' \<and> peek (drop 2 rest) \<noteq> CHR ''T'' then None
                            else Some (drop 2 rest)
                       else if peek rest = DOT then Some rest else None)
           in case last of None \<Rightarrow> True
              | Some rest \<Rightarrow> \<not> (peek (drop 1 rest) = NUL \<or> is_dir_sep (peek (drop 1 rest))))"

lemma peek_length:
  "peek s \<noteq> NUL \<Longrightarrow> length s - Suc 0 < length s"
  "peek s \<noteq> NUL \<Longrightarrow> Suc (2 * (length s - Suc (Suc 0))) < 2 * length s"
  by (cases s; auto)+

text \<open>
  The loop: \<open>c\<close> has just been read and \<open>path\<close> is behind it. A separator and the beginning of the path lead
  to the tests on the component that starts at \<open>path\<close>.
\<close>

function verify_loop :: "bool \<Rightarrow> bool \<Rightarrow> char \<Rightarrow> string \<Rightarrow> bool"
  and verify_inside :: "bool \<Rightarrow> bool \<Rightarrow> string \<Rightarrow> bool" where
  "verify_loop protect_hfs protect_ntfs c path =
     (if c = NUL then True
      else if is_dir_sep c then verify_inside protect_hfs protect_ntfs path
      else verify_loop protect_hfs protect_ntfs (peek path) (tl path))"
| "verify_inside protect_hfs protect_ntfs path =
     (if protect_hfs \<and> is_hfs_dotgit path then False
      else if protect_ntfs \<and> is_ntfs_dotgit path then False
      else let c = peek path; path = tl path
           in if c = DOT \<and> \<not> verify_dotfile path \<or> is_dir_sep c \<or> c = NUL then False
              else verify_loop protect_hfs protect_ntfs (peek path) (tl path))"
  by pat_completeness auto

termination
  by (relation "measure (\<lambda>x. case x of
        Inl (h, n, c, path) \<Rightarrow> 2 * length path + (if c = NUL then 0 else 2)
      | Inr (h, n, path) \<Rightarrow> 2 * length path + 1)")
    (auto split: if_splits intro: peek_length)

declare verify_loop.simps [simp del] verify_inside.simps [simp del]

definition verify_path :: "bool \<Rightarrow> bool \<Rightarrow> string \<Rightarrow> bool" where
  "verify_path protect_hfs protect_ntfs path = verify_inside protect_hfs protect_ntfs path"

section \<open>What the functions on names test\<close>

text \<open>The code points of a name that HFS+ does not ignore, up to its end or the first malformed byte.\<close>

function hfs_points :: "string \<Rightarrow> nat list" where
  "hfs_points s =
     (if s = [] then []
      else case utf8_char s 999 of
        None \<Rightarrow> []
      | Some (c, n) \<Rightarrow>
          if c = 0 \<or> c = of_char (CHR ''/'') then []
          else if hfs_ignored c then hfs_points (drop n s) else c # hfs_points (drop n s))"
  by pat_completeness auto

termination
  by (relation "measure length") (auto dest: utf8_char_incr intro: diff_less)

declare hfs_points.simps [simp del]

lemma hfs_points_Nil [simp]: "hfs_points [] = []"
  by (simp add: hfs_points.simps)

definition points_dotgit :: "string \<Rightarrow> bool" where
  "points_dotgit s \<longleftrightarrow>
     list_all2 (\<lambda>c cs. c \<in> of_char ` set cs) (hfs_points s) [''.'', ''gG'', ''iI'', ''tT'']"

text \<open>Behind its ignored code points a text begins with its first point, or it is at its end.\<close>

lemma next_hfs_points:
  "case next_hfs_char s of
     (c, None) \<Rightarrow> c = 0 \<and> hfs_points s = []
   | (c, Some rest) \<Rightarrow> if c = 0 \<or> c = of_char (CHR ''/'') then hfs_points s = []
                      else hfs_points s = c # hfs_points rest"
proof (induction s rule: next_hfs_char.induct)
  case (1 s)
  show ?case
  proof (cases "utf8_char s 999")
    case None
    then show ?thesis by (subst next_hfs_char.simps) (simp add: hfs_points.simps [of s])
  next
    case (Some p)
    obtain c n where p: "p = (c, n)" by fastforce
    show ?thesis
    proof (cases "s = []")
      case True
      then have "next_hfs_char s = (0, Some [])"
        by (subst next_hfs_char.simps) (simp add: utf8_char_Nil hfs_ignored_def)
      then show ?thesis using True by simp
    next
      case ne: False
      show ?thesis
      proof (cases "hfs_ignored c")
        case True
        then have "c \<noteq> 0" "c \<noteq> of_char (CHR ''/'')" by (auto simp: hfs_ignored_def)
        then have h: "hfs_points s = hfs_points (drop n s)"
          using ne True Some p by (simp add: hfs_points.simps [of s])
        have "next_hfs_char s = next_hfs_char (drop n s)"
          using True Some p by (simp add: next_hfs_char.simps [of s])
        then show ?thesis using 1 [OF Some p [symmetric] True] by (simp only: h)
      next
        case False
        then show ?thesis using ne Some p by (subst next_hfs_char.simps) (simp add: hfs_points.simps [of s])
      qed
    qed
  qed
qed

lemma hfs_one_of_None: "hfs_one_of cs None = None"
  by (simp add: hfs_one_of_def)

lemma hfs_one_of_points:
  assumes "(0 :: nat) \<notin> of_char ` set cs" and "of_char (CHR ''/'') \<notin> (of_char ` set cs :: nat set)"
  shows "case hfs_one_of cs (Some s) of
      None \<Rightarrow> (case hfs_points s of [] \<Rightarrow> True | c # ps \<Rightarrow> c \<notin> of_char ` set cs)
    | Some rest \<Rightarrow> (\<exists>c. c \<in> of_char ` set cs \<and> hfs_points s = c # hfs_points rest)"
  using next_hfs_points [of s] assms
  by (cases "next_hfs_char s") (auto simp: hfs_one_of_def split: option.splits if_splits list.splits)

lemma hfs_one_of_cases:
  assumes "cs \<in> {''.'', ''gG'', ''iI'', ''tT''}"
  obtains (no) "hfs_one_of cs (Some s) = None" "\<And>c ps. hfs_points s = c # ps \<Longrightarrow> c \<notin> of_char ` set cs"
  | (yes) rest c where "hfs_one_of cs (Some s) = Some rest" "c \<in> of_char ` set cs" "hfs_points s = c # hfs_points rest"
proof (cases "hfs_one_of cs (Some s)")
  case None
  then show thesis using hfs_one_of_points [of cs s] assms by (intro no) (auto split: list.splits)
next
  case (Some rest)
  then show thesis using hfs_one_of_points [of cs s] assms yes by auto
qed

lemma dotgit_sets:
  "''.'' \<in> {''.'', ''gG'', ''iI'', ''tT''}" "''gG'' \<in> {''.'', ''gG'', ''iI'', ''tT''}"
  "''iI'' \<in> {''.'', ''gG'', ''iI'', ''tT''}" "''tT'' \<in> {''.'', ''gG'', ''iI'', ''tT''}"
  by simp_all

lemma is_hfs_dotgit_points: "is_hfs_dotgit path = points_dotgit path"
  using dotgit_sets(1)
proof (cases rule: hfs_one_of_cases [of _ path])
  case no
  then show ?thesis by (cases "hfs_points path") (auto simp: is_hfs_dotgit_def points_dotgit_def hfs_one_of_None)
next
  case 1: (yes p1 c1)
  show ?thesis
    using dotgit_sets(2)
  proof (cases rule: hfs_one_of_cases [of _ p1])
    case no
    then show ?thesis using 1 by (cases "hfs_points p1") (auto simp: is_hfs_dotgit_def points_dotgit_def hfs_one_of_None)
  next
    case 2: (yes p2 c2)
    show ?thesis
      using dotgit_sets(3)
    proof (cases rule: hfs_one_of_cases [of _ p2])
      case no
      then show ?thesis using 1 2 by (cases "hfs_points p2") (auto simp: is_hfs_dotgit_def points_dotgit_def hfs_one_of_None)
    next
      case 3: (yes p3 c3)
      show ?thesis
        using dotgit_sets(4)
      proof (cases rule: hfs_one_of_cases [of _ p3])
        case no
        then show ?thesis using 1 2 3 by (cases "hfs_points p3") (auto simp: is_hfs_dotgit_def points_dotgit_def hfs_one_of_None)
      next
        case 4: (yes p4 c4)
        have "is_hfs_dotgit path = (hfs_points p4 = [])"
          using next_hfs_points [of p4] 1(1) 2(1) 3(1) 4(1)
          by (cases "next_hfs_char p4") (auto simp: is_hfs_dotgit_def split: option.splits if_splits)
        then show ?thesis using 1 2 3 4 by (simp add: points_dotgit_def)
      qed
    qed
  qed
qed

text \<open>A name ends for these functions where its component ends.\<close>

lemma utf8_encode_slash: "utf8_valid c \<Longrightarrow> CHR ''/'' \<in> set (utf8_encode c) \<Longrightarrow> utf8_encode c = ''/''"
proof -
  assume v: "utf8_valid c" and "CHR ''/'' \<in> set (utf8_encode c)"
  then obtain b where b: "b \<in> set (utf8_bytes c)" "char_of b = CHR ''/''" by (auto simp: utf8_encode_def)
  have "b = 47" using utf8_bytes_256 [OF v b(1)] arg_cong [OF b(2), of "of_char :: char \<Rightarrow> nat"] by simp
  then have "c = 47" using b(1) by (auto simp: utf8_bytes_def split: if_split_asm)
  then have "utf8_encode c = [char_of b]" using \<open>b = 47\<close> by (simp add: utf8_encode_def utf8_bytes_def)
  then show ?thesis using b(2) by simp
qed

lemma utf8_char_slash:
  assumes "CHR ''/'' \<notin> set d" and "d \<noteq> []"
  shows "utf8_char (d @ CHR ''/'' # rest) r = utf8_char d r"
proof -
  have *: "(n = length (utf8_encode c) \<and> take n (d @ CHR ''/'' # rest) = utf8_encode c \<longleftrightarrow>
      n = length (utf8_encode c) \<and> take n d = utf8_encode c)" if v: "utf8_valid c" for c n
  proof (cases "n \<le> length d")
    case False
    have "take n (d @ CHR ''/'' # rest) \<noteq> utf8_encode c"
    proof
      assume t: "take n (d @ CHR ''/'' # rest) = utf8_encode c"
      then have "CHR ''/'' \<in> set (utf8_encode c)" using False by (metis append_take_drop_id in_set_conv_decomp less_eq_Suc_le not_less take_append take_all nat_less_le set_take_subset Suc_diff_Suc take_Suc_Cons)
      from utf8_encode_slash [OF v this] t have "take n (d @ CHR ''/'' # rest) = ''/''" by simp
      then show False using assms False by (cases d; cases n) auto
    qed
    moreover have "\<not> (n = length (utf8_encode c) \<and> take n d = utf8_encode c)"
      using False by (metis length_take linear min.absorb1 min_def)
    ultimately show ?thesis by blast
  qed simp
  have "utf8_char (d @ CHR ''/'' # rest) r = Some (c, n) \<longleftrightarrow> utf8_char d r = Some (c, n)" for c n
    using * [of c n] assms(2) by (auto simp: utf8_char_iff)
  then show ?thesis by (metis not_Some_eq surj_pair)
qed

lemma hfs_points_slash: "CHR ''/'' \<notin> set d \<Longrightarrow> hfs_points (d @ CHR ''/'' # rest) = hfs_points d"
proof (induction d rule: hfs_points.induct)
  case (1 d)
  show ?case
  proof (cases "d = []")
    case True
    have "utf8_char (CHR ''/'' # rest) 999 = Some (47, 1)"
      by (simp add: utf8_char_def byte_at_def)
    then show ?thesis using True by (simp add: hfs_points.simps)
  next
    case ne: False
    show ?thesis
    proof (cases "utf8_char d 999")
      case None
      then show ?thesis using utf8_char_slash [OF 1(3) ne] ne
        by (subst (1 2) hfs_points.simps) simp
    next
      case (Some p)
      obtain c n where p: "p = (c, n)" by fastforce
      have "take n d = utf8_encode c" "n = length (utf8_encode c)" using Some p utf8_char_iff [OF ne] by auto
      then have "n \<le> length d" by (metis length_take min.cobounded1)
      then have dr: "drop n (d @ CHR ''/'' # rest) = drop n d @ CHR ''/'' # rest" by simp
      have ns: "CHR ''/'' \<notin> set (drop n d)" using 1(3) by (meson in_set_dropD)
      show ?thesis
        using 1(1) [OF ne Some p [symmetric] _ _ ns] 1(2) [OF ne Some p [symmetric] _ _ ns] ne Some p
          utf8_char_slash [OF 1(3) ne]
        by (subst (1 2) hfs_points.simps) (simp add: dr del: drop_append)
    qed
  qed
qed

section \<open>HFS+\<close>

text \<open>
  The reference: the spellings of \<open>.git\<close> that HFS+ does not tell apart. They are sequences of code points, encoded
  as RFC 3629 prescribes, that are the letters in either case and any number of invisible characters: zero width (non-)joiners and
  direction marks, direction embeddings and overrides, the deprecated format characters, and the zero width no-break space.
\<close>

definition invisible :: "nat \<Rightarrow> bool" where
  "invisible c \<longleftrightarrow> 0x200C \<le> c \<and> c \<le> 0x200F \<or> 0x202A \<le> c \<and> c \<le> 0x202E \<or> 0x206A \<le> c \<and> c \<le> 0x206F \<or> c = 0xFEFF"

definition utf8_text :: "nat list \<Rightarrow> string" where
  "utf8_text cs = concat (map utf8_encode cs)"

definition hfs_spelling :: "nat list \<Rightarrow> bool" where
  "hfs_spelling cs \<longleftrightarrow> list_all utf8_valid cs \<and>
     list_all2 (\<in>) (filter (\<lambda>c. \<not> invisible c) cs) [{0x2E}, {0x67, 0x47}, {0x69, 0x49}, {0x74, 0x54}]"

definition hfs_dotgit :: "string \<Rightarrow> bool" where
  "hfs_dotgit d \<longleftrightarrow> (\<exists>cs. hfs_spelling cs \<and> d = utf8_text cs)"

text \<open>Text that does not begin with an encoding, and a name that goes on with such text behind a spelling.\<close>

definition malformed :: "string \<Rightarrow> bool" where
  "malformed s \<longleftrightarrow> s \<noteq> [] \<and> (\<forall>c r. utf8_valid c \<longrightarrow> s \<noteq> utf8_encode c @ r)"

definition hfs_dotgit_malformed :: "string \<Rightarrow> bool" where
  "hfs_dotgit_malformed d \<longleftrightarrow> (\<exists>cs rest. hfs_spelling cs \<and> malformed rest \<and> d = utf8_text cs @ rest)"

lemma hfs_ignored_invisible: "hfs_ignored c = invisible c"
  by (auto simp: hfs_ignored_def invisible_def)

lemma utf8_encode_length: "0 < length (utf8_encode c)" "length (utf8_encode c) \<le> 4"
  by (simp_all add: utf8_encode_def utf8_bytes_def)

lemma utf8_char_encode: "utf8_valid c \<Longrightarrow> utf8_char (utf8_encode c @ s) 999 = Some (c, length (utf8_encode c))"
  using utf8_encode_length [of c] by (subst utf8_char_iff) auto

lemma utf8_char_malformed: "malformed s \<Longrightarrow> utf8_char s 999 = None"
proof (rule ccontr)
  assume m: "malformed s" and "utf8_char s 999 \<noteq> None"
  then obtain c n where "utf8_char s 999 = Some (c, n)" by auto
  with m have "utf8_valid c" "take n s = utf8_encode c"
    using utf8_char_iff [of s 999 c n] by (auto simp: malformed_def)
  then show False using m by (metis malformed_def append_take_drop_id)
qed

lemma utf8_parse: "\<exists>cs rest. s = utf8_text cs @ rest \<and> list_all utf8_valid cs \<and> (rest = [] \<or> malformed rest)"
proof (induction s rule: length_induct)
  case (1 s)
  show ?case
  proof (cases "s = [] \<or> malformed s")
    case True
    then show ?thesis by (intro exI [of _ "[]"] exI [of _ s]) (simp add: utf8_text_def)
  next
    case False
    then obtain c r where c: "utf8_valid c" "s = utf8_encode c @ r" by (auto simp: malformed_def)
    then obtain cs rest where "r = utf8_text cs @ rest" "list_all utf8_valid cs" "rest = [] \<or> malformed rest"
      using 1 [rule_format, of r] utf8_encode_length [of c] by auto
    with c show ?thesis by (intro exI [of _ "c # cs"] exI [of _ rest]) (simp add: utf8_text_def)
  qed
qed

lemma utf8_encode_ascii: "utf8_encode 0 = [NUL]" "utf8_encode 47 = ''/''"
  by code_simp+

lemma hfs_points_text:
  "list_all utf8_valid cs \<Longrightarrow> rest = [] \<or> malformed rest \<Longrightarrow> NUL \<notin> set (utf8_text cs) \<Longrightarrow> CHR ''/'' \<notin> set (utf8_text cs) \<Longrightarrow>
   hfs_points (utf8_text cs @ rest) = filter (\<lambda>c. \<not> invisible c) cs"
proof (induction cs)
  case Nil
  then show ?case by (auto simp: utf8_text_def hfs_points.simps [of rest] utf8_char_malformed)
next
  case (Cons c cs)
  have t: "utf8_text (c # cs) = utf8_encode c @ utf8_text cs" by (simp add: utf8_text_def)
  have c: "c \<noteq> 0" using Cons.prems(3) utf8_encode_ascii(1) by (intro notI) (simp add: utf8_text_def)
  have d: "c \<noteq> 47" using Cons.prems(4) utf8_encode_ascii(2) by (intro notI) (simp add: utf8_text_def)
  have "hfs_points (utf8_text cs @ rest) = filter (\<lambda>c. \<not> invisible c) cs"
    using Cons by (simp add: t)
  moreover have "utf8_encode c \<noteq> []" using utf8_encode_length(1) [of c] by auto
  ultimately show ?case
    using c d Cons.prems(1) utf8_char_encode [of c "utf8_text cs @ rest"]
    by (simp add: hfs_points.simps [of "utf8_encode c @ utf8_text cs @ rest"] t hfs_ignored_invisible)
qed

lemma points_dotgit_spelling:
  assumes "NUL \<notin> set d" and "CHR ''/'' \<notin> set d"
  shows "points_dotgit d \<longleftrightarrow> hfs_dotgit d \<or> hfs_dotgit_malformed d"
proof -
  have sets: "list_all2 (\<lambda>c cs. c \<in> of_char ` set cs) ps [''.'', ''gG'', ''iI'', ''tT''] \<longleftrightarrow>
      list_all2 (\<in>) ps [{0x2E}, {0x67, 0x47}, {0x69, 0x49}, {0x74, 0x54}]" for ps :: "nat list"
    by (simp add: list_all2_Cons2)
  have p: "points_dotgit (utf8_text cs @ rest) \<longleftrightarrow> hfs_spelling cs"
    if "d = utf8_text cs @ rest" "list_all utf8_valid cs" "rest = [] \<or> malformed rest" for cs rest
    using assms that hfs_points_text [of cs rest] by (simp add: points_dotgit_def hfs_spelling_def sets)
  obtain cs rest where d: "d = utf8_text cs @ rest" "list_all utf8_valid cs" "rest = [] \<or> malformed rest"
    using utf8_parse by blast
  then have "points_dotgit d \<Longrightarrow> hfs_dotgit d \<or> hfs_dotgit_malformed d"
    using p [OF d] by (auto simp: hfs_dotgit_def hfs_dotgit_malformed_def)
  moreover have "points_dotgit d" if "hfs_dotgit d"
    using that p [of _ "[]"] by (auto simp: hfs_dotgit_def hfs_spelling_def)
  moreover have "points_dotgit d" if "hfs_dotgit_malformed d"
    using that p by (auto simp: hfs_dotgit_malformed_def hfs_spelling_def)
  ultimately show ?thesis by blast
qed

section \<open>NTFS\<close>

definition is_blank :: "char \<Rightarrow> bool" where
  "is_blank c \<longleftrightarrow> c = CHR '' '' \<or> c = CHR ''.''"

text \<open>A name that NTFS takes for \<open>.git\<close>: the name or its short form, and then blanks and dots.\<close>

definition ntfs_part :: "string \<Rightarrow> string \<Rightarrow> bool" where
  "ntfs_part g p \<longleftrightarrow> map tolower (take (length g) p) = g \<and> list_all is_blank (drop (length g) p)"

definition ntfs_name :: "string \<Rightarrow> bool" where
  "ntfs_name p \<longleftrightarrow> ntfs_part ''.git'' p \<or> ntfs_part ''git~1'' p"

fun split_backslash :: "string \<Rightarrow> string list" where
  "split_backslash [] = [[]]"
| "split_backslash (c # s) =
     (if c = CHR 0x5C then [] # split_backslash s
      else case split_backslash s of [] \<Rightarrow> [[c]] | d # ds \<Rightarrow> (c # d) # ds)"

definition ntfs_dotgit :: "string \<Rightarrow> bool" where
  "ntfs_dotgit d \<longleftrightarrow> (\<exists>p \<in> set (split_backslash d). ntfs_name p)"

lemma split_backslash_seg: "CHR 0x5C \<notin> set p \<Longrightarrow> split_backslash (p @ CHR 0x5C # s) = p # split_backslash s"
  by (induction p) auto

lemma split_backslash_last: "CHR 0x5C \<notin> set p \<Longrightarrow> split_backslash p = [p]"
  by (induction p) auto

lemma tolower_git: "map tolower ''.git'' = ''.git''" "map tolower ''git~1'' = ''git~1''"
  by code_simp+

lemma dotgit_c_string: "c_string ''.git''" "c_string ''git~1''"
  by (simp_all add: c_string_def)

lemma strncasecmp_eq_take:
  "c_string g \<Longrightarrow> map tolower g = g \<Longrightarrow> c_string s \<Longrightarrow>
   strncasecmp_eq s g (length g) \<longleftrightarrow> map tolower (take (length g) s) = g"
proof (induction g arbitrary: s)
  case (Cons c g)
  have nn: "tolower NUL = NUL" by code_simp
  show ?case
  proof (cases s)
    case Nil
    then show ?thesis using Cons.prems nn by auto
  next
    case (Cons x xs)
    then show ?thesis using Cons.prems Cons.IH [of xs] by auto
  qed
qed simp

lemma only_spaces_and_periods_append:
  "only_spaces_and_periods (p @ s) (length p) n \<longleftrightarrow> n \<le> length p \<and> list_all is_blank (drop n p)"
  by (auto simp: only_spaces_and_periods_def is_blank_def [abs_def])

lemma ntfs_name_test:
  assumes "c_string (p @ s)"
  shows "ntfs_name p \<longleftrightarrow>
    only_spaces_and_periods (p @ s) (length p) 4 \<and> strncasecmp_eq (p @ s) ''.git'' 4 \<or>
    only_spaces_and_periods (p @ s) (length p) 5 \<and> strncasecmp_eq (p @ s) ''git~1'' 5"
proof -
  have t: "map tolower (take (length g) p) = g \<longleftrightarrow> length g \<le> length p \<and> map tolower (take (length g) (p @ s)) = g" for g
  proof (cases "length g \<le> length p")
    case False
    then have "length (map tolower (take (length g) p)) \<noteq> length g" by simp
    then show ?thesis using False by metis
  qed simp
  have e: "ntfs_part g p \<longleftrightarrow> only_spaces_and_periods (p @ s) (length p) (length g) \<and> strncasecmp_eq (p @ s) g (length g)"
    if "c_string g" "map tolower g = g" for g
    unfolding ntfs_part_def t only_spaces_and_periods_append strncasecmp_eq_take [OF that assms] by blast
  have l: "4 = length ''.git''" "5 = length ''git~1''" by simp_all
  show ?thesis
    unfolding ntfs_name_def l
    by (simp only: e [OF _ tolower_git(1)] e [OF _ tolower_git(2)] dotgit_c_string)
qed

lemma is_ntfs_dotgit_from_skip:
  "NUL \<notin> set p \<Longrightarrow> CHR 0x5C \<notin> set p \<Longrightarrow> CHR ''/'' \<notin> set p \<Longrightarrow> k \<le> length p \<Longrightarrow>
   is_ntfs_dotgit_from (p @ s) k = is_ntfs_dotgit_from (p @ s) (length p)"
proof (induction "length p - k" arbitrary: k)
  case (Suc n)
  then have "k < length p" by simp
  then have "peek (drop k (p @ s)) = p ! k" by (simp add: Cons_nth_drop_Suc [symmetric])
  moreover have "p ! k \<in> set p" using \<open>k < length p\<close> by simp
  ultimately have "is_ntfs_dotgit_from (p @ s) k = is_ntfs_dotgit_from (p @ s) (k + 1)"
    using Suc.prems by (subst is_ntfs_dotgit_from.simps) (auto simp: Let_def)
  then show ?case using Suc.hyps(1) [of "k + 1"] Suc.hyps(2) Suc.prems by simp
qed simp

lemma is_ntfs_dotgit_from_end:
  "c_string (p @ s) \<Longrightarrow> s = [] \<or> peek s = CHR ''/'' \<Longrightarrow> is_ntfs_dotgit_from (p @ s) (length p) = ntfs_name p"
  using ntfs_name_test [of p s] by (subst is_ntfs_dotgit_from.simps) (auto simp: Let_def)

lemma is_ntfs_dotgit_from_part:
  "c_string (p @ CHR 0x5C # s) \<Longrightarrow>
   is_ntfs_dotgit_from (p @ CHR 0x5C # s) (length p) = (ntfs_name p \<or> is_ntfs_dotgit_from s 0)"
  using ntfs_name_test [of p "CHR 0x5C # s"] by (subst is_ntfs_dotgit_from.simps) (auto simp: Let_def)

lemma is_ntfs_dotgit_spec:
  "c_string (d @ s) \<Longrightarrow> CHR ''/'' \<notin> set d \<Longrightarrow> s = [] \<or> peek s = CHR ''/'' \<Longrightarrow>
   is_ntfs_dotgit (d @ s) = ntfs_dotgit d"
proof (induction d rule: length_induct)
  case (1 d)
  have nul: "NUL \<notin> set d" using 1(2) by (simp add: c_string_def)
  show ?case
  proof (cases "CHR 0x5C \<in> set d")
    case False
    then have "is_ntfs_dotgit_from (d @ s) 0 = is_ntfs_dotgit_from (d @ s) (length d)"
      using is_ntfs_dotgit_from_skip [of d 0 s] nul 1(3) by simp
    then show ?thesis
      using is_ntfs_dotgit_from_end [OF 1(2,4)] False
      by (simp add: is_ntfs_dotgit_def ntfs_dotgit_def split_backslash_last)
  next
    case True
    then obtain p q where d: "d = p @ CHR 0x5C # q" "CHR 0x5C \<notin> set p" using split_list_first by metis
    then have "is_ntfs_dotgit_from (p @ (CHR 0x5C # q @ s)) 0 = is_ntfs_dotgit_from (p @ (CHR 0x5C # q @ s)) (length p)"
      using nul 1(3) by (intro is_ntfs_dotgit_from_skip) auto
    moreover have "is_ntfs_dotgit (q @ s) = ntfs_dotgit q" using 1 d by (auto simp: c_string_def)
    ultimately show ?thesis
      using is_ntfs_dotgit_from_part [of p "q @ s"] 1(2) d
      by (simp add: is_ntfs_dotgit_def ntfs_dotgit_def split_backslash_seg)
  qed
qed

section \<open>The whole path\<close>

definition dotgit_any_case :: "string \<Rightarrow> bool" where
  "dotgit_any_case d \<longleftrightarrow> map tolower d = ''.git''"

text \<open>What a component of a path in the index may be.\<close>

definition component_ok :: "bool \<Rightarrow> bool \<Rightarrow> string \<Rightarrow> bool" where
  "component_ok protect_hfs protect_ntfs d \<longleftrightarrow>
     d \<noteq> [] \<and> d \<noteq> ''.'' \<and> d \<noteq> ''..'' \<and> \<not> dotgit_any_case d \<and>
     \<not> (protect_hfs \<and> points_dotgit d) \<and> \<not> (protect_ntfs \<and> ntfs_dotgit d)"

lemma tolower_letters:
  "tolower c = CHR ''g'' \<longleftrightarrow> c = CHR ''g'' \<or> c = CHR ''G''"
  "tolower c = CHR ''i'' \<longleftrightarrow> c = CHR ''i'' \<or> c = CHR ''I''"
  "tolower c = CHR ''t'' \<longleftrightarrow> c = CHR ''t'' \<or> c = CHR ''T''"
  "tolower c = CHR ''.'' \<longleftrightarrow> c = CHR ''.''"
proof -
  have inj: "x = y \<longleftrightarrow> (of_char x :: nat) = of_char y" for x y :: char by simp
  show "tolower c = CHR ''g'' \<longleftrightarrow> c = CHR ''g'' \<or> c = CHR ''G''"
    "tolower c = CHR ''i'' \<longleftrightarrow> c = CHR ''i'' \<or> c = CHR ''I''"
    "tolower c = CHR ''t'' \<longleftrightarrow> c = CHR ''t'' \<or> c = CHR ''T''"
    "tolower c = CHR ''.'' \<longleftrightarrow> c = CHR ''.''"
    unfolding inj of_char_tolower by auto
qed

lemma verify_dotfile_spec:
  assumes "c_string (d @ s)" and "CHR ''/'' \<notin> set d" and "s = [] \<or> peek s = CHR ''/''"
  shows "verify_dotfile (d @ s) \<longleftrightarrow> d \<noteq> [] \<and> d \<noteq> ''.'' \<and> map tolower d \<noteq> ''git''"
proof -
  have e: "peek s = NUL \<or> peek s = CHR ''/''" using assms(3) by auto
  have p: "peek s \<noteq> CHR ''i''" "peek s \<noteq> CHR ''I''" "peek s \<noteq> CHR ''t''" "peek s \<noteq> CHR ''T''" using e by auto
  show ?thesis
  proof (cases d)
    case Nil
    then show ?thesis using e by (auto simp: verify_dotfile_def)
  next
    case 1: (Cons x d1)
    then have x: "x \<noteq> NUL" "x \<noteq> CHR ''/''" using assms by (auto simp: c_string_def)
    show ?thesis
    proof (cases d1)
      case Nil
      then show ?thesis using 1 x e p by (auto simp: verify_dotfile_def tolower_letters Let_def)
    next
      case 2: (Cons y d2)
      then have y: "y \<noteq> NUL" "y \<noteq> CHR ''/''" using assms 1 by (auto simp: c_string_def)
      show ?thesis
      proof (cases d2)
        case Nil
        then show ?thesis using 1 2 x y e p by (auto simp: verify_dotfile_def tolower_letters Let_def)
      next
        case 3: (Cons z d3)
        then have z: "z \<noteq> NUL" "z \<noteq> CHR ''/''" using assms 1 2 by (auto simp: c_string_def)
        show ?thesis
        proof (cases d3)
          case Nil
          then show ?thesis using 1 2 3 x y z e by (auto simp: verify_dotfile_def tolower_letters Let_def)
        next
          case 4: (Cons w d4)
          then have "w \<noteq> NUL" "w \<noteq> CHR ''/''" using assms 1 2 3 by (auto simp: c_string_def)
          then show ?thesis using 1 2 3 4 x y z by (auto simp: verify_dotfile_def tolower_letters Let_def)
        qed
      qed
    qed
  qed
qed

lemma verify_loop_seg:
  "NUL \<notin> set d \<Longrightarrow> CHR ''/'' \<notin> set d \<Longrightarrow>
   verify_loop h n (peek (d @ s)) (tl (d @ s)) = verify_loop h n (peek s) (tl s)"
proof (induction d)
  case (Cons c d)
  then show ?case by (auto simp: verify_loop.simps [of h n c])
qed simp

lemma verify_inside_seg:
  assumes "c_string (d @ s)" and "CHR ''/'' \<notin> set d" and "s = [] \<or> peek s = CHR ''/''"
  shows "verify_inside h n (d @ s) \<longleftrightarrow> component_ok h n d \<and> verify_loop h n (peek s) (tl s)"
proof -
  have hfs: "is_hfs_dotgit (d @ s) = points_dotgit d"
  proof (cases s)
    case Nil
    then show ?thesis by (simp add: is_hfs_dotgit_points)
  next
    case (Cons c r)
    then have "c = CHR ''/''" using assms(3) by simp
    then show ?thesis using hfs_points_slash [OF assms(2)] Cons by (simp add: is_hfs_dotgit_points points_dotgit_def)
  qed
  have ntfs: "is_ntfs_dotgit (d @ s) = ntfs_dotgit d" by (rule is_ntfs_dotgit_spec [OF assms])
  have nul: "NUL \<notin> set d" using assms(1) by (simp add: c_string_def)
  show ?thesis
  proof (cases d)
    case Nil
    then show ?thesis using assms(3) by (subst verify_inside.simps) (auto simp: Let_def component_ok_def)
  next
    case (Cons c d')
    have c: "c \<noteq> NUL" "c \<noteq> CHR ''/''" using Cons nul assms(2) by auto
    have v: "verify_dotfile (d' @ s) \<longleftrightarrow> d' \<noteq> [] \<and> d' \<noteq> ''.'' \<and> map tolower d' \<noteq> ''git''"
      using Cons assms by (intro verify_dotfile_spec) (auto simp: c_string_def)
    have l: "verify_loop h n (peek (d' @ s)) (tl (d' @ s)) = verify_loop h n (peek s) (tl s)"
      using Cons nul assms(2) by (intro verify_loop_seg) auto
    have "verify_inside h n (d @ s) \<longleftrightarrow> \<not> (h \<and> points_dotgit d) \<and> \<not> (n \<and> ntfs_dotgit d) \<and>
        \<not> (c = DOT \<and> \<not> verify_dotfile (d' @ s)) \<and> verify_loop h n (peek s) (tl s)"
      using c l unfolding hfs [symmetric] ntfs [symmetric] unfolding Cons by (subst verify_inside.simps) (auto simp: Let_def)
    then show ?thesis unfolding v component_ok_def dotgit_any_case_def Cons by (auto simp: tolower_letters)
  qed
qed

lemma split_slash_first:
  obtains "CHR ''/'' \<notin> set s" "split_slash s = [s]"
  | d r where "s = d @ CHR ''/'' # r" "CHR ''/'' \<notin> set d" "split_slash s = d # split_slash r"
  by (metis split_list_first split_slash_seg split_slash_last)

lemma verify_inside_components:
  "c_string path \<Longrightarrow> verify_inside h n path \<longleftrightarrow> list_all (component_ok h n) (split_slash path)"
proof (induction path rule: length_induct)
  case (1 path)
  show ?case
  proof (cases rule: split_slash_first [of path])
    case 1
    then show ?thesis
      using verify_inside_seg [of path "[]" h n] \<open>c_string path\<close> by (simp add: verify_loop.simps)
  next
    case (2 d r)
    have "verify_inside h n r = list_all (component_ok h n) (split_slash r)"
      using 1 2(1) by (auto simp: c_string_def)
    then show ?thesis
      using verify_inside_seg [of d "CHR ''/'' # r" h n] 1(2) 2 by (simp add: verify_loop.simps)
  qed
qed

lemma split_slash_chars: "d \<in> set (split_slash s) \<Longrightarrow> set d \<subseteq> set s \<and> CHR ''/'' \<notin> set d"
proof (induction s rule: length_induct)
  case (1 s)
  show ?case
  proof (cases rule: split_slash_first [of s])
    case 1
    then show ?thesis using \<open>d \<in> set (split_slash s)\<close> by simp
  next
    case (2 e r)
    then show ?thesis using 1(1) [rule_format, of r] 1(2) by auto
  qed
qed

text \<open>
  C7. A path that \<^verbatim>\<open>verify_path\<close> lets into the index has only good components between its slashes: they
  are not empty, neither \<open>.\<close> nor \<open>..\<close> nor \<open>.git\<close> in any mix of cases, and, with the protection switched on, nothing that
  HFS+ (which ignores the invisible characters) or NTFS (after any backslash, with a short name, trailing blanks and dots) would take for
  \<open>.git\<close>. So no leading, trailing or double slash passes. Every path with good components passes, unless HFS+ is
  protected and a component goes on with malformed UTF-8 right behind a spelling of \<open>.git\<close>.
\<close>

theorem verify_path_spec:
  fixes protect_hfs protect_ntfs :: bool
  defines "good \<equiv> \<lambda>d. d \<noteq> [] \<and> d \<noteq> ''.'' \<and> d \<noteq> ''..'' \<and> map tolower d \<noteq> ''.git'' \<and>
      \<not> (protect_hfs \<and> hfs_dotgit d) \<and> \<not> (protect_ntfs \<and> ntfs_dotgit d)"
  assumes "c_string path"
  shows "(verify_path protect_hfs protect_ntfs path \<longrightarrow> (\<forall>d \<in> set (split_slash path). good d)) \<and>
   ((\<forall>d \<in> set (split_slash path). good d \<and> \<not> (protect_hfs \<and> hfs_dotgit_malformed d)) \<longrightarrow>
      verify_path protect_hfs protect_ntfs path)"
proof -
  have "points_dotgit d \<longleftrightarrow> hfs_dotgit d \<or> hfs_dotgit_malformed d" if "d \<in> set (split_slash path)" for d
    using split_slash_chars [OF that] assms(2) by (intro points_dotgit_spelling) (auto simp: c_string_def)
  then show ?thesis
    using verify_inside_components [OF assms(2), of protect_hfs protect_ntfs]
    by (auto simp: verify_path_def list_all_iff component_ok_def dotgit_any_case_def good_def)
qed

lemma verify_path_spec_witness:
  "verify_path True True ''a/.gi'' \<and> \<not> verify_path False False ''a/.Git/b'' \<and>
   \<not> verify_path True False (''a/.g'' @ [CHR 0xE2, CHR 0x80, CHR 0x8C] @ ''it'') \<and>
   \<not> verify_path False True (''a/x'' @ [CHR 0x5C] @ ''GIT~1 ./b'')"
proof (intro conjI)
  have "hfs_points ''a'' = [97]" "hfs_points ''.gi'' = [46, 103, 105]"
    by (simp_all add: hfs_points.simps utf8_char_def byte_at_def hfs_ignored_def)
  then have "\<not> points_dotgit ''a''" "\<not> points_dotgit ''.gi''"
    by (simp_all add: points_dotgit_def)
  then have "\<not> hfs_dotgit ''a''" "\<not> hfs_dotgit ''.gi''" "\<not> hfs_dotgit_malformed ''a''" "\<not> hfs_dotgit_malformed ''.gi''"
    using points_dotgit_spelling [of "''a''"] points_dotgit_spelling [of "''.gi''"] by simp_all
  moreover have "\<not> ntfs_dotgit ''a''" "\<not> ntfs_dotgit ''.gi''" by code_simp+
  ultimately show "verify_path True True ''a/.gi''"
    by (intro verify_path_spec [THEN conjunct2, rule_format]) (auto simp: c_string_def)
  have "''.Git'' \<in> set (split_slash ''a/.Git/b'')" "map tolower ''.Git'' = ''.git''" by code_simp+
  moreover have "c_string ''a/.Git/b''" by (simp add: c_string_def)
  ultimately show "\<not> verify_path False False ''a/.Git/b''"
    using verify_path_spec [of "''a/.Git/b''" False False] by metis
  have "hfs_spelling [0x2E, 0x67, 0x200C, 0x69, 0x74]"
    by (simp add: hfs_spelling_def utf8_valid_def invisible_def)
  moreover have "utf8_text [0x2E, 0x67, 0x200C, 0x69, 0x74] = map char_of [0x2E, 0x67, 0xE2, 0x80, 0x8C, 0x69, 0x74 :: nat]"
    by (simp add: utf8_text_def utf8_encode_def utf8_bytes_def)
  moreover have "map char_of [0x2E, 0x67, 0xE2, 0x80, 0x8C, 0x69, 0x74 :: nat] = ''.g'' @ [CHR 0xE2, CHR 0x80, CHR 0x8C] @ ''it''"
    by code_simp
  ultimately have "hfs_dotgit (''.g'' @ [CHR 0xE2, CHR 0x80, CHR 0x8C] @ ''it'')" unfolding hfs_dotgit_def by metis
  moreover have "''.g'' @ [CHR 0xE2, CHR 0x80, CHR 0x8C] @ ''it'' \<in> set (split_slash (''a/.g'' @ [CHR 0xE2, CHR 0x80, CHR 0x8C] @ ''it''))"
    by code_simp
  moreover have "c_string (''a/.g'' @ [CHR 0xE2, CHR 0x80, CHR 0x8C] @ ''it'')" by (simp add: c_string_def)
  ultimately show "\<not> verify_path True False (''a/.g'' @ [CHR 0xE2, CHR 0x80, CHR 0x8C] @ ''it'')"
    using verify_path_spec [of "''a/.g'' @ [CHR 0xE2, CHR 0x80, CHR 0x8C] @ ''it''" True False] by metis
  have "''x'' @ [CHR 0x5C] @ ''GIT~1 .'' \<in> set (split_slash (''a/x'' @ [CHR 0x5C] @ ''GIT~1 ./b''))"
    "ntfs_dotgit (''x'' @ [CHR 0x5C] @ ''GIT~1 .'')"
    by code_simp+
  moreover have "c_string (''a/x'' @ [CHR 0x5C] @ ''GIT~1 ./b'')" by (simp add: c_string_def)
  ultimately show "\<not> verify_path False True (''a/x'' @ [CHR 0x5C] @ ''GIT~1 ./b'')"
    using verify_path_spec [of "''a/x'' @ [CHR 0x5C] @ ''GIT~1 ./b''" False True] by metis
qed

text \<open>A byte that is not UTF-8 behind \<open>.git\<close> reads as the end of the name, against the comment in \<^verbatim>\<open>next_hfs_char\<close>.\<close>

lemma dotgit_before_malformed: "\<not> verify_path True False (''.git'' @ [CHR 0x80])"
proof -
  have "hfs_points (''.git'' @ [CHR 0x80]) = [46, 103, 105, 116]"
    by (simp add: hfs_points.simps utf8_char_def byte_at_def hfs_ignored_def)
  then have "points_dotgit (''.git'' @ [CHR 0x80])" by (simp add: points_dotgit_def)
  then show ?thesis
    by (simp add: verify_path_def verify_inside.simps is_hfs_dotgit_points)
qed

end
