(* ===== verification/Index.thy ===== *)
theory Index
  imports Compare Verify_Path
begin

text \<open>
  The index in memory (\<^verbatim>\<open>read-cache.c\<close>): an array of cache entries, sorted by name and stage, with
  binary search, insertion, removal and the check that no path is a file and a directory at once. An
  entry keeps the statistics of its file, its mode, flags, object name and path; its length field is the length of the path. The index keeps its
  entries and its change flags. The extensions that hang off the index (name hash, cache tree, resolve-undo,
  split index, untracked cache) keep state of their own, which no result here depends on.
\<close>

section \<open>Entries\<close>

record stat_data =
  sd_ctime_sec :: u32
  sd_ctime_nsec :: u32
  sd_mtime_sec :: u32
  sd_mtime_nsec :: u32
  sd_dev :: u32
  sd_ino :: u32
  sd_uid :: u32
  sd_gid :: u32
  sd_size :: u32

record cache_entry =
  ce_stat_data :: stat_data
  ce_mode :: u32
  ce_flags :: u32
  ce_sha1 :: "byte list"
  ce_name :: string

abbreviation ce_namelen :: "cache_entry \<Rightarrow> nat" where
  "ce_namelen ce \<equiv> length (ce_name ce)"

abbreviation (input) CE_STAGEMASK :: u32 where "CE_STAGEMASK \<equiv> 0x3000"
abbreviation (input) CE_REMOVE :: u32 where "CE_REMOVE \<equiv> 0x20000"
abbreviation (input) CE_HASHED :: u32 where "CE_HASHED \<equiv> 0x100000"
abbreviation (input) CE_UPDATE_IN_BASE :: u32 where "CE_UPDATE_IN_BASE \<equiv> 0x8000000"

definition ce_stage :: "cache_entry \<Rightarrow> nat" where
  "ce_stage ce = unat (drop_bit 12 (CE_STAGEMASK AND ce_flags ce))"

definition ce_remove :: "cache_entry \<Rightarrow> bool" where
  "ce_remove ce \<longleftrightarrow> ce_flags ce AND CE_REMOVE \<noteq> 0"

definition create_ce_flags :: "u32 \<Rightarrow> u32" where
  "create_ce_flags stage = push_bit 12 stage"

abbreviation (input) S_IFMT :: u32 where "S_IFMT \<equiv> 0xF000"
abbreviation (input) S_IFDIR :: u32 where "S_IFDIR \<equiv> 0x4000"
abbreviation (input) S_IFREG :: u32 where "S_IFREG \<equiv> 0x8000"
abbreviation (input) S_IFLNK :: u32 where "S_IFLNK \<equiv> 0xA000"
abbreviation (input) S_IFGITLINK :: u32 where "S_IFGITLINK \<equiv> 0xE000"

definition S_ISDIR :: "u32 \<Rightarrow> bool" where "S_ISDIR m \<longleftrightarrow> m AND S_IFMT = S_IFDIR"
definition S_ISREG :: "u32 \<Rightarrow> bool" where "S_ISREG m \<longleftrightarrow> m AND S_IFMT = S_IFREG"
definition S_ISLNK :: "u32 \<Rightarrow> bool" where "S_ISLNK m \<longleftrightarrow> m AND S_IFMT = S_IFLNK"
definition S_ISGITLINK :: "u32 \<Rightarrow> bool" where "S_ISGITLINK m \<longleftrightarrow> m AND S_IFMT = S_IFGITLINK"

definition ce_permissions :: "u32 \<Rightarrow> u32" where
  "ce_permissions mode = (if mode AND 0x40 \<noteq> 0 then 0x1ED else 0x1A4)"

definition create_ce_mode :: "u32 \<Rightarrow> u32" where
  "create_ce_mode mode =
     (if S_ISLNK mode then S_IFLNK
      else if S_ISDIR mode \<or> S_ISGITLINK mode then S_IFGITLINK
      else S_IFREG OR ce_permissions mode)"

definition canon_mode :: "u32 \<Rightarrow> u32" where
  "canon_mode mode =
     (if S_ISREG mode then S_IFREG OR ce_permissions mode
      else if S_ISLNK mode then S_IFLNK
      else if S_ISDIR mode then S_IFDIR
      else S_IFGITLINK)"

definition ce_mode_from_stat :: "bool \<Rightarrow> bool \<Rightarrow> cache_entry option \<Rightarrow> u32 \<Rightarrow> u32" where
  "ce_mode_from_stat trust_executable_bit has_symlinks ce mode =
     (case ce of
        Some ce \<Rightarrow>
          if \<not> has_symlinks \<and> S_ISREG mode \<and> S_ISLNK (ce_mode ce) then ce_mode ce
          else if \<not> trust_executable_bit \<and> S_ISREG mode
          then if S_ISREG (ce_mode ce) then ce_mode ce else create_ce_mode 0x1B6
          else create_ce_mode mode
      | None \<Rightarrow>
          if \<not> trust_executable_bit \<and> S_ISREG mode then create_ce_mode 0x1B6 else create_ce_mode mode)"

section \<open>Orders on names\<close>

text \<open>\<open>memcmp\<close> of two blocks of \<open>n\<close> bytes without NUL.\<close>

definition memcmp_names :: "string \<Rightarrow> string \<Rightarrow> nat \<Rightarrow> int" where
  "memcmp_names name1 name2 n = strcmp (take n name1) (take n name2)"

definition base_name_compare :: "string \<Rightarrow> nat \<Rightarrow> u32 \<Rightarrow> string \<Rightarrow> nat \<Rightarrow> u32 \<Rightarrow> int" where
  "base_name_compare name1 len1 mode1 name2 len2 mode2 =
     (let len = (if len1 < len2 then len1 else len2);
          cmp = memcmp_names name1 name2 len
      in if cmp \<noteq> 0 then cmp
         else let c1 = peek (drop len name1); c2 = peek (drop len name2);
                  c1 = (if c1 = NUL \<and> S_ISDIR mode1 then CHR ''/'' else c1);
                  c2 = (if c2 = NUL \<and> S_ISDIR mode2 then CHR ''/'' else c2)
              in if char_code c1 < char_code c2 then -1 else if char_code c1 > char_code c2 then 1 else 0)"

definition df_name_compare :: "string \<Rightarrow> nat \<Rightarrow> u32 \<Rightarrow> string \<Rightarrow> nat \<Rightarrow> u32 \<Rightarrow> int" where
  "df_name_compare name1 len1 mode1 name2 len2 mode2 =
     (let len = (if len1 < len2 then len1 else len2);
          cmp = memcmp_names name1 name2 len
      in if cmp \<noteq> 0 then cmp
         else if len1 = len2 then 0
         else let c1 = peek (drop len name1);
                  c1 = (if c1 = NUL \<and> S_ISDIR mode1 then CHR ''/'' else c1);
                  c2 = peek (drop len name2);
                  c2 = (if c2 = NUL \<and> S_ISDIR mode2 then CHR ''/'' else c2)
              in if c1 = CHR ''/'' \<and> c2 = NUL then 0
                 else if c2 = CHR ''/'' \<and> c1 = NUL then 0
                 else char_code c1 - char_code c2)"

definition name_compare :: "string \<Rightarrow> nat \<Rightarrow> string \<Rightarrow> nat \<Rightarrow> int" where
  "name_compare name1 len1 name2 len2 =
     (let min_len = (if len1 < len2 then len1 else len2);
          cmp = memcmp_names name1 name2 min_len
      in if cmp \<noteq> 0 then cmp else if len1 < len2 then -1 else if len1 > len2 then 1 else 0)"

definition cache_name_stage_compare :: "string \<Rightarrow> nat \<Rightarrow> nat \<Rightarrow> string \<Rightarrow> nat \<Rightarrow> nat \<Rightarrow> int" where
  "cache_name_stage_compare name1 len1 stage1 name2 len2 stage2 =
     (let cmp = name_compare name1 len1 name2 len2
      in if cmp \<noteq> 0 then cmp else if stage1 < stage2 then -1 else if stage1 > stage2 then 1 else 0)"

section \<open>The array\<close>

record index_state =
  is_cache :: "cache_entry list"
  cache_changed :: u32

abbreviation cache_nr :: "index_state \<Rightarrow> nat" where
  "cache_nr istate \<equiv> length (is_cache istate)"

abbreviation (input) CE_ENTRY_CHANGED :: u32 where "CE_ENTRY_CHANGED \<equiv> 2"
abbreviation (input) CE_ENTRY_REMOVED :: u32 where "CE_ENTRY_REMOVED \<equiv> 4"
abbreviation (input) CE_ENTRY_ADDED :: u32 where "CE_ENTRY_ADDED \<equiv> 8"

text \<open>The loop of the binary search; positions are far below \<open>2 ^ 31\<close>, so their sum does not overflow an int.\<close>

function stage_pos_loop :: "cache_entry list \<Rightarrow> string \<Rightarrow> nat \<Rightarrow> nat \<Rightarrow> nat \<Rightarrow> nat \<Rightarrow> int" where
  "stage_pos_loop cache name namelen stage first last' =
     (if last' > first
      then let nxt = (last' + first) div 2; ce = cache ! nxt;
               cmp = cache_name_stage_compare name namelen stage (ce_name ce) (ce_namelen ce) (ce_stage ce)
           in if cmp = 0 then int nxt
              else if cmp < 0 then stage_pos_loop cache name namelen stage first nxt
              else stage_pos_loop cache name namelen stage (nxt + 1) last'
      else - int first - 1)"
  by pat_completeness auto

termination
  by (relation "measure (\<lambda>(_, _, _, _, first, last'). last' - first)") auto

declare stage_pos_loop.simps [simp del]

definition index_name_stage_pos :: "index_state \<Rightarrow> string \<Rightarrow> nat \<Rightarrow> nat \<Rightarrow> int" where
  "index_name_stage_pos istate name namelen stage =
     stage_pos_loop (is_cache istate) name namelen stage 0 (cache_nr istate)"

definition index_name_pos :: "index_state \<Rightarrow> string \<Rightarrow> nat \<Rightarrow> int" where
  "index_name_pos istate name namelen = index_name_stage_pos istate name namelen 0"

definition set_index_entry :: "index_state \<Rightarrow> nat \<Rightarrow> cache_entry \<Rightarrow> index_state" where
  "set_index_entry istate nr ce = istate\<lparr>is_cache := (is_cache istate)[nr := ce]\<rparr>"

text \<open>The flag of the new entry is set behind the pointer, so the stored entry carries it.\<close>

definition replace_index_entry :: "index_state \<Rightarrow> nat \<Rightarrow> cache_entry \<Rightarrow> index_state" where
  "replace_index_entry istate nr ce =
     (let istate = set_index_entry istate nr (ce\<lparr>ce_flags := ce_flags ce OR CE_UPDATE_IN_BASE\<rparr>)
      in istate\<lparr>cache_changed := cache_changed istate OR CE_ENTRY_CHANGED\<rparr>)"

definition remove_at :: "nat \<Rightarrow> 'a list \<Rightarrow> 'a list" where
  "remove_at pos xs = take pos xs @ drop (pos + 1) xs"

definition remove_index_entry_at :: "index_state \<Rightarrow> nat \<Rightarrow> index_state \<times> bool" where
  "remove_index_entry_at istate pos =
     (let istate = istate\<lparr>cache_changed := cache_changed istate OR CE_ENTRY_REMOVED,
                          is_cache := remove_at pos (is_cache istate)\<rparr>
      in (istate, pos < cache_nr istate))"

definition remove_marked_cache_entries :: "index_state \<Rightarrow> index_state" where
  "remove_marked_cache_entries istate =
     (let kept = filter (\<lambda>ce. \<not> ce_remove ce) (is_cache istate)
      in if length kept = cache_nr istate then istate
         else istate\<lparr>cache_changed := cache_changed istate OR CE_ENTRY_REMOVED, is_cache := kept\<rparr>)"

lemma length_remove_at: "pos < length xs \<Longrightarrow> length (remove_at pos xs) = length xs - 1"
  by (simp add: remove_at_def)

function remove_path_loop :: "index_state \<Rightarrow> nat \<Rightarrow> string \<Rightarrow> index_state" where
  "remove_path_loop istate pos path =
     (if pos < cache_nr istate \<and> strcmp (ce_name (is_cache istate ! pos)) path = 0
      then remove_path_loop (fst (remove_index_entry_at istate pos)) pos path
      else istate)"
  by pat_completeness auto

termination
  by (relation "measure (\<lambda>(istate, _, _). cache_nr istate)")
    (auto simp: remove_index_entry_at_def Let_def length_remove_at)

declare remove_path_loop.simps [simp del]

definition remove_file_from_index :: "index_state \<Rightarrow> string \<Rightarrow> index_state" where
  "remove_file_from_index istate path =
     (let pos = index_name_pos istate path (length path);
          pos = (if pos < 0 then - pos - 1 else pos)
      in remove_path_loop istate (nat pos) path)"

definition compare_name :: "cache_entry \<Rightarrow> string \<Rightarrow> nat \<Rightarrow> bool" where
  "compare_name ce path namelen \<longleftrightarrow> namelen \<noteq> ce_namelen ce \<or> memcmp_names path (ce_name ce) namelen \<noteq> 0"

definition index_name_pos_also_unmerged :: "index_state \<Rightarrow> string \<Rightarrow> nat \<Rightarrow> int" where
  "index_name_pos_also_unmerged istate path namelen =
     (let pos = index_name_pos istate path namelen
      in if pos \<ge> 0 then pos
         else let pos = nat (-1 - pos)
              in if pos \<ge> cache_nr istate \<or> compare_name (is_cache istate ! pos) path namelen then -1
                 else if ce_stage (is_cache istate ! pos) = 1 \<and> pos + 1 < cache_nr istate \<and>
                         ce_stage (is_cache istate ! (pos + 1)) = 2 \<and>
                         \<not> compare_name (is_cache istate ! (pos + 1)) path namelen
                 then int (pos + 1) else int pos)"

definition ce_same_name :: "cache_entry \<Rightarrow> cache_entry \<Rightarrow> bool" where
  "ce_same_name a b \<longleftrightarrow>
     (let len = ce_namelen a in ce_namelen b = len \<and> memcmp_names (ce_name a) (ce_name b) len = 0)"

definition different_name :: "cache_entry \<Rightarrow> cache_entry \<Rightarrow> bool" where
  "different_name ce alias \<longleftrightarrow>
     (let len = ce_namelen ce in ce_namelen alias \<noteq> len \<or> memcmp_names (ce_name ce) (ce_name alias) len \<noteq> 0)"

definition index_name_is_other :: "index_state \<Rightarrow> string \<Rightarrow> nat \<Rightarrow> bool" where
  "index_name_is_other istate name namelen =
     (let namelen = (if namelen \<noteq> 0 \<and> name ! (namelen - 1) = CHR ''/'' then namelen - 1 else namelen);
          pos = index_name_pos istate name namelen
      in if 0 \<le> pos then False
         else let pos = nat (- pos - 1)
              in if pos < cache_nr istate
                 then \<not> (ce_namelen (is_cache istate ! pos) = namelen \<and>
                         memcmp_names (ce_name (is_cache istate ! pos)) name namelen = 0)
                 else True)"

definition unmerged_index :: "index_state \<Rightarrow> bool" where
  "unmerged_index istate \<longleftrightarrow> list_ex (\<lambda>ce. ce_stage ce \<noteq> 0) (is_cache istate)"

text \<open>The check of an index that was read from a file; the program dies with the error.\<close>

datatype order_error = Unordered_Names | Multiple_Merged | Unordered_Stages

fun check_ce_order_from :: "cache_entry list \<Rightarrow> order_error option" where
  "check_ce_order_from (ce # next_ce # ces) =
     (let name_cmp = strcmp (ce_name ce) (ce_name next_ce)
      in if 0 < name_cmp then Some Unordered_Names
         else if name_cmp = 0 \<and> ce_stage ce = 0 then Some Multiple_Merged
         else if name_cmp = 0 \<and> ce_stage ce > ce_stage next_ce then Some Unordered_Stages
         else check_ce_order_from (next_ce # ces))"
| "check_ce_order_from ces = None"

definition check_ce_order :: "index_state \<Rightarrow> order_error option" where
  "check_ce_order istate = check_ce_order_from (is_cache istate)"

section \<open>Files and directories\<close>

function file_name_loop :: "index_state \<Rightarrow> cache_entry \<Rightarrow> nat \<Rightarrow> bool \<Rightarrow> int \<Rightarrow> index_state \<times> int" where
  "file_name_loop istate ce pos ok_to_replace retval =
     (if pos < cache_nr istate
      then let p = is_cache istate ! pos; len = ce_namelen ce
           in if len \<ge> ce_namelen p then (istate, retval)
              else if memcmp_names (ce_name ce) (ce_name p) len \<noteq> 0 then (istate, retval)
              else if ce_stage p \<noteq> ce_stage ce then file_name_loop istate ce (pos + 1) ok_to_replace retval
              else if ce_name p ! len \<noteq> CHR ''/'' then file_name_loop istate ce (pos + 1) ok_to_replace retval
              else if ce_remove p then file_name_loop istate ce (pos + 1) ok_to_replace retval
              else if \<not> ok_to_replace then (istate, -1)
              else file_name_loop (fst (remove_index_entry_at istate pos)) ce pos ok_to_replace (-1)
      else (istate, retval))"
  by pat_completeness auto

termination
  by (relation "measure (\<lambda>(istate, _, pos, _). cache_nr istate - pos)")
    (auto simp: remove_index_entry_at_def Let_def length_remove_at)

declare file_name_loop.simps [simp del]

definition has_file_name :: "index_state \<Rightarrow> cache_entry \<Rightarrow> nat \<Rightarrow> bool \<Rightarrow> index_state \<times> int" where
  "has_file_name istate ce pos ok_to_replace = file_name_loop istate ce pos ok_to_replace 0"

text \<open>
  The slash before a position. The code would read before the name when it starts with a slash, which
  \<^verbatim>\<open>verify_path\<close> has ruled out; there is no slash then.
\<close>

fun prev_slash :: "string \<Rightarrow> nat \<Rightarrow> nat option" where
  "prev_slash name 0 = None"
| "prev_slash name (Suc k) = (if name ! k = CHR ''/'' then Some k else prev_slash name k)"

lemma prev_slash_less: "prev_slash name k = Some len \<Longrightarrow> len < k"
  by (induction k) (auto split: if_splits)

function subdirectory_found :: "index_state \<Rightarrow> string \<Rightarrow> nat \<Rightarrow> nat \<Rightarrow> nat \<Rightarrow> bool" where
  "subdirectory_found istate name len stage pos =
     (if pos < cache_nr istate
      then let p = is_cache istate ! pos
           in if ce_namelen p \<le> len \<or> ce_name p ! len \<noteq> CHR ''/'' \<or> memcmp_names (ce_name p) name len \<noteq> 0 then False
              else if ce_stage p = stage \<and> \<not> ce_remove p then True
              else subdirectory_found istate name len stage (pos + 1)
      else False)"
  by pat_completeness auto

termination
  by (relation "measure (\<lambda>(istate, _, _, _, pos). cache_nr istate - pos)") auto

declare subdirectory_found.simps [simp del]

function dir_name_loop :: "index_state \<Rightarrow> cache_entry \<Rightarrow> nat \<Rightarrow> bool \<Rightarrow> int \<Rightarrow> index_state \<times> int" where
  "dir_name_loop istate ce slash ok_to_replace retval =
     (case prev_slash (ce_name ce) slash of
        None \<Rightarrow> (istate, retval)
      | Some len \<Rightarrow>
          let pos = index_name_stage_pos istate (ce_name ce) len (ce_stage ce)
          in if pos \<ge> 0 \<and> \<not> ce_remove (is_cache istate ! nat pos)
             then if \<not> ok_to_replace then (istate, -1)
                  else dir_name_loop (fst (remove_index_entry_at istate (nat pos))) ce len ok_to_replace (-1)
             else let pos = (if pos \<ge> 0 then pos else - pos - 1)
                  in if subdirectory_found istate (ce_name ce) len (ce_stage ce) (nat pos) then (istate, retval)
                     else dir_name_loop istate ce len ok_to_replace retval)"
  by pat_completeness auto

termination
  by (relation "measure (\<lambda>(_, _, slash, _). slash)") (auto dest: prev_slash_less)

declare dir_name_loop.simps [simp del]

definition has_dir_name :: "index_state \<Rightarrow> cache_entry \<Rightarrow> nat \<Rightarrow> bool \<Rightarrow> index_state \<times> int" where
  "has_dir_name istate ce pos ok_to_replace = dir_name_loop istate ce (ce_namelen ce) ok_to_replace 0"

definition check_file_directory_conflict :: "index_state \<Rightarrow> cache_entry \<Rightarrow> nat \<Rightarrow> bool \<Rightarrow> index_state \<times> int" where
  "check_file_directory_conflict istate ce pos ok_to_replace =
     (if ce_remove ce then (istate, 0)
      else let (istate, retval) = has_file_name istate ce pos ok_to_replace;
               (istate, retval2) = has_dir_name istate ce pos ok_to_replace
           in (istate, retval + retval2))"

section \<open>Adding an entry\<close>

abbreviation (input) ADD_CACHE_OK_TO_ADD :: u32 where "ADD_CACHE_OK_TO_ADD \<equiv> 1"
abbreviation (input) ADD_CACHE_OK_TO_REPLACE :: u32 where "ADD_CACHE_OK_TO_REPLACE \<equiv> 2"
abbreviation (input) ADD_CACHE_SKIP_DFCHECK :: u32 where "ADD_CACHE_SKIP_DFCHECK \<equiv> 4"
abbreviation (input) ADD_CACHE_JUST_APPEND :: u32 where "ADD_CACHE_JUST_APPEND \<equiv> 8"
abbreviation (input) ADD_CACHE_NEW_ONLY :: u32 where "ADD_CACHE_NEW_ONLY \<equiv> 16"

text \<open>Removing the unmerged entries of the same name; the second result tells whether there was one.\<close>

function remove_unmerged :: "index_state \<Rightarrow> cache_entry \<Rightarrow> nat \<Rightarrow> bool \<Rightarrow> index_state \<times> bool" where
  "remove_unmerged istate ce pos ok_to_add =
     (if pos < cache_nr istate \<and> ce_same_name (is_cache istate ! pos) ce
      then let (istate, more) = remove_index_entry_at istate pos
           in if more then remove_unmerged istate ce pos True else (istate, True)
      else (istate, ok_to_add))"
  by pat_completeness auto

termination
  by (relation "measure (\<lambda>(istate, _, _, _). cache_nr istate)")
    (auto simp: remove_index_entry_at_def Let_def length_remove_at)

declare remove_unmerged.simps [simp del]

datatype add_error = Not_Ok_To_Add | Invalid_Path | File_And_Directory

text \<open>
  The result is an error (\<open>-1\<close> in the code), or the position behind the place of the new entry, or 0 when
  nothing is left to do. The two protections of paths are arguments.
\<close>

definition add_index_entry_with_check ::
  "bool \<Rightarrow> bool \<Rightarrow> index_state \<Rightarrow> cache_entry \<Rightarrow> u32 \<Rightarrow> index_state \<times> (add_error + nat)" where
  "add_index_entry_with_check protect_hfs protect_ntfs istate ce option =
     (let ok_to_add = (option AND ADD_CACHE_OK_TO_ADD \<noteq> 0);
          ok_to_replace = (option AND ADD_CACHE_OK_TO_REPLACE \<noteq> 0);
          skip_df_check = (option AND ADD_CACHE_SKIP_DFCHECK \<noteq> 0);
          new_only = (option AND ADD_CACHE_NEW_ONLY \<noteq> 0);
          pos = index_name_stage_pos istate (ce_name ce) (ce_namelen ce) (ce_stage ce)
      in if pos \<ge> 0
         then (if \<not> new_only then replace_index_entry istate (nat pos) ce else istate, Inr 0)
         else
           let pos = nat (- pos - 1);
               (istate, ok_to_add) =
                 (if pos < cache_nr istate \<and> ce_stage ce = 0 then remove_unmerged istate ce pos ok_to_add
                  else (istate, ok_to_add))
           in if \<not> ok_to_add then (istate, Inl Not_Ok_To_Add)
              else if \<not> verify_path protect_hfs protect_ntfs (ce_name ce) then (istate, Inl Invalid_Path)
              else if skip_df_check then (istate, Inr (pos + 1))
              else
                let (istate, conflict) = check_file_directory_conflict istate ce pos ok_to_replace
                in if conflict = 0 then (istate, Inr (pos + 1))
                   else if \<not> ok_to_replace then (istate, Inl File_And_Directory)
                   else let pos = index_name_stage_pos istate (ce_name ce) (ce_namelen ce) (ce_stage ce)
                        in (istate, Inr (nat (- pos - 1) + 1)))"

definition insert_at :: "nat \<Rightarrow> 'a \<Rightarrow> 'a list \<Rightarrow> 'a list" where
  "insert_at pos x xs = take pos xs @ x # drop pos xs"

definition add_index_entry ::
  "bool \<Rightarrow> bool \<Rightarrow> index_state \<Rightarrow> cache_entry \<Rightarrow> u32 \<Rightarrow> index_state \<times> (add_error + unit)" where
  "add_index_entry protect_hfs protect_ntfs istate ce option =
     (let insert = (\<lambda>istate pos.
            (istate\<lparr>is_cache := insert_at pos ce (is_cache istate),
                    cache_changed := cache_changed istate OR CE_ENTRY_ADDED\<rparr>, Inr ()))
      in if option AND ADD_CACHE_JUST_APPEND \<noteq> 0 then insert istate (cache_nr istate)
         else case add_index_entry_with_check protect_hfs protect_ntfs istate ce option of
                (istate, Inl e) \<Rightarrow> (istate, Inl e)
              | (istate, Inr ret) \<Rightarrow> if ret = 0 then (istate, Inr ()) else insert istate (ret - 1))"

definition rename_index_entry_at :: "bool \<Rightarrow> bool \<Rightarrow> index_state \<Rightarrow> nat \<Rightarrow> string \<Rightarrow> index_state" where
  "rename_index_entry_at protect_hfs protect_ntfs istate nr new_name =
     (let old = is_cache istate ! nr;
          new = old\<lparr>ce_flags := ce_flags old AND NOT CE_HASHED, ce_name := new_name\<rparr>;
          istate = fst (remove_index_entry_at istate nr)
      in fst (add_index_entry protect_hfs protect_ntfs istate new (ADD_CACHE_OK_TO_ADD OR ADD_CACHE_OK_TO_REPLACE)))"

section \<open>The order of the index\<close>

type_synonym index_key = "string \<times> nat"

definition key_cmp :: "index_key \<Rightarrow> index_key \<Rightarrow> int" where
  "key_cmp k l = (let c = strcmp (fst k) (fst l)
     in if c \<noteq> 0 then c else if snd k < snd l then -1 else if snd k > snd l then 1 else 0)"

definition ce_key :: "cache_entry \<Rightarrow> index_key" where
  "ce_key ce = (ce_name ce, ce_stage ce)"

lemma key_cmp_zero: "key_cmp k l = 0 \<longleftrightarrow> k = l"
  by (cases k; cases l) (auto simp: key_cmp_def Let_def)

interpretation key: cmp_strict key_cmp
proof unfold_locales
  show "key_cmp x y < 0 \<longleftrightarrow> 0 < key_cmp y x" for x y
    using strcmp_swap [of "fst x" "fst y"] by (auto simp: key_cmp_def Let_def)
  show "key_cmp x z \<le> 0" if xy: "key_cmp x y \<le> 0" and yz: "key_cmp y z \<le> 0" for x y z
  proof -
    have "strcmp (fst x) (fst y) \<le> 0" "strcmp (fst y) (fst z) \<le> 0"
      using xy yz by (auto simp: key_cmp_def Let_def split: if_split_asm)
    moreover from this have "strcmp (fst x) (fst z) < 0 \<or> fst x = fst y \<and> fst y = fst z"
      using strcmp.cmp_trans [of "fst x" "fst y" "fst z"] strcmp.cmp_less_le_trans [of "fst x" "fst y" "fst z"]
        strcmp.cmp_le_less_trans [of "fst x" "fst y" "fst z"] strcmp.cmp_zero_iff
      by (metis order_le_less)
    ultimately show ?thesis using xy yz by (auto simp: key_cmp_def Let_def split: if_split_asm)
  qed
  show "x = y" if "key_cmp x y = 0" for x y
    using that by (simp add: key_cmp_zero)
qed

lemma key_cmp_less_fst: "strcmp (fst k) (fst l) < 0 \<Longrightarrow> key_cmp k l < 0"
  by (auto simp: key_cmp_def Let_def)

lemma key_cmp_le_fst: "key_cmp k l \<le> 0 \<Longrightarrow> strcmp (fst k) (fst l) \<le> 0"
  by (auto simp: key_cmp_def Let_def split: if_split_asm)

lemma strcmp_range: "strcmp s t = -1 \<or> strcmp s t = 0 \<or> strcmp s t = 1"
  by (induction s t rule: strcmp.induct) auto

lemma memcmp_names_Cons:
  "memcmp_names (c # s) (d # t) (Suc n) =
     (if c = d then memcmp_names s t n else if char_code c < char_code d then -1 else 1)"
  by (simp add: memcmp_names_def)

lemma memcmp_names_zero: "memcmp_names s t n = 0 \<longleftrightarrow> take n s = take n t"
  by (simp add: memcmp_names_def)

lemma memcmp_names_0 [simp]: "memcmp_names s t 0 = 0"
  by (simp add: memcmp_names_def)

lemma name_compare_strcmp: "name_compare s (length s) t (length t) = strcmp s t"
proof (induction s t rule: strcmp.induct)
  case (4 c s d t)
  have "min (length s) (length t) = (if length s < length t then length s else length t)" by auto
  then have *: "name_compare (c # s) (length (c # s)) (d # t) (length (d # t)) =
      (if c = d then name_compare s (length s) t (length t) else if char_code c < char_code d then -1 else 1)"
    by (simp add: name_compare_def Let_def memcmp_names_Cons)
  show ?case unfolding * using 4 by simp
qed (simp_all add: name_compare_def)

lemma name_compare_take: "len \<le> length s \<Longrightarrow> name_compare s len t n = name_compare (take len s) len t n"
  by (simp add: name_compare_def memcmp_names_def Let_def min_def)

lemma cache_name_stage_compare_key:
  assumes "len \<le> length s"
  shows "cache_name_stage_compare s len st t (length t) st' = key_cmp (take len s, st) (t, st')"
proof -
  have "name_compare s len t (length t) = strcmp (take len s) t"
    using name_compare_take [OF assms] name_compare_strcmp [of "take len s" t] assms by simp
  then show ?thesis by (simp add: cache_name_stage_compare_def key_cmp_def)
qed

definition ce_less :: "cache_entry \<Rightarrow> cache_entry \<Rightarrow> bool" where
  "ce_less p q \<longleftrightarrow> key_cmp (ce_key p) (ce_key q) < 0"

definition sorted_cache :: "cache_entry list \<Rightarrow> bool" where
  "sorted_cache ces \<longleftrightarrow> sorted_wrt ce_less ces"

lemma ce_less_trans: "ce_less p q \<Longrightarrow> ce_less q r \<Longrightarrow> ce_less p r"
  unfolding ce_less_def by (rule key.cmp_less_trans)

lemma ce_less_irrefl: "ce_key p = ce_key q \<Longrightarrow> \<not> ce_less p q"
  by (simp add: ce_less_def)

lemma ce_less_asym: "ce_less p q \<Longrightarrow> \<not> ce_less q p"
  unfolding ce_less_def using key.cmp_swap by (metis less_asym)

text \<open>Where a key belongs: everything before the place is smaller, everything from there on larger.\<close>

definition key_place :: "cache_entry list \<Rightarrow> index_key \<Rightarrow> nat \<Rightarrow> bool" where
  "key_place ces k pos \<longleftrightarrow> pos \<le> length ces \<and>
     (\<forall>p \<in> set (take pos ces). key_cmp (ce_key p) k < 0) \<and>
     (\<forall>p \<in> set (drop pos ces). key_cmp k (ce_key p) < 0)"

lemma stage_pos_loop_spec:
  assumes "sorted_cache ces" and "first \<le> last'" and "last' \<le> length ces" and "len \<le> length name"
    and "\<forall>i < first. key_cmp (ce_key (ces ! i)) (take len name, stage) < 0"
    and "\<forall>i. last' \<le> i \<and> i < length ces \<longrightarrow> key_cmp (take len name, stage) (ce_key (ces ! i)) < 0"
  shows "\<exists>pos. (stage_pos_loop ces name len stage first last' = int pos \<and> pos < length ces \<and>
        ce_key (ces ! pos) = (take len name, stage)) \<or>
      (stage_pos_loop ces name len stage first last' = - int pos - 1 \<and> pos \<le> length ces \<and>
        (\<forall>i < pos. key_cmp (ce_key (ces ! i)) (take len name, stage) < 0) \<and>
        (\<forall>i. pos \<le> i \<and> i < length ces \<longrightarrow> key_cmp (take len name, stage) (ce_key (ces ! i)) < 0))"
  using assms
proof (induction ces name len stage first last' rule: stage_pos_loop.induct)
  case (1 ces name len stage first last')
  let ?k = "(take len name, stage)"
  show ?case
  proof (cases "last' > first")
    case False
    then show ?thesis using 1(3-8) by (subst (1 2) stage_pos_loop.simps) (intro exI [of _ first], auto)
  next
    case True
    define nxt where "nxt = (last' + first) div 2"
    define cmp where "cmp = cache_name_stage_compare name len stage (ce_name (ces ! nxt)) (ce_namelen (ces ! nxt)) (ce_stage (ces ! nxt))"
    have n: "first \<le> nxt" "nxt < last'" using True by (auto simp: nxt_def)
    have len: "nxt < length ces" using n 1(5) by simp
    have cmp: "cmp = key_cmp ?k (ce_key (ces ! nxt))"
      using cache_name_stage_compare_key [OF 1(6)] by (simp add: cmp_def ce_key_def)
    have up: "ce_less (ces ! i) (ces ! j)" if "i < j" "j < length ces" for i j
      using 1(3) that unfolding sorted_cache_def by (rule sorted_wrt_nth_less)
    consider "cmp = 0" | "cmp < 0" | "cmp > 0" by linarith
    then show ?thesis
    proof cases
      case a: 1
      then have "stage_pos_loop ces name len stage first last' = int nxt"
        using True by (subst stage_pos_loop.simps) (simp add: Let_def nxt_def [symmetric] cmp_def [symmetric])
      moreover have "ce_key (ces ! nxt) = ?k" using a cmp by simp
      ultimately show ?thesis using len by blast
    next
      case a: 2
      have eq: "stage_pos_loop ces name len stage first last' = stage_pos_loop ces name len stage first nxt"
        using True a by (subst stage_pos_loop.simps) (simp add: Let_def nxt_def [symmetric] cmp_def [symmetric])
      have "key_cmp ?k (ce_key (ces ! i)) < 0" if "nxt \<le> i" "i < length ces" for i
      proof (cases "i = nxt")
        case False
        then have "ce_less (ces ! nxt) (ces ! i)" using up that by simp
        then show ?thesis using a cmp key.cmp_less_trans unfolding ce_less_def by metis
      qed (use a cmp in simp)
      then show ?thesis
        unfolding eq using 1(1) [OF True nxt_def refl cmp_def _ a] a n len 1(3-8) by simp
    next
      case a: 3
      have eq: "stage_pos_loop ces name len stage first last' = stage_pos_loop ces name len stage (nxt + 1) last'"
        using True a by (subst stage_pos_loop.simps) (simp add: Let_def nxt_def [symmetric] cmp_def [symmetric])
      have *: "key_cmp (ce_key (ces ! nxt)) ?k < 0" using a cmp key.cmp_swap by metis
      have "key_cmp (ce_key (ces ! i)) ?k < 0" if "i < nxt + 1" for i
      proof (cases "i = nxt")
        case False
        then have "ce_less (ces ! i) (ces ! nxt)" using up that len by simp
        then show ?thesis using * key.cmp_less_trans unfolding ce_less_def by metis
      qed (use * in simp)
      then show ?thesis
        unfolding eq using 1(2) [OF True nxt_def refl cmp_def] a n len 1(3-8) by simp
    qed
  qed
qed

lemma index_name_stage_pos_cases:
  assumes "sorted_cache (is_cache s)" and "len \<le> length name"
  obtains (found) pos where "index_name_stage_pos s name len stage = int pos" "pos < cache_nr s"
      "ce_key (is_cache s ! pos) = (take len name, stage)"
  | (absent) pos where "index_name_stage_pos s name len stage = - int pos - 1"
      "key_place (is_cache s) (take len name, stage) pos"
proof -
  have "\<exists>pos. (index_name_stage_pos s name len stage = int pos \<and> pos < cache_nr s \<and>
        ce_key (is_cache s ! pos) = (take len name, stage)) \<or>
      (index_name_stage_pos s name len stage = - int pos - 1 \<and> pos \<le> cache_nr s \<and>
        (\<forall>i < pos. key_cmp (ce_key (is_cache s ! i)) (take len name, stage) < 0) \<and>
        (\<forall>i. pos \<le> i \<and> i < cache_nr s \<longrightarrow> key_cmp (take len name, stage) (ce_key (is_cache s ! i)) < 0))"
    unfolding index_name_stage_pos_def using assms by (intro stage_pos_loop_spec) auto
  then show thesis
  proof (elim exE disjE conjE)
    fix pos
    assume a: "index_name_stage_pos s name len stage = - int pos - 1" "pos \<le> cache_nr s"
      "\<forall>i < pos. key_cmp (ce_key (is_cache s ! i)) (take len name, stage) < 0"
      "\<forall>i. pos \<le> i \<and> i < cache_nr s \<longrightarrow> key_cmp (take len name, stage) (ce_key (is_cache s ! i)) < 0"
    have "key_place (is_cache s) (take len name, stage) pos"
      unfolding key_place_def using a(2-4)
      by (auto simp: in_set_conv_nth)
    then show thesis using absent a(1) by blast
  qed (use found in blast)
qed

section \<open>Removing entries\<close>

lemma sorted_cache_append:
  "sorted_cache (xs @ ys) \<longleftrightarrow> sorted_cache xs \<and> sorted_cache ys \<and> (\<forall>x \<in> set xs. \<forall>y \<in> set ys. ce_less x y)"
  by (auto simp: sorted_cache_def sorted_wrt_append)

lemma sorted_cache_Cons: "sorted_cache (x # xs) \<longleftrightarrow> (\<forall>y \<in> set xs. ce_less x y) \<and> sorted_cache xs"
  by (simp add: sorted_cache_def)

lemma sorted_cache_filter: "sorted_cache xs \<Longrightarrow> sorted_cache (filter P xs)"
  unfolding sorted_cache_def by (rule sorted_wrt_filter)

lemma sorted_cache_distinct: "sorted_cache xs \<Longrightarrow> distinct xs"
  by (induction xs) (auto simp: sorted_cache_def ce_less_def)

lemma sorted_cache_key_unique:
  "sorted_cache xs \<Longrightarrow> p \<in> set xs \<Longrightarrow> q \<in> set xs \<Longrightarrow> ce_key p = ce_key q \<Longrightarrow> p = q"
  by (induction xs) (auto simp: sorted_cache_Cons ce_less_def)

lemma sorted_cache_remove_at:
  assumes "sorted_cache xs" and "pos < length xs"
  shows "sorted_cache (remove_at pos xs)" "set (remove_at pos xs) = set xs - {xs ! pos}"
proof -
  have xs: "xs = take pos xs @ xs ! pos # drop (pos + 1) xs" using assms(2) by (simp add: Cons_nth_drop_Suc)
  have s: "sorted_cache (take pos xs @ xs ! pos # drop (pos + 1) xs)" using assms(1) xs by simp
  then show "sorted_cache (remove_at pos xs)"
    unfolding remove_at_def by (simp add: sorted_cache_append sorted_cache_Cons)
  have "distinct (take pos xs @ xs ! pos # drop (pos + 1) xs)" using s by (rule sorted_cache_distinct)
  then have "set (take pos xs @ drop (pos + 1) xs) = set (take pos xs @ xs ! pos # drop (pos + 1) xs) - {xs ! pos}"
    by auto
  then show "set (remove_at pos xs) = set xs - {xs ! pos}" unfolding remove_at_def using arg_cong [OF xs, of set] by (simp only:)
qed

lemma is_cache_remove [simp]: "is_cache (fst (remove_index_entry_at s pos)) = remove_at pos (is_cache s)"
  by (simp add: remove_index_entry_at_def Let_def)

lemma remove_at_append [simp]: "length xs = pos \<Longrightarrow> remove_at pos (xs @ y # ys) = xs @ ys"
  by (simp add: remove_at_def)

lemma ce_same_name_iff [simp]: "ce_same_name a b \<longleftrightarrow> ce_name a = ce_name b"
  by (auto simp: ce_same_name_def Let_def memcmp_names_zero)

lemma remove_unmerged_list:
  "is_cache s = xs @ ys \<Longrightarrow> length xs = pos \<Longrightarrow> remove_unmerged s ce pos ok = (s', ok') \<Longrightarrow>
   is_cache s' = xs @ dropWhile (\<lambda>p. ce_name p = ce_name ce) ys \<and>
   ok' = (ok \<or> ys \<noteq> [] \<and> ce_name (hd ys) = ce_name ce)"
proof (induction ys arbitrary: s ok)
  case Nil
  then show ?case by (simp add: remove_unmerged.simps)
next
  case (Cons y ys)
  show ?case
  proof (cases "ce_name y = ce_name ce")
    case False
    then show ?thesis using Cons.prems by (subst (asm) remove_unmerged.simps) (auto simp: nth_append)
  next
    case True
    let ?s = "fst (remove_index_entry_at s pos)"
    have nth: "is_cache s ! pos = y" using Cons.prems(1,2) by (simp add: nth_append)
    have c: "is_cache ?s = xs @ ys" using Cons.prems(1,2) by simp
    have m: "snd (remove_index_entry_at s pos) = (ys \<noteq> [])"
      using c Cons.prems(2) by (simp add: remove_index_entry_at_def Let_def)
    have "remove_unmerged s ce pos ok = (if ys \<noteq> [] then remove_unmerged ?s ce pos True else (?s, True))"
      using True nth Cons.prems(1,2) m
      by (subst remove_unmerged.simps) (simp add: split_beta del: is_cache_remove)
    then show ?thesis
      using Cons.IH [of ?s True] c Cons.prems(2,3) True by (auto split: if_splits simp del: is_cache_remove)
  qed
qed

text \<open>Behind the place of a name at stage 0 the entries of the name stand together.\<close>

lemma dropWhile_name:
  assumes "sorted_cache ys" and "\<forall>y \<in> set ys. key_cmp (n, 0) (ce_key y) \<le> 0"
  shows "set (dropWhile (\<lambda>p. ce_name p = n) ys) = {y \<in> set ys. ce_name y \<noteq> n}"
  using assms
proof (induction ys)
  case (Cons y ys)
  show ?case
  proof (cases "ce_name y = n")
    case False
    have "ce_name z \<noteq> n" if "z \<in> set ys" for z
    proof
      assume z: "ce_name z = n"
      have "strcmp n (ce_name y) \<le> 0" using Cons.prems(2) key_cmp_le_fst [of "(n, 0)" "ce_key y"]
        by (simp add: ce_key_def)
      moreover have "strcmp (ce_name y) n \<le> 0"
        using Cons.prems(1) that z key_cmp_le_fst [of "ce_key y" "ce_key z"]
        by (auto simp: sorted_cache_Cons ce_less_def ce_key_def)
      ultimately have "strcmp n (ce_name y) = 0" using strcmp_swap [of n "ce_name y"] by linarith
      then show False using False by simp
    qed
    then show ?thesis using False by auto
  qed (use Cons in \<open>auto simp: sorted_cache_Cons\<close>)
qed simp

lemma key_place_split:
  assumes "key_place ces k pos"
  obtains xs ys where "ces = xs @ ys" "length xs = pos"
    "\<forall>p \<in> set xs. key_cmp (ce_key p) k < 0" "\<forall>p \<in> set ys. key_cmp k (ce_key p) < 0"
  using assms that [of "take pos ces" "drop pos ces"] by (auto simp: key_place_def)

lemma key_placeI:
  "\<forall>p \<in> set xs. key_cmp (ce_key p) k < 0 \<Longrightarrow> \<forall>p \<in> set ys. key_cmp k (ce_key p) < 0 \<Longrightarrow> key_place (xs @ ys) k (length xs)"
  by (simp add: key_place_def)

lemma smaller_name_differs: "key_cmp (ce_key p) (n, 0) < 0 \<Longrightarrow> ce_name p \<noteq> n"
  by (auto simp: key_cmp_def ce_key_def split: if_split_asm)

lemma remove_unmerged_spec:
  assumes "sorted_cache (is_cache s)" and "key_place (is_cache s) (ce_name ce, 0) pos"
    and "remove_unmerged s ce pos ok = (s', ok')"
  shows "sorted_cache (is_cache s') \<and> key_place (is_cache s') (ce_name ce, 0) pos \<and>
    set (is_cache s') = {p \<in> set (is_cache s). ce_name p \<noteq> ce_name ce} \<and>
    ok' = (ok \<or> (\<exists>p \<in> set (is_cache s). ce_name p = ce_name ce))"
proof -
  obtain xs ys where d: "is_cache s = xs @ ys" "length xs = pos"
    "\<forall>p \<in> set xs. key_cmp (ce_key p) (ce_name ce, 0) < 0" "\<forall>p \<in> set ys. key_cmp (ce_name ce, 0) (ce_key p) < 0"
    using assms(2) by (rule key_place_split)
  let ?zs = "dropWhile (\<lambda>p. ce_name p = ce_name ce) ys"
  have l: "is_cache s' = xs @ ?zs" "ok' = (ok \<or> ys \<noteq> [] \<and> ce_name (hd ys) = ce_name ce)"
    using remove_unmerged_list [OF d(1,2) assms(3)] by auto
  have srt: "sorted_cache xs" "sorted_cache ys" "\<forall>x \<in> set xs. \<forall>y \<in> set ys. ce_less x y"
    using assms(1) d(1) by (auto simp: sorted_cache_append)
  have zs: "set ?zs = {y \<in> set ys. ce_name y \<noteq> ce_name ce}" using dropWhile_name [OF srt(2)] d(4) by (simp add: less_imp_le)
  have xs: "\<forall>p \<in> set xs. ce_name p \<noteq> ce_name ce" using d(3) smaller_name_differs by blast
  have "sorted_cache ?zs"
    using srt(2) takeWhile_dropWhile_id [of "\<lambda>p. ce_name p = ce_name ce" ys] by (metis sorted_cache_append)
  then have "sorted_cache (is_cache s')" using srt(1,3) zs l(1) by (auto simp: sorted_cache_append)
  moreover have "key_place (is_cache s') (ce_name ce, 0) pos"
    using key_placeI [of xs "(ce_name ce, 0)" ?zs] d zs l(1) by auto
  moreover have "set (is_cache s') = {p \<in> set (is_cache s). ce_name p \<noteq> ce_name ce}"
    using l(1) zs xs d(1) by auto
  moreover have "(ys \<noteq> [] \<and> ce_name (hd ys) = ce_name ce) = (\<exists>p \<in> set (is_cache s). ce_name p = ce_name ce)"
  proof
    assume "\<exists>p \<in> set (is_cache s). ce_name p = ce_name ce"
    then have "\<exists>p \<in> set ys. ce_name p = ce_name ce" using xs d(1) by auto
    then show "ys \<noteq> [] \<and> ce_name (hd ys) = ce_name ce"
      using zs hd_in_set [of ys] by (cases ys) (auto split: if_split_asm)
  qed (use d(1) in auto)
  ultimately show ?thesis using l(2) by blast
qed

section \<open>Conflicts between files and directories\<close>

definition below :: "string \<Rightarrow> string \<Rightarrow> bool" where
  "below n d \<longleftrightarrow> take (length d + 1) n = d @ ''/''"

lemma below_iff: "below n d \<longleftrightarrow> (\<exists>r. n = d @ CHR ''/'' # r)"
proof
  assume "below n d"
  then have "take (length d + 1) n = d @ ''/''" by (simp add: below_def)
  then have "n = (d @ ''/'') @ drop (length d + 1) n" by (metis append_take_drop_id)
  then show "\<exists>r. n = d @ CHR ''/'' # r" by (metis append.assoc append_Cons append_Nil)
qed (auto simp: below_def)

lemma below_test: "below n d \<longleftrightarrow> length d < length n \<and> take (length d) n = d \<and> n ! length d = CHR ''/''"
proof
  assume "length d < length n \<and> take (length d) n = d \<and> n ! length d = CHR ''/''"
  then show "below n d" by (auto simp: below_def take_Suc_conv_app_nth)
qed (auto simp: below_iff nth_append)

text \<open>Live entries of one stage of which one is a directory of the other.\<close>

definition live_at :: "nat \<Rightarrow> cache_entry \<Rightarrow> bool" where
  "live_at stage p \<longleftrightarrow> ce_stage p = stage \<and> \<not> ce_remove p"

definition df_free :: "nat \<Rightarrow> cache_entry set \<Rightarrow> bool" where
  "df_free stage S \<longleftrightarrow>
     (\<forall>p \<in> S. \<forall>q \<in> S. live_at stage p \<and> live_at stage q \<longrightarrow> \<not> below (ce_name q) (ce_name p))"

definition children :: "cache_entry set \<Rightarrow> cache_entry \<Rightarrow> cache_entry set" where
  "children S ce = {p \<in> S. live_at (ce_stage ce) p \<and> below (ce_name p) (ce_name ce)}"

definition parents :: "cache_entry set \<Rightarrow> cache_entry \<Rightarrow> cache_entry set" where
  "parents S ce = {p \<in> S. live_at (ce_stage ce) p \<and> below (ce_name ce) (ce_name p)}"

definition inside :: "cache_entry \<Rightarrow> cache_entry \<Rightarrow> bool" where
  "inside ce p \<longleftrightarrow> ce_namelen ce < ce_namelen p \<and> take (ce_namelen ce) (ce_name p) = ce_name ce"

definition is_child :: "cache_entry \<Rightarrow> cache_entry \<Rightarrow> bool" where
  "is_child ce p \<longleftrightarrow> live_at (ce_stage ce) p \<and> below (ce_name p) (ce_name ce)"

lemma file_name_loop_list:
  "is_cache s = xs @ ys \<Longrightarrow> length xs = pos \<Longrightarrow> file_name_loop s ce pos ok ret = (s', ret') \<Longrightarrow>
   is_cache s' = (if ok then xs @ filter (\<lambda>p. \<not> is_child ce p) (takeWhile (inside ce) ys) @ dropWhile (inside ce) ys
                  else is_cache s) \<and>
   ret' = (if \<exists>p \<in> set (takeWhile (inside ce) ys). is_child ce p then -1 else ret)"
proof (induction ys arbitrary: s xs pos ret)
  case Nil
  then show ?case by (simp add: file_name_loop.simps)
next
  case (Cons p ys)
  have lt: "pos < cache_nr s" and nth: "is_cache s ! pos = p" using Cons.prems(1,2) by (simp_all add: nth_append)
  show ?case
  proof (cases "inside ce p")
    case False
    then have "file_name_loop s ce pos ok ret = (s, ret)"
      using lt nth by (subst file_name_loop.simps) (auto simp: Let_def inside_def memcmp_names_zero)
    then show ?thesis using Cons.prems False by simp
  next
    case True
    have i: "\<not> ce_namelen p \<le> ce_namelen ce" "memcmp_names (ce_name ce) (ce_name p) (ce_namelen ce) = 0"
      using True by (simp_all add: inside_def memcmp_names_zero)
    have c: "is_child ce p \<longleftrightarrow> ce_stage p = ce_stage ce \<and> \<not> ce_remove p \<and> ce_name p ! ce_namelen ce = CHR ''/''"
      using True by (auto simp: is_child_def live_at_def below_test inside_def)
    show ?thesis
    proof (cases "is_child ce p")
      case False
      then have "file_name_loop s ce pos ok ret = file_name_loop s ce (pos + 1) ok ret"
        using lt nth i unfolding c by (subst file_name_loop.simps) (auto simp: Let_def)
      then show ?thesis using Cons.IH [of s "xs @ [p]" "pos + 1" ret] Cons.prems True False by simp
    next
      case child: True
      show ?thesis
      proof (cases ok)
        case False
        then have "file_name_loop s ce pos ok ret = (s, -1)"
          using lt nth i child unfolding c by (subst file_name_loop.simps) (auto simp: Let_def)
        then show ?thesis using Cons.prems True False child by auto
      next
        case okay: True
        let ?s = "fst (remove_index_entry_at s pos)"
        have "file_name_loop s ce pos ok ret = file_name_loop ?s ce pos ok (-1)"
          using lt nth i child okay unfolding c
          by (subst file_name_loop.simps) (simp add: Let_def del: is_cache_remove)
        moreover have "is_cache ?s = xs @ ys" using Cons.prems(1,2) by simp
        ultimately show ?thesis using Cons.IH [of ?s xs pos "-1"] Cons.prems(2,3) True child okay by simp
      qed
    qed
  qed
qed

lemma strcmp_between:
  "strcmp n y < 0 \<Longrightarrow> strcmp y (n @ r) \<le> 0 \<Longrightarrow> take (length n) y = n \<and> length n < length y"
proof (induction n y arbitrary: r rule: strcmp.induct)
  case (4 c n d y)
  then show ?case by (auto split: if_split_asm)
qed auto

lemma key_less_names: "key_cmp (ce_key p) (ce_key q) < 0 \<Longrightarrow> strcmp (ce_name p) (ce_name q) \<le> 0"
  using key_cmp_le_fst [of "ce_key p" "ce_key q"] by (simp add: ce_key_def)

lemma takeWhile_inside:
  assumes "sorted_cache ys" and "\<forall>y \<in> set ys. key_cmp (ce_key ce) (ce_key y) < 0"
    and "\<forall>y \<in> set ys. ce_name y \<noteq> ce_name ce"
  shows "p \<in> set ys \<Longrightarrow> inside ce p \<Longrightarrow> p \<in> set (takeWhile (inside ce) ys)"
  using assms
proof (induction ys)
  case (Cons y ys)
  have "inside ce y" if p: "p \<in> set ys"
  proof -
    obtain r where r: "ce_name p = ce_name ce @ r"
      using Cons.prems(2) unfolding inside_def by (metis append_take_drop_id)
    have "strcmp (ce_name ce) (ce_name y) \<le> 0"
      using Cons.prems(4) key_cmp_le_fst [of "ce_key ce" "ce_key y"] by (simp add: ce_key_def)
    moreover have "strcmp (ce_name ce) (ce_name y) \<noteq> 0"
      using Cons.prems(5) unfolding strcmp_zero by (metis list.set_intros(1))
    moreover have "strcmp (ce_name y) (ce_name ce @ r) \<le> 0"
      using Cons.prems(3) p key_less_names [of y p] r
      by (simp add: sorted_cache_Cons ce_less_def)
    moreover have "strcmp (ce_name ce) (ce_name y) < 0" using calculation(1,2) by linarith
    ultimately show ?thesis
      using strcmp_between [of "ce_name ce" "ce_name y" r] by (simp add: inside_def)
  qed
  then show ?case using Cons by (auto simp: sorted_cache_Cons)
qed simp

lemma below_inside: "below (ce_name p) (ce_name ce) \<Longrightarrow> inside ce p"
  by (auto simp: below_test inside_def)

lemma below_larger: "below n d \<Longrightarrow> strcmp d n < 0"
proof -
  have "strcmp d (d @ CHR ''/'' # r) < 0" for r by (induction d) auto
  then show "below n d \<Longrightarrow> strcmp d n < 0" by (auto simp: below_iff)
qed

lemma has_file_name_spec:
  assumes "sorted_cache (is_cache s)" and "key_place (is_cache s) (ce_key ce) pos"
    and "\<forall>p \<in> set (is_cache s). ce_name p \<noteq> ce_name ce \<or> key_cmp (ce_key p) (ce_key ce) < 0"
    and "has_file_name s ce pos ok = (s', ret)"
  shows "sorted_cache (is_cache s') \<and>
    set (is_cache s') = (if ok then set (is_cache s) - children (set (is_cache s)) ce else set (is_cache s)) \<and>
    ret = (if children (set (is_cache s)) ce = {} then 0 else -1)"
proof -
  obtain xs ys where d: "is_cache s = xs @ ys" "length xs = pos"
    "\<forall>p \<in> set xs. key_cmp (ce_key p) (ce_key ce) < 0" "\<forall>p \<in> set ys. key_cmp (ce_key ce) (ce_key p) < 0"
    using assms(2) by (rule key_place_split)
  let ?t = "takeWhile (inside ce) ys" and ?d = "dropWhile (inside ce) ys"
  have l: "is_cache s' = (if ok then xs @ filter (\<lambda>p. \<not> is_child ce p) ?t @ ?d else is_cache s)"
    "ret = (if \<exists>p \<in> set ?t. is_child ce p then -1 else 0)"
    using file_name_loop_list [OF d(1,2) assms(4) [unfolded has_file_name_def]] by auto
  have srt: "sorted_cache xs" "sorted_cache ys" "\<forall>x \<in> set xs. \<forall>y \<in> set ys. ce_less x y"
    using assms(1) d(1) by (auto simp: sorted_cache_append)
  have "\<forall>y \<in> set ys. ce_name y \<noteq> ce_name ce"
    using assms(3) d(1,4) key.cmp_swap by (metis Un_iff less_asym set_append)
  note tw = takeWhile_inside [OF srt(2) d(4) this]
  have notxs: "\<not> is_child ce p" if "p \<in> set xs" for p
  proof
    assume "is_child ce p"
    then have "strcmp (ce_name ce) (ce_name p) < 0" by (auto simp: is_child_def below_larger)
    moreover have "strcmp (ce_name p) (ce_name ce) \<le> 0"
      using d(3) that key_less_names [of p ce] by simp
    ultimately show False using strcmp_swap [of "ce_name ce" "ce_name p"] by linarith
  qed
  have tds: "set ys = set ?t \<union> set ?d" by (metis set_append takeWhile_dropWhile_id)
  have dist: "set ?t \<inter> set ?d = {}" 
    using sorted_cache_distinct [OF srt(2)] by (metis distinct_append takeWhile_dropWhile_id)
  have ch: "children (set (is_cache s)) ce = {p \<in> set ?t. is_child ce p}"
    using notxs tw d(1) below_inside tds unfolding children_def is_child_def by fastforce
  have notd: "\<not> is_child ce p" if "p \<in> set ?d" for p
  proof
    assume "is_child ce p"
    then have "p \<in> set ?t" using that tw tds below_inside unfolding is_child_def by blast
    then show False using that dist by blast
  qed
  have "sorted_cache (xs @ filter (\<lambda>p. \<not> is_child ce p) ?t @ ?d)"
  proof -
    have "sorted_cache (?t @ ?d)" using srt(2) by simp
    then have "sorted_cache ?t" "sorted_cache ?d" "\<forall>x \<in> set ?t. \<forall>y \<in> set ?d. ce_less x y"
      unfolding sorted_cache_append by auto
    then show ?thesis using srt(1,3) tds by (auto simp: sorted_cache_append sorted_cache_filter)
  qed
  moreover have "set (xs @ filter (\<lambda>p. \<not> is_child ce p) ?t @ ?d) = set (is_cache s) - children (set (is_cache s)) ce"
    unfolding ch using d(1) notxs notd tds by auto
  ultimately show ?thesis using l ch assms(1) by (auto split: if_splits)
qed

text \<open>Going up from slash to slash visits every directory of the name.\<close>

lemma prev_slash_cases:
  "prev_slash n k = None \<Longrightarrow> i < k \<Longrightarrow> n ! i \<noteq> CHR ''/''"
  "prev_slash n k = Some len \<Longrightarrow> n ! len = CHR ''/'' \<and> (\<forall>i. len < i \<and> i < k \<longrightarrow> n ! i \<noteq> CHR ''/'')"
  by (induction k) (auto split: if_split_asm simp: less_Suc_eq)

lemma subdirectory_foundD:
  "subdirectory_found s n len stage pos \<Longrightarrow> len \<le> length n \<Longrightarrow>
   \<exists>p \<in> set (is_cache s). live_at stage p \<and> below (ce_name p) (take len n)"
proof (induction s n len stage pos rule: subdirectory_found.induct)
  case (1 s n len stage pos)
  let ?p = "is_cache s ! pos"
  have pos: "pos < cache_nr s" using 1(2) by (subst (asm) subdirectory_found.simps) (simp split: if_split_asm)
  have c: "\<not> (ce_namelen ?p \<le> len \<or> ce_name ?p ! len \<noteq> CHR ''/'' \<or> memcmp_names (ce_name ?p) n len \<noteq> 0)"
    using 1(2) pos by (subst (asm) subdirectory_found.simps) (simp add: Let_def split: if_split_asm)
  show ?case
  proof (cases "ce_stage ?p = stage \<and> \<not> ce_remove ?p")
    case True
    have "below (ce_name ?p) (take len n)"
      using c 1(3) by (auto simp: below_test memcmp_names_zero min_def)
    then show ?thesis using True pos by (auto simp: live_at_def)
  next
    case False
    then have "subdirectory_found s n len stage (pos + 1)"
      using 1(2) pos c by (subst (asm) subdirectory_found.simps) (auto simp: Let_def split: if_split_asm)
    then show ?thesis using 1(1) [OF pos refl c False _ 1(3)] by blast
  qed
qed

definition parents_to :: "nat \<Rightarrow> cache_entry set \<Rightarrow> cache_entry \<Rightarrow> cache_entry set" where
  "parents_to k S ce = {p \<in> parents S ce. ce_namelen p < k}"

lemma parents_to_all: "parents_to (ce_namelen ce) S ce = parents S ce"
  by (auto simp: parents_to_def parents_def below_test)

lemma below_take: "len < length n \<Longrightarrow> n ! len = CHR ''/'' \<Longrightarrow> below n (take len n)"
  by (simp add: below_test)

lemma parents_to_step:
  assumes "prev_slash (ce_name ce) k = Some len" and "k \<le> ce_namelen ce"
  shows "parents_to k S ce = parents_to len S ce \<union>
    {p \<in> S. live_at (ce_stage ce) p \<and> ce_name p = take len (ce_name ce)}"
proof -
  note c = prev_slash_cases(2) [OF assms(1)]
  have len: "len < k" using assms(1) by (rule prev_slash_less)
  have b: "below (ce_name ce) (take len (ce_name ce))" using c len assms(2) by (intro below_take) auto
  have l: "length (take len (ce_name ce)) = len" using len assms(2) by simp
  have "ce_namelen p < len \<or> ce_name p = take len (ce_name ce)"
    if "below (ce_name ce) (ce_name p)" "ce_namelen p < k" for p
  proof (cases "ce_namelen p < len")
    case False
    have "ce_name ce ! ce_namelen p = CHR ''/''" "take (ce_namelen p) (ce_name ce) = ce_name p"
      using that(1) by (auto simp: below_test)
    then have "ce_namelen p = len" using c that(2) False by (metis linorder_neqE_nat)
    then show ?thesis using \<open>take (ce_namelen p) (ce_name ce) = ce_name p\<close> by simp
  qed simp
  then show ?thesis using b l len by (auto simp: parents_to_def parents_def)
qed

lemma below_trans_down: "below q (take len n) \<Longrightarrow> below n d \<Longrightarrow> length d < len \<Longrightarrow> len \<le> length n \<Longrightarrow> below q d"
proof -
  assume q: "below q (take len n)" and n: "below n d" and l: "length d < len" "len \<le> length n"
  have "length (take len n) = len" using l(2) by simp
  then have t: "take len q = take len n" "len < length q" using q unfolding below_test by simp_all
  have "take (length d + 1) q = take (length d + 1) (take len q)" using l(1) by (simp add: min_def)
  also have "\<dots> = take (length d + 1) n" unfolding t(1) using l(1) by (simp add: min_def)
  also have "\<dots> = d @ ''/''" using n by (simp add: below_def)
  finally show ?thesis by (simp add: below_def)
qed

lemma df_free_shorter: "df_free st S \<Longrightarrow> T \<subseteq> S \<Longrightarrow> df_free st T"
  by (auto simp: df_free_def)

lemma dir_name_loop_spec:
  "sorted_cache (is_cache s) \<Longrightarrow> df_free (ce_stage ce) (set (is_cache s)) \<Longrightarrow> k \<le> ce_namelen ce \<Longrightarrow>
   dir_name_loop s ce k ok ret = (s', ret') \<Longrightarrow>
   sorted_cache (is_cache s') \<and>
   set (is_cache s') = (if ok then set (is_cache s) - parents_to k (set (is_cache s)) ce else set (is_cache s)) \<and>
   ret' = (if parents_to k (set (is_cache s)) ce = {} then ret else -1)"
proof (induction s ce k ok ret rule: dir_name_loop.induct)
  case (1 s ce k ok ret)
  let ?S = "set (is_cache s)"
  show ?case
  proof (cases "prev_slash (ce_name ce) k")
    case None
    then have "parents_to k ?S ce = {}"
      using prev_slash_cases(1) [OF None] by (auto simp: parents_to_def parents_def below_test)
    moreover have "s' = s" "ret' = ret" using 1(6) None by (subst (asm) dir_name_loop.simps, simp)+
    ultimately show ?thesis using 1(3) by simp
  next
    case (Some len)
    have len: "len < k" "len \<le> ce_namelen ce" using prev_slash_less [OF Some] 1(5) by auto
    note step = parents_to_step [OF Some 1(5), of ?S]
    define here where "here = {p \<in> ?S. live_at (ce_stage ce) p \<and> ce_name p = take len (ce_name ce)}"
    define pos where "pos = index_name_stage_pos s (ce_name ce) len (ce_stage ce)"
    have rec: "dir_name_loop s ce k ok ret =
       (if pos \<ge> 0 \<and> \<not> ce_remove (is_cache s ! nat pos)
        then if \<not> ok then (s, -1) else dir_name_loop (fst (remove_index_entry_at s (nat pos))) ce len ok (-1)
        else if subdirectory_found s (ce_name ce) len (ce_stage ce) (nat (if pos \<ge> 0 then pos else - pos - 1))
             then (s, ret) else dir_name_loop s ce len ok ret)"
      using Some by (subst dir_name_loop.simps) (simp add: pos_def Let_def del: is_cache_remove)
    show ?thesis
    proof (cases "pos \<ge> 0 \<and> \<not> ce_remove (is_cache s ! nat pos)")
      case True
      obtain i where i: "pos = int i" "i < cache_nr s" "ce_key (is_cache s ! i) = (take len (ce_name ce), ce_stage ce)"
        using index_name_stage_pos_cases [OF 1(3) len(2), of "ce_stage ce"] True unfolding pos_def by force
      let ?p = "is_cache s ! i"
      have p: "?p \<in> ?S" "live_at (ce_stage ce) ?p" "ce_name ?p = take len (ce_name ce)"
        using i True by (auto simp: ce_key_def live_at_def)
      have here: "here = {?p}"
      proof
        have "q = ?p" if "q \<in> here" for q
          using sorted_cache_key_unique [OF 1(3) _ p(1), of q] that i(3) by (simp add: here_def ce_key_def live_at_def)
        then show "here \<subseteq> {?p}" by blast
        show "{?p} \<subseteq> here" using p by (simp add: here_def)
      qed
      show ?thesis
      proof (cases ok)
        case False
        then show ?thesis using 1(3,6) rec True step here unfolding here_def by auto
      next
        case okay: True
        let ?s = "fst (remove_index_entry_at s i)"
        have d: "dir_name_loop ?s ce len ok (-1) = (s', ret')" using 1(6) rec True okay i(1) by simp
        have srt: "sorted_cache (is_cache ?s)" and st: "set (is_cache ?s) = ?S - {?p}"
          using sorted_cache_remove_at [OF 1(3) i(2)] by simp_all
        have ih: "sorted_cache (is_cache s') \<and>
            set (is_cache s') = set (is_cache ?s) - parents_to len (set (is_cache ?s)) ce \<and>
            ret' = -1"
        proof -
          have "nat pos = i" "\<not> \<not> ok" using i(1) okay by simp_all
          moreover have "df_free (ce_stage ce) (set (is_cache ?s))"
            unfolding st by (rule df_free_shorter [OF 1(4)]) blast
          ultimately show ?thesis
            using 1(1) [OF Some pos_def True] srt len(2) d okay by (simp del: is_cache_remove)
        qed
        have "parents_to k ?S ce = parents_to len ?S ce \<union> {?p}" using step here unfolding here_def by simp
        moreover have "parents_to len (?S - {?p}) ce = parents_to len ?S ce - {?p}"
          by (auto simp: parents_to_def parents_def)
        ultimately show ?thesis using ih okay st by auto
      qed
    next
      case False
      have here: "here = {}"
      proof (rule ccontr)
        assume "here \<noteq> {}"
        then obtain p where p: "p \<in> ?S" "live_at (ce_stage ce) p" "ce_name p = take len (ce_name ce)"
          by (auto simp: here_def)
        have key: "ce_key p = (take len (ce_name ce), ce_stage ce)" using p by (simp add: ce_key_def live_at_def)
        show False
        proof (cases rule: index_name_stage_pos_cases [OF 1(3) len(2), of "ce_stage ce", case_names found absent])
          case (found i)
          then have "is_cache s ! i = p" using sorted_cache_key_unique [OF 1(3) _ p(1)] key by simp
          then show False using False found(1) p(2) by (auto simp: pos_def live_at_def)
        next
          case (absent i)
          have "p \<in> set (take i (is_cache s)) \<or> p \<in> set (drop i (is_cache s))"
            using p(1) by (metis Un_iff append_take_drop_id set_append)
          then show False using absent(2) key unfolding key_place_def by force
        qed
      qed
      then have eq: "parents_to k ?S ce = parents_to len ?S ce" using step unfolding here_def [symmetric] by simp
      show ?thesis
      proof (cases "subdirectory_found s (ce_name ce) len (ce_stage ce) (nat (if pos \<ge> 0 then pos else - pos - 1))")
        case True
        obtain q where q: "q \<in> ?S" "live_at (ce_stage ce) q" "below (ce_name q) (take len (ce_name ce))"
          using subdirectory_foundD [OF True len(2)] by blast
        have "parents_to len ?S ce = {}"
        proof -
          have "\<not> below (ce_name q) (ce_name p)" if "p \<in> ?S" "live_at (ce_stage ce) p" for p
            using 1(4) q that unfolding df_free_def by blast
          then show ?thesis
            using below_trans_down [OF q(3) _ _ len(2)] by (auto simp: parents_to_def parents_def)
        qed
        then show ?thesis using 1(3,6) rec False True eq by auto
      next
        case nf: False
        then have d: "dir_name_loop s ce len ok ret = (s', ret')" using 1(6) rec False by auto
        show ?thesis
          using 1(2) [OF Some pos_def False refl nf 1(3,4) len(2) d] unfolding eq .
      qed
    qed
  qed
qed

end
