(* ===== verification/Index_Add.thy ===== *)
theory Index_Add
  imports Index
begin

text \<open>
  What the operations of the index (theory \<^verbatim>\<open>Index\<close>, \<^verbatim>\<open>read-cache.c\<close>) do, as operations on sets of entries: adding an
  entry with its errors, looking names up and removing them, the states a merged index can reach, and the orders
  of names in trees. The last section shows three gaps in the checks.
\<close>

section \<open>What adding an entry does\<close>

text \<open>The specification on sets of entries: what is in the way, and what the result is.\<close>

definition conflicts :: "cache_entry set \<Rightarrow> cache_entry \<Rightarrow> cache_entry set" where
  "conflicts S ce = (if ce_remove ce then {} else children S ce \<union> parents S ce)"

definition unmerged_twins :: "cache_entry set \<Rightarrow> cache_entry \<Rightarrow> cache_entry set" where
  "unmerged_twins S ce = (if ce_stage ce = 0 then {p \<in> S. ce_name p = ce_name ce} else {})"

definition add_spec ::
  "bool \<Rightarrow> cache_entry set \<Rightarrow> cache_entry \<Rightarrow> u32 \<Rightarrow> cache_entry set \<times> (add_error + unit)" where
  "add_spec verified S ce option =
     (if \<exists>p \<in> S. ce_key p = ce_key ce
      then if option AND ADD_CACHE_NEW_ONLY \<noteq> 0 then (S, Inr ())
           else (insert (ce\<lparr>ce_flags := ce_flags ce OR CE_UPDATE_IN_BASE\<rparr>) {p \<in> S. ce_key p \<noteq> ce_key ce}, Inr ())
      else let T = S - unmerged_twins S ce
           in if option AND ADD_CACHE_OK_TO_ADD = 0 \<and> unmerged_twins S ce = {} then (S, Inl Not_Ok_To_Add)
              else if \<not> verified then (T, Inl Invalid_Path)
              else if option AND ADD_CACHE_OK_TO_REPLACE = 0 \<and> conflicts T ce \<noteq> {} then (T, Inl File_And_Directory)
              else (insert ce (T - conflicts T ce), Inr ()))"

definition add_ready :: "cache_entry set \<Rightarrow> cache_entry \<Rightarrow> bool" where
  "add_ready S ce \<longleftrightarrow> df_free (ce_stage ce) S \<and>
     (ce_stage ce = 0 \<or> (\<forall>p \<in> S. ce_name p = ce_name ce \<longrightarrow> ce_stage p \<le> ce_stage ce))"

lemma check_conflict_spec:
  assumes "sorted_cache (is_cache s)" and "df_free (ce_stage ce) (set (is_cache s))"
    and "key_place (is_cache s) (ce_key ce) pos"
    and "\<forall>p \<in> set (is_cache s). ce_name p \<noteq> ce_name ce \<or> key_cmp (ce_key p) (ce_key ce) < 0"
    and "check_file_directory_conflict s ce pos ok = (s', ret)"
  shows "sorted_cache (is_cache s') \<and>
    set (is_cache s') = (if ok then set (is_cache s) - conflicts (set (is_cache s)) ce else set (is_cache s)) \<and>
    (ret = 0 \<longleftrightarrow> conflicts (set (is_cache s)) ce = {})"
proof (cases "ce_remove ce")
  case True
  then show ?thesis using assms(1,5) by (simp add: check_file_directory_conflict_def conflicts_def)
next
  case False
  let ?S = "set (is_cache s)"
  obtain s1 r1 where 1: "has_file_name s ce pos ok = (s1, r1)" by fastforce
  obtain s2 r2 where 2: "has_dir_name s1 ce pos ok = (s2, r2)" by fastforce
  have r: "s' = s2" "ret = r1 + r2"
    using assms(5) False 1 2 by (simp_all add: check_file_directory_conflict_def)
  note f = has_file_name_spec [OF assms(1,3,4) 1]
  have "df_free (ce_stage ce) (set (is_cache s1))"
    by (rule df_free_shorter [OF assms(2)]) (use f in \<open>auto split: if_split_asm\<close>)
  from dir_name_loop_spec [OF _ this order_refl 2 [unfolded has_dir_name_def]] f
  have d: "sorted_cache (is_cache s2) \<and>
      set (is_cache s2) = (if ok then set (is_cache s1) - parents (set (is_cache s1)) ce else set (is_cache s1)) \<and>
      r2 = (if parents (set (is_cache s1)) ce = {} then 0 else -1)"
    unfolding parents_to_all by blast
  have p: "parents (set (is_cache s1)) ce = parents ?S ce"
  proof -
    have "\<not> (below (ce_name q) (ce_name ce) \<and> below (ce_name ce) (ce_name q))" for q
      by (auto simp: below_test)
    then have "parents (?S - children ?S ce) ce = parents ?S ce"
      unfolding parents_def children_def by blast
    then show ?thesis using f by (simp split: if_split_asm)
  qed
  show ?thesis
    unfolding r using f d False unfolding p by (auto simp: conflicts_def)
qed

lemma key_place_set:
  assumes "sorted_cache ces" and "key_place ces (ce_key ce) pos"
  shows "sorted_cache (insert_at pos ce ces) \<and> set (insert_at pos ce ces) = insert ce (set ces)"
  using assms(2)
proof (rule key_place_split)
  fix xs ys
  assume d: "ces = xs @ ys" "length xs = pos" "\<forall>p \<in> set xs. key_cmp (ce_key p) (ce_key ce) < 0"
    "\<forall>p \<in> set ys. key_cmp (ce_key ce) (ce_key p) < 0"
  then have "insert_at pos ce ces = xs @ ce # ys" by (simp add: insert_at_def)
  then show ?thesis
    using d assms(1) by (auto simp: sorted_cache_append sorted_cache_Cons ce_less_def)
qed

lemma sorted_cache_update:
  assumes "sorted_cache ces" and "pos < length ces" and "ce_key ce = ce_key (ces ! pos)"
  shows "sorted_cache (ces[pos := ce]) \<and> set (ces[pos := ce]) = insert ce {p \<in> set ces. ce_key p \<noteq> ce_key ce}"
proof -
  have eq: "ces = take pos ces @ ces ! pos # drop (Suc pos) ces" using assms(2) by (simp add: id_take_nth_drop [symmetric])
  have up: "ces[pos := ce] = take pos ces @ ce # drop (Suc pos) ces" using assms(2) by (simp add: upd_conv_take_nth_drop)
  have s: "sorted_cache (take pos ces @ ces ! pos # drop (Suc pos) ces)" using assms(1) eq by simp
  have "sorted_cache (take pos ces @ ce # drop (Suc pos) ces)"
    using s assms(3) by (auto simp: sorted_cache_append sorted_cache_Cons ce_less_def)
  moreover have "{p \<in> set ces. ce_key p \<noteq> ce_key ce} = set (take pos ces @ drop (Suc pos) ces)"
  proof -
    have "set ces = set (take pos ces @ ces ! pos # drop (Suc pos) ces)" using eq by simp
    moreover have "ce_key p \<noteq> ce_key ce" if "p \<in> set (take pos ces @ drop (Suc pos) ces)" for p
      using s that assms(3) by (auto simp: sorted_cache_append sorted_cache_Cons ce_less_def)
    ultimately show ?thesis using assms(3) by auto
  qed
  ultimately show ?thesis unfolding up by auto
qed

lemma key_present_iff:
  assumes "sorted_cache ces" and "key_place ces k pos"
  shows "\<not> (\<exists>p \<in> set ces. ce_key p = k)"
  using assms(2)
proof (rule key_place_split)
  fix xs ys
  assume "ces = xs @ ys" "\<forall>p \<in> set xs. key_cmp (ce_key p) k < 0" "\<forall>p \<in> set ys. key_cmp k (ce_key p) < 0"
  then show ?thesis by force
qed

lemma ce_stage_flags:
  "ce_stage (ce\<lparr>ce_flags := ce_flags ce OR CE_UPDATE_IN_BASE\<rparr>) = ce_stage ce"
  "ce_remove (ce\<lparr>ce_flags := ce_flags ce OR CE_UPDATE_IN_BASE\<rparr>) = ce_remove ce"
proof -
  have "(w OR 0x8000000) AND 0x3000 = w AND (0x3000 :: u32)" for w
    by (simp add: bit.conj_disj_distrib2)
  then show "ce_stage (ce\<lparr>ce_flags := ce_flags ce OR CE_UPDATE_IN_BASE\<rparr>) = ce_stage ce"
    by (simp add: ce_stage_def and.commute)
  have "(w OR 0x8000000) AND 0x20000 = w AND (0x20000 :: u32)" for w
    by (simp add: bit.conj_disj_distrib2)
  then show "ce_remove (ce\<lparr>ce_flags := ce_flags ce OR CE_UPDATE_IN_BASE\<rparr>) = ce_remove ce"
    by (simp add: ce_remove_def)
qed

lemma sorted_cache_unique: "sorted_cache xs \<Longrightarrow> sorted_cache ys \<Longrightarrow> set xs = set ys \<Longrightarrow> xs = ys"
proof (induction xs arbitrary: ys)
  case (Cons x xs)
  obtain y zs where ys: "ys = y # zs" using Cons.prems(3) by (cases ys) auto
  have x: "\<forall>z \<in> set xs. ce_less x z" and y: "\<forall>z \<in> set zs. ce_less y z"
    using Cons.prems(1,2) ys by (simp_all add: sorted_cache_Cons)
  have "x = y"
  proof (rule ccontr)
    assume "x \<noteq> y"
    then have "x \<in> set zs" "y \<in> set xs" using Cons.prems(3) ys by auto
    then show False using x y ce_less_asym by blast
  qed
  moreover have "x \<notin> set xs" "y \<notin> set zs" using x y ce_less_asym by blast+
  ultimately have "set xs = set zs" using Cons.prems(3) ys by auto
  then show ?case using Cons.IH Cons.prems(1,2) ys \<open>x = y\<close> by (simp add: sorted_cache_Cons)
qed simp

definition drop_twins :: "index_state \<Rightarrow> cache_entry \<Rightarrow> nat \<Rightarrow> bool \<Rightarrow> index_state \<times> bool" where
  "drop_twins s ce pos ok =
     (if pos < cache_nr s \<and> ce_stage ce = 0 then remove_unmerged s ce pos ok else (s, ok))"

lemma drop_twins_spec:
  assumes "sorted_cache (is_cache s)" and "key_place (is_cache s) (ce_key ce) pos"
    and "drop_twins s ce pos ok = (s', ok')"
  shows "sorted_cache (is_cache s') \<and> key_place (is_cache s') (ce_key ce) pos \<and>
    set (is_cache s') = set (is_cache s) - unmerged_twins (set (is_cache s)) ce \<and>
    ok' = (ok \<or> unmerged_twins (set (is_cache s)) ce \<noteq> {})"
proof (cases "ce_stage ce = 0")
  case False
  then show ?thesis using assms by (simp add: drop_twins_def unmerged_twins_def)
next
  case True
  have "remove_unmerged s ce pos ok = (s', ok')"
  proof (cases "pos < cache_nr s")
    case False
    then show ?thesis using assms(3) by (subst remove_unmerged.simps) (simp add: drop_twins_def)
  qed (use assms(3) True in \<open>simp add: drop_twins_def\<close>)
  from remove_unmerged_spec [OF assms(1) _ this] assms(2) True
  show ?thesis by (auto simp: ce_key_def unmerged_twins_def)
qed

lemma after_twins:
  assumes "add_ready S ce" and "\<not> (\<exists>p \<in> S. ce_key p = ce_key ce)"
  shows "df_free (ce_stage ce) (S - unmerged_twins S ce)"
    and "\<forall>p \<in> S - unmerged_twins S ce. ce_name p \<noteq> ce_name ce \<or> key_cmp (ce_key p) (ce_key ce) < 0"
proof -
  show "df_free (ce_stage ce) (S - unmerged_twins S ce)"
    using assms(1) df_free_shorter unfolding add_ready_def by blast
  show "\<forall>p \<in> S - unmerged_twins S ce. ce_name p \<noteq> ce_name ce \<or> key_cmp (ce_key p) (ce_key ce) < 0"
  proof (cases "ce_stage ce = 0")
    case False
    have "key_cmp (ce_key p) (ce_key ce) < 0" if "p \<in> S" "ce_name p = ce_name ce" for p
    proof -
      have "ce_stage p \<le> ce_stage ce" using assms(1) that False by (simp add: add_ready_def)
      moreover have "ce_stage p \<noteq> ce_stage ce" using assms(2) that by (auto simp: ce_key_def)
      ultimately show ?thesis using that(2) by (simp add: key_cmp_def ce_key_def)
    qed
    then show ?thesis by blast
  qed (auto simp: unmerged_twins_def)
qed

lemma add_with_check_unfold:
  assumes "option AND ADD_CACHE_SKIP_DFCHECK = 0"
  shows "add_index_entry_with_check h n s ce option =
    (let pos = index_name_stage_pos s (ce_name ce) (ce_namelen ce) (ce_stage ce)
     in if pos \<ge> 0 then (if \<not> option AND ADD_CACHE_NEW_ONLY \<noteq> 0 then replace_index_entry s (nat pos) ce else s, Inr 0)
        else case drop_twins s ce (nat (- pos - 1)) (option AND ADD_CACHE_OK_TO_ADD \<noteq> 0) of (s1, ok) \<Rightarrow>
          if \<not> ok then (s1, Inl Not_Ok_To_Add)
          else if \<not> verify_path h n (ce_name ce) then (s1, Inl Invalid_Path)
          else case check_file_directory_conflict s1 ce (nat (- pos - 1)) (option AND ADD_CACHE_OK_TO_REPLACE \<noteq> 0) of (s2, c) \<Rightarrow>
            if c = 0 then (s2, Inr (nat (- pos - 1) + 1))
            else if \<not> option AND ADD_CACHE_OK_TO_REPLACE \<noteq> 0 then (s2, Inl File_And_Directory)
            else (s2, Inr (nat (- index_name_stage_pos s2 (ce_name ce) (ce_namelen ce) (ce_stage ce) - 1) + 1)))"
proof -
  have "(option AND ADD_CACHE_SKIP_DFCHECK \<noteq> 0) = False" using assms by simp
  then show ?thesis
    unfolding add_index_entry_with_check_def Let_def drop_twins_def by (simp only: if_False)
qed

lemma add_index_entry_refines:
  assumes srt: "sorted_cache (is_cache s)" and ready: "add_ready (set (is_cache s)) ce"
    and opt: "option AND ADD_CACHE_JUST_APPEND = 0" "option AND ADD_CACHE_SKIP_DFCHECK = 0"
    and add: "add_index_entry h n s ce option = (s', r)"
  shows "sorted_cache (is_cache s') \<and>
    (set (is_cache s'), r) = add_spec (verify_path h n (ce_name ce)) (set (is_cache s)) ce option"
proof -
  let ?S = "set (is_cache s)"
  let ?ok_add = "option AND ADD_CACHE_OK_TO_ADD \<noteq> 0" and ?ok_rep = "option AND ADD_CACHE_OK_TO_REPLACE \<noteq> 0"
  define v where "v = verify_path h n (ce_name ce)"
  have add': "(case add_index_entry_with_check h n s ce option of
      (t, Inl e) \<Rightarrow> (t, Inl e)
    | (t, Inr ret) \<Rightarrow> if ret = 0 then (t, Inr ())
        else (t\<lparr>is_cache := insert_at (ret - 1) ce (is_cache t), cache_changed := cache_changed t OR CE_ENTRY_ADDED\<rparr>, Inr ()))
    = (s', r)"
    using add opt(1) by (simp add: add_index_entry_def Let_def)
  show ?thesis
  proof (cases rule: index_name_stage_pos_cases [OF srt order_refl, of "ce_name ce" "ce_stage ce", case_names found absent])
    case (found pos)
    have key: "ce_key (is_cache s ! pos) = ce_key ce" using found(3) by (simp add: ce_key_def)
    then have ex: "\<exists>p \<in> ?S. ce_key p = ce_key ce" using found(2) by (meson nth_mem)
    let ?ce = "ce\<lparr>ce_flags := ce_flags ce OR CE_UPDATE_IN_BASE\<rparr>"
    have k: "ce_key ?ce = ce_key ce" using ce_stage_flags(1) [of ce] by (simp add: ce_key_def)
    have res: "s' = (if option AND ADD_CACHE_NEW_ONLY \<noteq> 0 then s else replace_index_entry s pos ce)" "r = Inr ()"
      using add' found(1) unfolding add_with_check_unfold [OF opt(2)] by (auto simp: Let_def)
    have "is_cache (replace_index_entry s pos ce) = (is_cache s)[pos := ?ce]"
      by (simp add: replace_index_entry_def set_index_entry_def Let_def)
    then show ?thesis
      using res ex srt sorted_cache_update [OF srt found(2), of ?ce] k key by (simp add: add_spec_def)
  next
    case (absent pos)
    have place: "key_place (is_cache s) (ce_key ce) pos" using absent(2) by (simp add: ce_key_def)
    have nex: "\<not> (\<exists>p \<in> ?S. ce_key p = ce_key ce)" by (rule key_present_iff [OF srt place])
    let ?T = "?S - unmerged_twins ?S ce"
    obtain s1 ok1 where 1: "drop_twins s ce pos ?ok_add = (s1, ok1)" by fastforce
    note t = drop_twins_spec [OF srt place 1]
    obtain s2 c where 2: "check_file_directory_conflict s1 ce pos ?ok_rep = (s2, c)" by fastforce
    have d: "sorted_cache (is_cache s2) \<and> set (is_cache s2) = (if ?ok_rep then ?T - conflicts ?T ce else ?T) \<and>
        (c = 0 \<longleftrightarrow> conflicts ?T ce = {})"
      using check_conflict_spec [OF _ _ _ _ 2] t after_twins [OF ready nex] by auto
    have w: "add_index_entry_with_check h n s ce option =
       (if \<not> ok1 then (s1, Inl Not_Ok_To_Add)
        else if \<not> v then (s1, Inl Invalid_Path)
        else if c = 0 then (s2, Inr (pos + 1))
        else if \<not> ?ok_rep then (s2, Inl File_And_Directory)
        else (s2, Inr (nat (- index_name_stage_pos s2 (ce_name ce) (ce_namelen ce) (ce_stage ce) - 1) + 1)))"
      unfolding add_with_check_unfold [OF opt(2)] Let_def v_def [symmetric] using absent(1) 1 2 by simp
    have ins: "sorted_cache (is_cache s') \<and> set (is_cache s') = insert ce (?T - conflicts ?T ce) \<and> r = Inr ()"
      if "ok1" "v" "c = 0 \<or> ?ok_rep"
    proof -
      have set2: "set (is_cache s2) = ?T - conflicts ?T ce" using d that(3) by auto
      obtain q where q: "add_index_entry_with_check h n s ce option = (s2, Inr (q + 1))" "key_place (is_cache s2) (ce_key ce) q"
      proof (cases "c = 0")
        case True
        then have "set (is_cache s2) = set (is_cache s1)" using d t by auto
        then have "is_cache s2 = is_cache s1" using sorted_cache_unique d t by blast
        then show thesis using that [of pos] w \<open>ok1\<close> \<open>v\<close> True t by auto
      next
        case False
        have srt2: "sorted_cache (is_cache s2)" using d by blast
        have nex2: "\<not> (\<exists>p \<in> set (is_cache s2). ce_key p = ce_key ce)" using nex set2 by auto
        show thesis
        proof (cases rule: index_name_stage_pos_cases [OF srt2 order_refl, of "ce_name ce" "ce_stage ce", case_names found absent])
          case (found i)
          then show thesis using nex2 nth_mem [of i "is_cache s2"] by (auto simp: ce_key_def)
        next
          case (absent i)
          then have "key_place (is_cache s2) (ce_key ce) i" by (simp add: ce_key_def)
          then show thesis using that [of i] w \<open>ok1\<close> \<open>v\<close> False \<open>c = 0 \<or> ?ok_rep\<close> absent(1) by auto
        qed
      qed
      have "is_cache s' = insert_at q ce (is_cache s2)" "r = Inr ()"
        using add' unfolding q(1) by auto
      then show ?thesis using key_place_set [OF _ q(2)] d set2 by simp
    qed
    have spec: "add_spec v ?S ce option =
       (if \<not> ?ok_add \<and> unmerged_twins ?S ce = {} then (?S, Inl Not_Ok_To_Add)
        else if \<not> v then (?T, Inl Invalid_Path)
        else if \<not> ?ok_rep \<and> conflicts ?T ce \<noteq> {} then (?T, Inl File_And_Directory)
        else (insert ce (?T - conflicts ?T ce), Inr ()))"
      unfolding add_spec_def Let_def if_not_P [OF nex] by simp
    have ok1: "ok1 = (?ok_add \<or> unmerged_twins ?S ce \<noteq> {})" using t by blast
    have t1: "sorted_cache (is_cache s1)" "set (is_cache s1) = ?T" using t by blast+
    show ?thesis
      unfolding v_def [symmetric]
    proof (cases "ok1 \<and> v \<and> (c = 0 \<or> ?ok_rep)")
      case True
      then show "sorted_cache (is_cache s') \<and> (set (is_cache s'), r) = add_spec v ?S ce option"
        using ins ok1 d unfolding spec by auto
    next
      case False
      have d2: "sorted_cache (is_cache s2)" "c \<noteq> 0 \<Longrightarrow> conflicts ?T ce \<noteq> {}" "\<not> ?ok_rep \<Longrightarrow> set (is_cache s2) = ?T"
        using d by auto
      consider "\<not> ok1" | "ok1" "\<not> v" | "ok1" "v" "c \<noteq> 0" "\<not> ?ok_rep" using False by blast
      then show "sorted_cache (is_cache s') \<and> (set (is_cache s'), r) = add_spec v ?S ce option"
      proof cases
        case 1
        then have "s' = s1" "r = Inl Not_Ok_To_Add" using add' w by auto
        then show ?thesis unfolding spec using t1 1 ok1 by auto
      next
        case 2
        then have "s' = s1" "r = Inl Invalid_Path" using add' w by auto
        then show ?thesis unfolding spec using t1 2 ok1 by auto
      next
        case 3
        then have "s' = s2" "r = Inl File_And_Directory" using add' w by auto
        then show ?thesis unfolding spec using d2 3 ok1 by auto
      qed
    qed
  qed
qed

section \<open>Looking up and removing by name\<close>

lemma name_place:
  assumes "sorted_cache (is_cache s)" and "len \<le> length name"
    and "p = index_name_pos s name len" and "pos = nat (if p < 0 then - p - 1 else p)"
  obtains xs ys where "is_cache s = xs @ ys" "length xs = pos" "\<forall>x \<in> set xs. ce_name x \<noteq> take len name"
    "sorted_cache ys" "\<forall>y \<in> set ys. key_cmp (take len name, 0) (ce_key y) \<le> 0"
    "0 \<le> p \<longrightarrow> ys \<noteq> [] \<and> ce_key (hd ys) = (take len name, 0)"
    "p < 0 \<longrightarrow> (\<forall>y \<in> set ys. ce_key y \<noteq> (take len name, 0))"
proof (cases rule: index_name_stage_pos_cases [OF assms(1,2), of 0, case_names found absent])
  case (found i)
  let ?c = "is_cache s"
  have pos: "pos = i" "\<not> p < 0" using found(1) assms(3,4) by (simp_all add: index_name_pos_def)
  have d: "?c = take i ?c @ ?c ! i # drop (Suc i) ?c" using found(2) by (simp add: id_take_nth_drop [symmetric])
  then have srt: "sorted_cache (take i ?c @ ?c ! i # drop (Suc i) ?c)" using assms(1) by simp
  then have "\<forall>x \<in> set (take i ?c). key_cmp (ce_key x) (take len name, 0) < 0"
    using found(3) by (auto simp: sorted_cache_append ce_less_def)
  then have 1: "\<forall>x \<in> set (take i ?c). ce_name x \<noteq> take len name" using smaller_name_differs by blast
  have "\<forall>y \<in> set (drop (Suc i) ?c). key_cmp (take len name, 0) (ce_key y) < 0"
    using srt found(3) by (auto simp: sorted_cache_append sorted_cache_Cons ce_less_def)
  then have 2: "\<forall>y \<in> set (?c ! i # drop (Suc i) ?c). key_cmp (take len name, 0) (ce_key y) \<le> 0"
    using found(3) by (auto simp: less_imp_le)
  have 3: "sorted_cache (?c ! i # drop (Suc i) ?c)" using srt by (simp add: sorted_cache_append)
  have "length (take i ?c) = pos" using pos found(2) by simp
  then show thesis using that [OF d _ 1 3 2] pos found(3) by simp
next
  case (absent i)
  have pos: "pos = i" "p < 0" using absent(1) assms(3,4) by (simp_all add: index_name_pos_def)
  obtain xs ys where d: "is_cache s = xs @ ys" "length xs = i"
    "\<forall>x \<in> set xs. key_cmp (ce_key x) (take len name, 0) < 0" "\<forall>y \<in> set ys. key_cmp (take len name, 0) (ce_key y) < 0"
    using absent(2) by (rule key_place_split)
  have "\<forall>x \<in> set xs. ce_name x \<noteq> take len name" using d(3) smaller_name_differs by blast
  then show thesis
    using that [of xs ys] d pos assms(1) by (fastforce simp: sorted_cache_append less_imp_le)
qed

lemma hd_dropWhile_name:
  assumes "sorted_cache ys" and "\<forall>y \<in> set ys. key_cmp (n, 0) (ce_key y) \<le> 0"
  shows "(\<exists>y \<in> set ys. ce_name y = n) \<longleftrightarrow> ys \<noteq> [] \<and> ce_name (hd ys) = n"
proof (cases ys)
  case (Cons y zs)
  then show ?thesis using dropWhile_name [OF assms] by (auto split: if_split_asm)
qed simp

lemma dropWhile_filter_name:
  assumes "sorted_cache ys" and "\<forall>y \<in> set ys. key_cmp (n, 0) (ce_key y) \<le> 0"
  shows "dropWhile (\<lambda>p. ce_name p = n) ys = filter (\<lambda>p. ce_name p \<noteq> n) ys"
proof (rule sorted_cache_unique)
  show "sorted_cache (dropWhile (\<lambda>p. ce_name p = n) ys)"
    using assms(1) takeWhile_dropWhile_id [of "\<lambda>p. ce_name p = n" ys] by (metis sorted_cache_append)
  show "sorted_cache (filter (\<lambda>p. ce_name p \<noteq> n) ys)" using assms(1) by (rule sorted_cache_filter)
  show "set (dropWhile (\<lambda>p. ce_name p = n) ys) = set (filter (\<lambda>p. ce_name p \<noteq> n) ys)"
    using dropWhile_name [OF assms] by simp
qed

lemma remove_path_loop_list:
  "is_cache s = xs @ ys \<Longrightarrow> length xs = pos \<Longrightarrow>
   is_cache (remove_path_loop s pos path) = xs @ dropWhile (\<lambda>p. ce_name p = path) ys"
proof (induction ys arbitrary: s)
  case Nil
  then show ?case by (subst remove_path_loop.simps) simp
next
  case (Cons y ys)
  have nth: "is_cache s ! pos = y" using Cons.prems by (simp add: nth_append)
  show ?case
  proof (cases "ce_name y = path")
    case False
    then show ?thesis using Cons.prems nth by (subst remove_path_loop.simps) simp
  next
    case True
    let ?s = "fst (remove_index_entry_at s pos)"
    have "is_cache ?s = xs @ ys" using Cons.prems by simp
    moreover have "remove_path_loop s pos path = remove_path_loop ?s pos path"
      using True nth Cons.prems by (subst remove_path_loop.simps) (simp del: is_cache_remove)
    ultimately show ?thesis using Cons.IH [of ?s] Cons.prems(2) True by simp
  qed
qed

lemma remove_file_from_index_filter:
  assumes "sorted_cache (is_cache s)"
  shows "is_cache (remove_file_from_index s path) = filter (\<lambda>p. ce_name p \<noteq> path) (is_cache s)"
proof -
  define p where "p = index_name_pos s path (length path)"
  obtain xs ys where d: "is_cache s = xs @ ys" "length xs = nat (if p < 0 then - p - 1 else p)"
      "\<forall>x \<in> set xs. ce_name x \<noteq> take (length path) path" "sorted_cache ys"
      "\<forall>y \<in> set ys. key_cmp (take (length path) path, 0) (ce_key y) \<le> 0"
    by (rule name_place [OF assms order_refl p_def refl], rule that, assumption+)
  have "is_cache (remove_file_from_index s path) = xs @ dropWhile (\<lambda>p. ce_name p = path) ys"
    unfolding remove_file_from_index_def Let_def p_def [symmetric] using d(1,2) by (rule remove_path_loop_list)
  then show ?thesis
    using d dropWhile_filter_name [of ys path] by (simp add: filter_id_conv)
qed

lemma index_name_is_other_iff:
  assumes "sorted_cache (is_cache s)" and "namelen \<le> length name"
    and "len = (if namelen \<noteq> 0 \<and> name ! (namelen - 1) = CHR ''/'' then namelen - 1 else namelen)"
  shows "index_name_is_other s name namelen \<longleftrightarrow> (\<forall>p \<in> set (is_cache s). ce_name p \<noteq> take len name)"
proof -
  define p where "p = index_name_pos s name len"
  have len: "len \<le> length name" using assms(2,3) by auto
  obtain xs ys where d: "is_cache s = xs @ ys" "length xs = nat (if p < 0 then - p - 1 else p)"
      "\<forall>x \<in> set xs. ce_name x \<noteq> take len name" "sorted_cache ys"
      "\<forall>y \<in> set ys. key_cmp (take len name, 0) (ce_key y) \<le> 0"
      "0 \<le> p \<longrightarrow> ys \<noteq> [] \<and> ce_key (hd ys) = (take len name, 0)"
    by (rule name_place [OF assms(1) len p_def refl], rule that, assumption+)
  have ex: "(\<forall>p \<in> set (is_cache s). ce_name p \<noteq> take len name) \<longleftrightarrow> \<not> (ys \<noteq> [] \<and> ce_name (hd ys) = take len name)"
    using d(1,3) hd_dropWhile_name [OF d(4,5)] by auto
  have same: "ce_namelen q = len \<and> memcmp_names (ce_name q) name len = 0 \<longleftrightarrow> ce_name q = take len name" for q
    using len by (auto simp: memcmp_names_zero)
  show ?thesis
  proof (cases "0 \<le> p")
    case True
    then show ?thesis
      unfolding ex index_name_is_other_def Let_def assms(3) [symmetric] p_def [symmetric]
      using d(6) by (auto simp: ce_key_def)
  next
    case False
    then have pos: "nat (- p - 1) = length xs" using d(2) by simp
    have "(length xs < cache_nr s) = (ys \<noteq> [])" "ys \<noteq> [] \<Longrightarrow> is_cache s ! length xs = hd ys"
      using d(1) by (auto simp: nth_append hd_conv_nth)
    then show ?thesis
      unfolding ex index_name_is_other_def Let_def assms(3) [symmetric] p_def [symmetric] pos same using False by auto
  qed
qed

section \<open>Properties\<close>

text \<open>
  C1. Let the index be sorted by name and stage, let no live entry of the new entry's stage lie below another one,
  let no entry of the new entry's name have a higher stage unless the new entry is merged, and let the options contain neither
  JUST_APPEND nor SKIP_DFCHECK. Then \<^verbatim>\<open>add_index_entry\<close> computes the specification on sets and keeps the index sorted: an entry with the same name and stage is
  replaced (or kept, with NEW_ONLY), a merged entry replaces the unmerged ones of its name, which also permits adding, an invalid path is
  refused, conflicting files and directories are refused or, with OK_TO_REPLACE, all removed, and the entry is inserted.
\<close>

theorem add_index_entry_spec:
  assumes "sorted_cache (is_cache s)" and "add_ready (set (is_cache s)) ce"
    and "option AND ADD_CACHE_JUST_APPEND = 0" and "option AND ADD_CACHE_SKIP_DFCHECK = 0"
    and "add_index_entry protect_hfs protect_ntfs s ce option = (s', r)"
  shows "sorted_cache (is_cache s') \<and>
    (set (is_cache s'), r) = add_spec (verify_path protect_hfs protect_ntfs (ce_name ce)) (set (is_cache s)) ce option"
  using assms by (rule add_index_entry_refines)

definition no_stat :: stat_data where
  "no_stat = \<lparr>sd_ctime_sec = 0, sd_ctime_nsec = 0, sd_mtime_sec = 0, sd_mtime_nsec = 0, sd_dev = 0, sd_ino = 0,
     sd_uid = 0, sd_gid = 0, sd_size = 0\<rparr>"

definition blob_entry :: "string \<Rightarrow> cache_entry" where
  "blob_entry name = \<lparr>ce_stat_data = no_stat, ce_mode = 0x81A4, ce_flags = 0, ce_sha1 = replicate 20 0, ce_name = name\<rparr>"

lemma blob_entry_simps [simp]:
  "ce_name (blob_entry n) = n" "ce_stage (blob_entry n) = 0" "\<not> ce_remove (blob_entry n)"
  "ce_key (blob_entry n) = (n, 0)"
  by (simp_all add: blob_entry_def ce_stage_def ce_remove_def ce_key_def)

lemma add_index_entry_spec_witness:
  "\<exists>s' r. add_index_entry False False \<lparr>is_cache = [blob_entry ''a/x'', blob_entry ''b''], cache_changed = 0\<rparr>
       (blob_entry ''a'') 3 = (s', r) \<and> sorted_cache (is_cache s') \<and>
     (set (is_cache s'), r) = add_spec (verify_path False False ''a'') {blob_entry ''a/x'', blob_entry ''b''} (blob_entry ''a'') 3"
proof -
  let ?s = "\<lparr>is_cache = [blob_entry ''a/x'', blob_entry ''b''], cache_changed = 0\<rparr>"
  obtain s' r where add: "add_index_entry False False ?s (blob_entry ''a'') 3 = (s', r)" by fastforce
  have "sorted_cache (is_cache ?s)"
    by (simp add: sorted_cache_def ce_less_def key_cmp_def char_code_def)
  moreover have "add_ready (set (is_cache ?s)) (blob_entry ''a'')"
    by (simp add: add_ready_def df_free_def below_def)
  moreover have "(3 :: u32) AND 8 = 0" "(3 :: u32) AND 4 = 0" by simp_all
  ultimately have "sorted_cache (is_cache s') \<and>
      (set (is_cache s'), r) = add_spec (verify_path False False (ce_name (blob_entry ''a''))) (set (is_cache ?s)) (blob_entry ''a'') 3"
    by (rule add_index_entry_spec [OF _ _ _ _ add])
  then show ?thesis using add by auto
qed

text \<open>
  C15. Under the conditions of the previous property (sorted, no live entry of the stage below another, no entry of
  the name at a higher stage unless the new entry is merged, neither JUST_APPEND nor SKIP_DFCHECK), a failing \<^verbatim>\<open>add_index_entry\<close> leaves the entries as they were, except that it may have lost the unmerged
  entries of the name when the new entry is merged: it refuses adding (and changes nothing then), or an invalid path, or, without
  OK_TO_REPLACE, a live entry that has a live file above it or a directory below it, and fails for no other reason.
\<close>

theorem add_index_entry_errors:
  assumes "sorted_cache (is_cache s)" and "add_ready (set (is_cache s)) ce"
    and "option AND ADD_CACHE_JUST_APPEND = 0" and "option AND ADD_CACHE_SKIP_DFCHECK = 0"
    and "add_index_entry protect_hfs protect_ntfs s ce option = (s', Inl e)"
  shows "is_cache s' = filter (\<lambda>p. \<not> (ce_stage ce = 0 \<and> ce_name p = ce_name ce)) (is_cache s) \<and>
    (case e of
       Not_Ok_To_Add \<Rightarrow> option AND ADD_CACHE_OK_TO_ADD = 0 \<and> is_cache s' = is_cache s
     | Invalid_Path \<Rightarrow> \<not> verify_path protect_hfs protect_ntfs (ce_name ce)
     | File_And_Directory \<Rightarrow> option AND ADD_CACHE_OK_TO_REPLACE = 0 \<and> \<not> ce_remove ce \<and>
         (\<exists>p \<in> set (is_cache s). live_at (ce_stage ce) p \<and> (below (ce_name p) (ce_name ce) \<or> below (ce_name ce) (ce_name p))))"
proof -
  let ?S = "set (is_cache s)"
  have r: "sorted_cache (is_cache s')"
    "(set (is_cache s'), Inl e) = add_spec (verify_path protect_hfs protect_ntfs (ce_name ce)) ?S ce option"
    using add_index_entry_refines [OF assms] by auto
  have nex: "\<not> (\<exists>p \<in> ?S. ce_key p = ce_key ce)" using r(2) by (auto simp: add_spec_def split: if_split_asm)
  have T: "set (is_cache s') = ?S - unmerged_twins ?S ce"
    using r(2) nex by (auto simp: add_spec_def Let_def split: if_split_asm)
  have "is_cache s' = filter (\<lambda>p. \<not> (ce_stage ce = 0 \<and> ce_name p = ce_name ce)) (is_cache s)"
    by (rule sorted_cache_unique [OF r(1) sorted_cache_filter [OF assms(1)]])
      (auto simp: T unmerged_twins_def)
  moreover have "is_cache s' = is_cache s" if "set (is_cache s') = ?S"
    using r(1) assms(1) that by (rule sorted_cache_unique)
  ultimately show ?thesis
    using r(2) unfolding add_spec_def Let_def if_not_P [OF nex]
    by (auto simp: conflicts_def children_def parents_def split: if_split_asm)
qed

lemma add_index_entry_errors_witness:
  "\<exists>s'. add_index_entry False False \<lparr>is_cache = [blob_entry ''a''], cache_changed = 0\<rparr> (blob_entry ''b'') 2 = (s', Inl Not_Ok_To_Add) \<and>
     is_cache s' = [blob_entry ''a'']"
proof -
  let ?s = "\<lparr>is_cache = [blob_entry ''a''], cache_changed = 0\<rparr>"
  have "index_name_stage_pos ?s ''b'' 1 0 = -2"
    by (simp add: index_name_stage_pos_def stage_pos_loop.simps cache_name_stage_compare_def name_compare_def
        memcmp_names_def char_code_def Let_def)
  then have add: "add_index_entry False False ?s (blob_entry ''b'') 2 = (?s, Inl Not_Ok_To_Add)"
    by (simp add: add_index_entry_def add_index_entry_with_check_def)
  have "sorted_cache (is_cache ?s)" by (simp add: sorted_cache_def)
  moreover have "add_ready (set (is_cache ?s)) (blob_entry ''b'')"
    by (simp add: add_ready_def df_free_def below_def)
  moreover have "(2 :: u32) AND 8 = 0" "(2 :: u32) AND 4 = 0" by simp_all
  ultimately show ?thesis using add_index_entry_errors [OF _ _ _ _ add] add by auto
qed

text \<open>
  The states a merged index goes through: live entries at stage 0 are added or replaced with the check for files and directories
  (without JUST_APPEND and SKIP_DFCHECK), renamed and removed, one by one or by marking some of them with CE_REMOVE and dropping the
  marked ones. \<open>mark_removed\<close> is the marking by the callers, \<^verbatim>\<open>ce->ce_flags |= CE_REMOVE\<close>.
\<close>

definition mark_removed :: "(string \<Rightarrow> bool) \<Rightarrow> index_state \<Rightarrow> index_state" where
  "mark_removed P s =
     s\<lparr>is_cache := map (\<lambda>ce. if P (ce_name ce) then ce\<lparr>ce_flags := ce_flags ce OR CE_REMOVE\<rparr> else ce) (is_cache s)\<rparr>"

definition merged_live :: "cache_entry \<Rightarrow> bool" where
  "merged_live ce \<longleftrightarrow> ce_stage ce = 0 \<and> \<not> ce_remove ce"

inductive merged_index :: "bool \<Rightarrow> bool \<Rightarrow> index_state \<Rightarrow> bool" for protect_hfs protect_ntfs where
  empty_index: "merged_index protect_hfs protect_ntfs \<lparr>is_cache = [], cache_changed = 0\<rparr>"
| added: "merged_index protect_hfs protect_ntfs s \<Longrightarrow> merged_live ce \<Longrightarrow>
    option AND ADD_CACHE_JUST_APPEND = 0 \<Longrightarrow> option AND ADD_CACHE_SKIP_DFCHECK = 0 \<Longrightarrow>
    merged_index protect_hfs protect_ntfs (fst (add_index_entry protect_hfs protect_ntfs s ce option))"
| removed_at: "merged_index protect_hfs protect_ntfs s \<Longrightarrow> pos < cache_nr s \<Longrightarrow>
    merged_index protect_hfs protect_ntfs (fst (remove_index_entry_at s pos))"
| removed_file: "merged_index protect_hfs protect_ntfs s \<Longrightarrow>
    merged_index protect_hfs protect_ntfs (remove_file_from_index s path)"
| renamed: "merged_index protect_hfs protect_ntfs s \<Longrightarrow> pos < cache_nr s \<Longrightarrow>
    merged_index protect_hfs protect_ntfs (rename_index_entry_at protect_hfs protect_ntfs s pos new_name)"
| marked_removed: "merged_index protect_hfs protect_ntfs s \<Longrightarrow>
    merged_index protect_hfs protect_ntfs (remove_marked_cache_entries (mark_removed P s))"

definition index_ok :: "bool \<Rightarrow> bool \<Rightarrow> index_state \<Rightarrow> bool" where
  "index_ok protect_hfs protect_ntfs s \<longleftrightarrow> sorted_cache (is_cache s) \<and>
     (\<forall>p \<in> set (is_cache s). merged_live p \<and> verify_path protect_hfs protect_ntfs (ce_name p)) \<and>
     df_free 0 (set (is_cache s))"

lemma index_ok_shrink:
  "index_ok h n s \<Longrightarrow> sorted_cache (is_cache t) \<Longrightarrow> set (is_cache t) \<subseteq> set (is_cache s) \<Longrightarrow> index_ok h n t"
  unfolding index_ok_def using df_free_shorter by blast

lemma df_free_add:
  assumes "df_free 0 S" and "merged_live ce"
  shows "df_free 0 (insert ce (S - conflicts S ce))"
  using assms by (auto simp: df_free_def conflicts_def children_def parents_def merged_live_def live_at_def below_test)

lemma df_free_replace:
  assumes "df_free 0 S" and "q \<in> S" and "merged_live q" and "ce_name ce = ce_name q" and "T \<subseteq> S"
  shows "df_free 0 (insert ce T)"
  using assms by (auto simp: df_free_def merged_live_def live_at_def below_test)

lemma index_ok_add:
  assumes ok: "index_ok h n s" and ce: "merged_live ce"
    and "option AND ADD_CACHE_JUST_APPEND = 0" "option AND ADD_CACHE_SKIP_DFCHECK = 0"
  shows "index_ok h n (fst (add_index_entry h n s ce option))"
proof -
  let ?S = "set (is_cache s)"
  obtain s' r where add: "add_index_entry h n s ce option = (s', r)" by fastforce
  have "add_ready ?S ce" using ok ce by (simp add: index_ok_def add_ready_def merged_live_def)
  from add_index_entry_refines [OF _ this assms(3,4) add] ok
  have r: "sorted_cache (is_cache s')" "(set (is_cache s'), r) = add_spec (verify_path h n (ce_name ce)) ?S ce option"
    by (auto simp: index_ok_def)
  show ?thesis
  proof (cases "\<exists>p \<in> ?S. ce_key p = ce_key ce")
    case True
    then obtain p where p: "p \<in> ?S" "ce_name p = ce_name ce" by (auto simp: ce_key_def)
    let ?ce = "ce\<lparr>ce_flags := ce_flags ce OR CE_UPDATE_IN_BASE\<rparr>"
    have live: "merged_live ?ce" using ce ce_stage_flags by (simp add: merged_live_def)
    consider "set (is_cache s') = ?S" | "set (is_cache s') = insert ?ce {p \<in> ?S. ce_key p \<noteq> ce_key ce}"
      using r(2) True by (auto simp: add_spec_def split: if_split_asm)
    then show ?thesis
    proof cases
      case 1
      then show ?thesis using index_ok_shrink [OF ok r(1)] add by simp
    next
      case 2
      have "df_free 0 (insert ?ce {p \<in> ?S. ce_key p \<noteq> ce_key ce})"
        using ok p by (intro df_free_replace [of ?S p]) (auto simp: index_ok_def)
      then show ?thesis using r(1) 2 live p ok add by (auto simp: index_ok_def)
    qed
  next
    case False
    define T where "T = ?S - unmerged_twins ?S ce"
    have "df_free 0 T" using ok df_free_shorter unfolding T_def index_ok_def by blast
    then have df: "df_free 0 (insert ce (T - conflicts T ce))" using ce by (rule df_free_add)
    consider "set (is_cache s') \<subseteq> ?S"
      | "verify_path h n (ce_name ce)" "set (is_cache s') = insert ce (T - conflicts T ce)"
      using r(2) unfolding add_spec_def Let_def if_not_P [OF False] T_def [symmetric]
      by (auto simp: T_def split: if_split_asm)
    then show ?thesis
    proof cases
      case 1
      then show ?thesis using index_ok_shrink [OF ok r(1)] add by simp
    next
      case 2
      then show ?thesis using r(1) df ce ok add by (auto simp: index_ok_def T_def)
    qed
  qed
qed

lemma index_ok_remove_at:
  "index_ok h n s \<Longrightarrow> pos < cache_nr s \<Longrightarrow> index_ok h n (fst (remove_index_entry_at s pos))"
proof (rule index_ok_shrink [of h n s])
  assume a: "index_ok h n s" "pos < cache_nr s"
  then have "sorted_cache (is_cache s)" by (simp add: index_ok_def)
  from sorted_cache_remove_at [OF this a(2)]
  show "sorted_cache (is_cache (fst (remove_index_entry_at s pos)))"
    "set (is_cache (fst (remove_index_entry_at s pos))) \<subseteq> set (is_cache s)"
    by simp_all
qed

lemma index_ok_rename:
  assumes "index_ok h n s" and "pos < cache_nr s"
  shows "index_ok h n (rename_index_entry_at h n s pos new_name)"
proof -
  let ?old = "is_cache s ! pos"
  have "merged_live ?old" using assms by (auto simp: index_ok_def)
  moreover have "ce_stage (ce\<lparr>ce_flags := ce_flags ce AND NOT CE_HASHED, ce_name := nm\<rparr>) = ce_stage ce"
    "ce_remove (ce\<lparr>ce_flags := ce_flags ce AND NOT CE_HASHED, ce_name := nm\<rparr>) = ce_remove ce" for ce nm
  proof -
    have m: "(0x3000 :: u32) AND (w AND NOT 0x100000) = (0x3000 AND NOT 0x100000) AND w"
      "(w AND NOT 0x100000) AND 0x20000 = w AND (0x20000 AND NOT 0x100000 :: u32)" for w
      by (simp_all only: ac_simps)
    have flags: "ce_flags (ce\<lparr>ce_flags := f, ce_name := nm\<rparr>) = f" for f by simp
    have "(0x3000 :: u32) AND NOT 0x100000 = 0x3000" "(0x20000 :: u32) AND NOT 0x100000 = 0x20000" by simp_all
    with m have "(0x3000 :: u32) AND (w AND NOT 0x100000) = 0x3000 AND w"
      "(w AND NOT 0x100000) AND 0x20000 = w AND (0x20000 :: u32)" for w
      by (simp_all only:)
    then show "ce_stage (ce\<lparr>ce_flags := ce_flags ce AND NOT CE_HASHED, ce_name := nm\<rparr>) = ce_stage ce"
      "ce_remove (ce\<lparr>ce_flags := ce_flags ce AND NOT CE_HASHED, ce_name := nm\<rparr>) = ce_remove ce"
      unfolding ce_stage_def ce_remove_def flags by (simp_all only:)
  qed
  ultimately have "merged_live (?old\<lparr>ce_flags := ce_flags ?old AND NOT CE_HASHED, ce_name := new_name\<rparr>)"
    unfolding merged_live_def by (simp only:) simp
  then show ?thesis
    unfolding rename_index_entry_at_def Let_def
    by (intro index_ok_add index_ok_remove_at assms) simp_all
qed

lemma index_ok_filter: "index_ok h n s \<Longrightarrow> is_cache t = filter P (is_cache s) \<Longrightarrow> index_ok h n t"
  by (rule index_ok_shrink [of h n s]) (simp_all add: index_ok_def sorted_cache_filter)

lemma length_filter_id: "length (filter P xs) = length xs \<Longrightarrow> filter P xs = xs"
  using length_filter_less [of _ xs P] by (metis filter_True less_irrefl)

lemma remove_marked_filter:
  "is_cache (remove_marked_cache_entries s) = filter (\<lambda>ce. \<not> ce_remove ce) (is_cache s)"
  by (simp add: remove_marked_cache_entries_def Let_def length_filter_id)

lemma remove_marked_mark_removed:
  assumes "\<And>ce. ce \<in> set (is_cache s) \<Longrightarrow> \<not> ce_remove ce"
  shows "is_cache (remove_marked_cache_entries (mark_removed P s)) = filter (\<lambda>ce. \<not> P (ce_name ce)) (is_cache s)"
proof -
  have marked: "ce_remove (ce\<lparr>ce_flags := ce_flags ce OR CE_REMOVE\<rparr>)" for ce
    by (simp add: ce_remove_def bit.conj_disj_distrib2)
  have "filter (\<lambda>ce. \<not> ce_remove ce) (map (\<lambda>ce. if P (ce_name ce) then ce\<lparr>ce_flags := ce_flags ce OR CE_REMOVE\<rparr> else ce) xs) =
      filter (\<lambda>ce. \<not> P (ce_name ce)) xs" if "\<And>ce. ce \<in> set xs \<Longrightarrow> \<not> ce_remove ce" for xs
    using that by (induction xs) (simp_all add: marked)
  then show ?thesis using assms by (simp add: remove_marked_filter mark_removed_def)
qed

lemma index_ok_names_distinct: "index_ok h n s \<Longrightarrow> distinct (map ce_name (is_cache s))"
proof -
  assume ok: "index_ok h n s"
  then have srt: "sorted_cache (is_cache s)" by (simp add: index_ok_def)
  have "p = q" if "p \<in> set (is_cache s)" "q \<in> set (is_cache s)" "ce_name p = ce_name q" for p q
  proof (rule sorted_cache_key_unique [OF srt that(1,2)])
    have "ce_stage p = 0" "ce_stage q = 0" using ok that(1,2) by (auto simp: index_ok_def merged_live_def)
    then show "ce_key p = ce_key q" using that(3) by (simp add: ce_key_def)
  qed
  then show ?thesis using sorted_cache_distinct [OF srt] by (simp add: distinct_map inj_on_def)
qed

text \<open>
  C6. Start from the empty index and repeatedly add or replace live entries of stage 0 with options that contain neither
  JUST_APPEND nor SKIP_DFCHECK, rename entries, remove the entry at a position or the entries of a path, or mark entries and at once drop the
  marked ones. The index is then always sorted without duplicates, every path in it has passed \<^verbatim>\<open>verify_path\<close>, and no path is both a file
  and a directory. (An entry that is marked CE_REMOVE while others are added is outside of this, see \<open>replacing_removed_entry_skips_check\<close>.)
\<close>

theorem merged_index_ok:
  "merged_index protect_hfs protect_ntfs s \<Longrightarrow>
   sorted_cache (is_cache s) \<and> distinct (map ce_name (is_cache s)) \<and>
   (\<forall>p \<in> set (is_cache s). verify_path protect_hfs protect_ntfs (ce_name p)) \<and>
   (\<forall>p \<in> set (is_cache s). \<forall>q \<in> set (is_cache s). \<not> below (ce_name q) (ce_name p))"
proof -
  assume "merged_index protect_hfs protect_ntfs s"
  then have ok: "index_ok protect_hfs protect_ntfs s"
  proof induction
    case empty_index
    then show ?case by (simp add: index_ok_def sorted_cache_def df_free_def)
  next
    case (added s ce option)
    show ?case by (rule index_ok_add [OF added.IH added.hyps(2-4)])
  next
    case (removed_at s pos)
    show ?case by (rule index_ok_remove_at [OF removed_at.IH removed_at.hyps(2)])
  next
    case (removed_file s path)
    show ?case by (rule index_ok_filter [OF removed_file.IH]) (use removed_file.IH in \<open>simp add: index_ok_def remove_file_from_index_filter\<close>)
  next
    case (renamed s pos new_name)
    show ?case by (rule index_ok_rename [OF renamed.IH renamed.hyps(2)])
  next
    case (marked_removed s P)
    have "\<not> ce_remove ce" if "ce \<in> set (is_cache s)" for ce
      using marked_removed.IH that by (simp add: index_ok_def merged_live_def)
    then show ?case by (rule index_ok_filter [OF marked_removed.IH remove_marked_mark_removed])
  qed
  have "distinct (map ce_name (is_cache s))"
    using ok index_ok_names_distinct by blast
  then show ?thesis using ok by (auto simp: index_ok_def df_free_def merged_live_def live_at_def)
qed

lemma merged_index_ok_witness:
  "let s = fst (add_index_entry True True \<lparr>is_cache = [], cache_changed = 0\<rparr> (blob_entry ''a'') 3)
   in sorted_cache (is_cache s) \<and> distinct (map ce_name (is_cache s))"
proof -
  have "merged_index True True (fst (add_index_entry True True \<lparr>is_cache = [], cache_changed = 0\<rparr> (blob_entry ''a'') 3))"
    by (rule added [OF empty_index]) (simp_all add: merged_live_def)
  from merged_index_ok [OF this] show ?thesis unfolding Let_def by blast
qed

section \<open>Orders of names in trees\<close>

definition dir_slash :: "u32 \<Rightarrow> string" where
  "dir_slash mode = (if S_ISDIR mode then ''/'' else [])"

lemma base_name_compare_Cons:
  "base_name_compare (c # s) (length (c # s)) m (d # t) (length (d # t)) m' =
     (if c = d then base_name_compare s (length s) m t (length t) m' else if char_code c < char_code d then -1 else 1)"
proof -
  have "(if Suc (length s) < Suc (length t) then Suc (length s) else Suc (length t)) =
      Suc (if length s < length t then length s else length t)" by simp
  then show ?thesis by (simp add: base_name_compare_def Let_def memcmp_names_Cons)
qed

lemma df_name_compare_Cons:
  "df_name_compare (c # s) (length (c # s)) m (d # t) (length (d # t)) m' =
     (if c = d then df_name_compare s (length s) m t (length t) m' else if char_code c < char_code d then -1 else 1)"
proof -
  have "(if Suc (length s) < Suc (length t) then Suc (length s) else Suc (length t)) =
      Suc (if length s < length t then length s else length t)" by simp
  then show ?thesis by (simp add: df_name_compare_def Let_def memcmp_names_Cons)
qed

definition plain_name :: "string \<Rightarrow> bool" where
  "plain_name s \<longleftrightarrow> c_string s \<and> CHR ''/'' \<notin> set s"

lemma base_name_compare_paths:
  "plain_name s \<Longrightarrow> plain_name t \<Longrightarrow>
   base_name_compare s (length s) m t (length t) m' = strcmp (s @ dir_slash m) (t @ dir_slash m')"
proof (induction s t rule: strcmp.induct)
  case (4 c s d t)
  then have "plain_name s" "plain_name t" by (auto simp: plain_name_def)
  then show ?case using 4(1) unfolding base_name_compare_Cons by simp
next
  case 1
  then show ?case by (simp add: base_name_compare_def dir_slash_def char_code_def)
next
  case (2 d t)
  then have "d \<noteq> NUL" "d \<noteq> CHR ''/''" by (auto simp: plain_name_def c_string_def)
  moreover have "0 < char_code d" using \<open>d \<noteq> NUL\<close> char_code_range(1) [of d] char_code_inject [of d NUL]
    by (simp add: char_code_def)
  moreover have "char_code d \<noteq> char_code (CHR ''/'')" using \<open>d \<noteq> CHR ''/''\<close> by simp
  ultimately show ?case by (auto simp: base_name_compare_def dir_slash_def Let_def char_code_def)
next
  case (3 c s)
  then have "c \<noteq> NUL" "c \<noteq> CHR ''/''" by (auto simp: plain_name_def c_string_def)
  moreover have "0 < char_code c" using \<open>c \<noteq> NUL\<close> char_code_range(1) [of c] char_code_inject [of c NUL]
    by (simp add: char_code_def)
  moreover have "char_code c \<noteq> char_code (CHR ''/'')" using \<open>c \<noteq> CHR ''/''\<close> by simp
  ultimately show ?case by (auto simp: base_name_compare_def dir_slash_def Let_def char_code_def)
qed

lemma df_name_compare_zero:
  "plain_name s \<Longrightarrow> plain_name t \<Longrightarrow> df_name_compare s (length s) m t (length t) m' = 0 \<longleftrightarrow> s = t"
proof (induction s t rule: strcmp.induct)
  case (4 c s d t)
  then have "plain_name s" "plain_name t" by (auto simp: plain_name_def)
  then show ?case using 4(1) unfolding df_name_compare_Cons by simp
next
  case 1
  then show ?case by (simp add: df_name_compare_def)
next
  case (2 d t)
  then have d: "d \<noteq> NUL" "d \<noteq> CHR ''/''" by (auto simp: plain_name_def c_string_def)
  have "char_code d \<noteq> char_code NUL" "char_code d \<noteq> char_code (CHR ''/'')" using d by simp_all
  then show ?case using d by (auto simp: df_name_compare_def Let_def)
next
  case (3 c s)
  then have d: "c \<noteq> NUL" "c \<noteq> CHR ''/''" by (auto simp: plain_name_def c_string_def)
  have "char_code c \<noteq> char_code NUL" "char_code c \<noteq> char_code (CHR ''/'')" using d by simp_all
  then show ?case using d by (auto simp: df_name_compare_def Let_def)
qed

text \<open>
  Lemma name_orders. \<^verbatim>\<open>base_name_compare\<close> compares names of a directory as \<^verbatim>\<open>strcmp\<close> compares them with a slash behind the
  directories, so sorted trees list paths in the order of the index, and \<^verbatim>\<open>df_name_compare\<close> finds two entries equal exactly
  when they have the same name, whatever their modes.
\<close>

theorem name_orders:
  "plain_name name1 \<Longrightarrow> plain_name name2 \<Longrightarrow>
   base_name_compare name1 (length name1) mode1 name2 (length name2) mode2 =
     strcmp (name1 @ (if S_ISDIR mode1 then ''/'' else [])) (name2 @ (if S_ISDIR mode2 then ''/'' else [])) \<and>
   (df_name_compare name1 (length name1) mode1 name2 (length name2) mode2 = 0 \<longleftrightarrow> name1 = name2)"
  using base_name_compare_paths df_name_compare_zero unfolding dir_slash_def by blast

lemma name_orders_witness:
  "base_name_compare ''a'' 1 S_IFDIR ''a.c'' 3 S_IFREG = 1 \<and> df_name_compare ''a'' 1 S_IFDIR ''a'' 1 S_IFREG = 0"
proof -
  have p: "plain_name ''a''" "plain_name ''a.c''" by (simp_all add: plain_name_def c_string_def)
  have d: "S_ISDIR S_IFDIR" "\<not> S_ISDIR S_IFREG" by (simp_all add: S_ISDIR_def)
  show ?thesis
    using name_orders [OF p, of S_IFDIR S_IFREG] name_orders [OF p(1) p(1), of S_IFDIR S_IFREG] d
    by (simp add: char_code_def numeral_3_eq_3)
qed

text \<open>
  What the comment of \<^verbatim>\<open>index_name_is_other\<close> calls a path that is mentioned in the index: a file, an unmerged entry, or a directory
  with some files in the index.
\<close>

definition mentioned :: "cache_entry list \<Rightarrow> string \<Rightarrow> bool" where
  "mentioned cache name \<longleftrightarrow> (\<exists>p \<in> set cache. ce_name p = name \<or> below (ce_name p) name)"

definition without_slash :: "string \<Rightarrow> string" where
  "without_slash name = (if name \<noteq> [] \<and> last name = CHR ''/'' then butlast name else name)"

lemma index_name_is_other_named:
  "sorted_cache (is_cache s) \<Longrightarrow>
   index_name_is_other s name (length name) \<longleftrightarrow> (\<forall>p \<in> set (is_cache s). ce_name p \<noteq> without_slash name)"
  using index_name_is_other_iff [OF _ order_refl refl, of s name]
  by (cases "name = []") (auto simp: without_slash_def last_conv_nth butlast_conv_take)

text \<open>
  C40. In a sorted index \<^verbatim>\<open>remove_file_from_index\<close> removes exactly the entries of the path, at every stage. A name (less
  one slash at its end) below which the index has no entry is other, for \<^verbatim>\<open>index_name_is_other\<close>, exactly when the index does not mention it;
  whatever is not other is mentioned. A removed path without files below it is other.
\<close>

theorem index_names_removed:
  assumes "sorted_cache (is_cache s)"
  shows "is_cache (remove_file_from_index s path) = filter (\<lambda>p. ce_name p \<noteq> path) (is_cache s) \<and>
   (\<forall>name. \<not> index_name_is_other s name (length name) \<longrightarrow> mentioned (is_cache s) (without_slash name)) \<and>
   (\<forall>name. (\<forall>p \<in> set (is_cache s). \<not> below (ce_name p) (without_slash name)) \<longrightarrow>
      (index_name_is_other s name (length name) \<longleftrightarrow> \<not> mentioned (is_cache s) (without_slash name))) \<and>
   (\<forall>name. without_slash name = path \<longrightarrow> (\<forall>p \<in> set (is_cache s). \<not> below (ce_name p) path) \<longrightarrow>
      index_name_is_other (remove_file_from_index s path) name (length name))"
proof -
  have r: "is_cache (remove_file_from_index s path) = filter (\<lambda>p. ce_name p \<noteq> path) (is_cache s)"
    using assms by (rule remove_file_from_index_filter)
  then have "sorted_cache (is_cache (remove_file_from_index s path))" using assms by (simp add: sorted_cache_filter)
  with r index_name_is_other_named [OF assms] show ?thesis
    by (auto simp: index_name_is_other_named mentioned_def)
qed

lemma index_names_removed_witness:
  "is_cache (remove_file_from_index \<lparr>is_cache = [blob_entry ''a'', blob_entry ''b''], cache_changed = 0\<rparr> ''a'') = [blob_entry ''b''] \<and>
   index_name_is_other (remove_file_from_index \<lparr>is_cache = [blob_entry ''a'', blob_entry ''b''], cache_changed = 0\<rparr> ''a'') ''a/'' (length ''a/'')"
proof -
  have "sorted_cache (is_cache \<lparr>is_cache = [blob_entry ''a'', blob_entry ''b''], cache_changed = 0\<rparr>)"
    by (simp add: sorted_cache_def ce_less_def key_cmp_def char_code_def)
  note r = index_names_removed [OF this, of "''a''"]
  have "\<forall>name. without_slash name = ''a'' \<longrightarrow> \<not> below ''a'' ''a'' \<and> \<not> below ''b'' ''a'' \<longrightarrow>
      index_name_is_other (remove_file_from_index \<lparr>is_cache = [blob_entry ''a'', blob_entry ''b''], cache_changed = 0\<rparr> ''a'') name (length name)"
    using r by simp
  from this [rule_format, of "''a/''"] r show ?thesis by (simp add: without_slash_def below_def)
qed

section \<open>Gaps in the checks\<close>

definition staged_entry :: "string \<Rightarrow> u32 \<Rightarrow> cache_entry" where
  "staged_entry name flags = (blob_entry name)\<lparr>ce_flags := flags\<rparr>"

text \<open>
  An unmerged entry of the same name at a higher stage ends the search of \<^verbatim>\<open>has_file_name\<close>, so a
  directory of the entry's own stage behind it is not found.
\<close>

lemma has_file_name_stops_early:
  "has_file_name \<lparr>is_cache = [staged_entry ''a'' 0x2000, staged_entry ''a/b'' 0x1000], cache_changed = 0\<rparr>
     (staged_entry ''a'' 0x1000) 0 False =
     (\<lparr>is_cache = [staged_entry ''a'' 0x2000, staged_entry ''a/b'' 0x1000], cache_changed = 0\<rparr>, 0)"
  "staged_entry ''a/b'' 0x1000 \<in> children {staged_entry ''a'' 0x2000, staged_entry ''a/b'' 0x1000} (staged_entry ''a'' 0x1000)"
  by (simp_all add: has_file_name_def file_name_loop.simps staged_entry_def blob_entry_def children_def
      live_at_def below_def ce_stage_def ce_remove_def)

text \<open>Replacing an entry that is marked for removal skips the check for conflicts.\<close>

lemma replacing_removed_entry_skips_check:
  "is_cache (fst (add_index_entry False False
     \<lparr>is_cache = [staged_entry ''a'' 0x20000, blob_entry ''a/b''], cache_changed = 0\<rparr> (blob_entry ''a'') 1)) =
   [staged_entry ''a'' 0x8000000, blob_entry ''a/b'']"
  "below ''a/b'' ''a''"
proof -
  have "index_name_stage_pos \<lparr>is_cache = [staged_entry ''a'' 0x20000, blob_entry ''a/b''], cache_changed = 0\<rparr> ''a'' 1 0 = 0"
    by (simp add: index_name_stage_pos_def stage_pos_loop.simps cache_name_stage_compare_def name_compare_def
        memcmp_names_def char_code_def Let_def staged_entry_def blob_entry_def ce_stage_def)
  then show "is_cache (fst (add_index_entry False False
     \<lparr>is_cache = [staged_entry ''a'' 0x20000, blob_entry ''a/b''], cache_changed = 0\<rparr> (blob_entry ''a'') 1)) =
   [staged_entry ''a'' 0x8000000, blob_entry ''a/b'']"
    by (simp add: add_index_entry_def add_index_entry_with_check_def replace_index_entry_def set_index_entry_def
        staged_entry_def blob_entry_def ce_stage_def Let_def)
  show "below ''a/b'' ''a''" by (simp add: below_def)
qed

text \<open>A directory with files in the index is other, against the comment of \<^verbatim>\<open>index_name_is_other\<close>.\<close>

lemma directory_is_other:
  "index_name_is_other \<lparr>is_cache = [blob_entry ''dir/f''], cache_changed = 0\<rparr> ''dir'' (length ''dir'')"
  "mentioned [blob_entry ''dir/f''] ''dir''"
  by (subst index_name_is_other_named) (simp_all add: sorted_cache_def without_slash_def mentioned_def below_def)

text \<open>\<^verbatim>\<open>check_ce_order\<close> lets the same name pass twice at one stage above 0.\<close>

lemma check_ce_order_accepts_duplicates:
  "check_ce_order \<lparr>is_cache = [staged_entry ''a'' 0x1000, staged_entry ''a'' 0x1000], cache_changed = 0\<rparr> = None"
  by (simp add: check_ce_order_def staged_entry_def blob_entry_def ce_stage_def)

end
