(* ===== verification/Index_File.thy ===== *)
theory Index_File
  imports Index_Add Varint Sha1 Object_Table
begin

text \<open>
  The index on disk (\<^verbatim>\<open>read-cache.c\<close>), versions 2 to 4: the writer with its buffer and running SHA-1, and the
  reader of a mapped file. A file is the list of its bytes; a pointer into the mapping is the rest of the
  file. Writing to the file succeeds. Writing the extensions is left out. A read behind the end of the mapping, which the code does not
  check, is the error \<open>Outside\<close>.
\<close>

section \<open>Bytes\<close>

definition byte_of :: "char \<Rightarrow> byte" where
  "byte_of c = of_nat (of_char c)"

definition char_of_byte :: "byte \<Rightarrow> char" where
  "char_of_byte b = char_of (unat b)"

abbreviation name_bytes :: "string \<Rightarrow> byte list" where
  "name_bytes name \<equiv> map byte_of name"

text \<open>The low 16 bits of a word in network byte order.\<close>

definition put_be16 :: "u32 \<Rightarrow> byte list" where
  "put_be16 v = [ucast (drop_bit 8 v), ucast v]"

definition get_be16 :: "byte list \<Rightarrow> nat \<Rightarrow> u32" where
  "get_be16 p i = push_bit 8 (ucast (p ! i)) OR ucast (p ! (i + 1))"

section \<open>Entries on disk\<close>

abbreviation (input) CE_NAMEMASK :: u32 where "CE_NAMEMASK \<equiv> 0xFFF"
abbreviation (input) CE_EXTENDED :: u32 where "CE_EXTENDED \<equiv> 0x4000"
abbreviation (input) CE_EXTENDED_FLAGS :: u32 where "CE_EXTENDED_FLAGS \<equiv> 0x60000000"
abbreviation (input) CE_UPTODATE :: u32 where "CE_UPTODATE \<equiv> 0x40000"
abbreviation (input) CE_STRIP_NAME :: u32 where "CE_STRIP_NAME \<equiv> 0x10000000"

definition ce_extended :: "u32 \<Rightarrow> bool" where
  "ce_extended flags \<longleftrightarrow> flags AND CE_EXTENDED \<noteq> 0"

text \<open>The offset of the name in the two structures.\<close>

definition name_offset :: "bool \<Rightarrow> nat" where
  "name_offset extended = (if extended then 64 else 62)"

definition align_flex_name :: "nat \<Rightarrow> nat \<Rightarrow> nat" where
  "align_flex_name offset len = (offset + len + 8) div 8 * 8"

definition ondisk_ce_size :: "u32 \<Rightarrow> nat \<Rightarrow> nat" where
  "ondisk_ce_size flags namelen = align_flex_name (name_offset (ce_extended flags)) namelen"

definition copy_cache_entry_to_ondisk :: "cache_entry \<Rightarrow> nat \<Rightarrow> byte list" where
  "copy_cache_entry_to_ondisk ce namelen =
     (let sd = ce_stat_data ce;
          flags = (ce_flags ce AND NOT CE_NAMEMASK) OR (if namelen \<ge> 0xFFF then CE_NAMEMASK else of_nat namelen)
      in put_be32 (sd_ctime_sec sd) @ put_be32 (sd_ctime_nsec sd) @ put_be32 (sd_mtime_sec sd) @ put_be32 (sd_mtime_nsec sd) @
         put_be32 (sd_dev sd) @ put_be32 (sd_ino sd) @ put_be32 (ce_mode ce) @ put_be32 (sd_uid sd) @
         put_be32 (sd_gid sd) @ put_be32 (sd_size sd) @ ce_sha1 ce @ put_be16 flags @
         (if ce_extended (ce_flags ce) then put_be16 (drop_bit 16 (ce_flags ce AND CE_EXTENDED_FLAGS)) else []))"

fun common_prefix :: "string \<Rightarrow> string \<Rightarrow> nat" where
  "common_prefix (c # s) (d # t) = (if c \<noteq> NUL \<and> c = d then common_prefix s t + 1 else 0)"
| "common_prefix s t = 0"

text \<open>The bytes of an entry, the name the next entry refers to, and the entry, which loses a flag.\<close>

definition ce_write_entry :: "cache_entry \<Rightarrow> string option \<Rightarrow> byte list \<times> string option \<times> cache_entry" where
  "ce_write_entry ce previous_name =
     (let strip = (ce_flags ce AND CE_STRIP_NAME \<noteq> 0);
          namelen = (if strip then 0 else ce_namelen ce);
          ce' = (if strip then ce\<lparr>ce_flags := ce_flags ce AND NOT CE_STRIP_NAME\<rparr> else ce);
          fixed = copy_cache_entry_to_ondisk ce namelen
      in case previous_name of
           None \<Rightarrow>
             (fixed @ name_bytes (take namelen (ce_name ce)) @
                replicate (ondisk_ce_size (ce_flags ce) namelen - length fixed - namelen) 0, None, ce')
         | Some prev \<Rightarrow>
             let common = common_prefix (ce_name ce) prev; to_remove = length prev - common;
                 to_remove_vi = fst (encode_varint (of_nat to_remove) None);
                 tail = drop common (take namelen (ce_name ce))
             in (fixed @ take to_remove_vi (the (snd (encode_varint (of_nat to_remove) (Some (replicate 16 0))))) @
                   name_bytes tail @ [0],
                 Some (take common prev @ tail), ce'))"

section \<open>The writer\<close>

record write_state =
  ws_ctx :: blk_SHA_CTX
  ws_buffer :: "byte list"
  ws_file :: "byte list"

abbreviation (input) WRITE_BUFFER_SIZE :: nat where "WRITE_BUFFER_SIZE \<equiv> 8192"

definition ce_write_flush :: "write_state \<Rightarrow> write_state" where
  "ce_write_flush ws =
     (if ws_buffer ws \<noteq> [] then
        ws\<lparr>ws_ctx := blk_SHA1_Update (ws_ctx ws) (ws_buffer ws), ws_file := ws_file ws @ ws_buffer ws, ws_buffer := []\<rparr>
      else ws)"

text \<open>The buffer is never full between two calls; the test for it makes the recursion total.\<close>

function ce_write :: "write_state \<Rightarrow> byte list \<Rightarrow> write_state" where
  "ce_write ws data =
     (if data = [] \<or> length (ws_buffer ws) \<ge> WRITE_BUFFER_SIZE then ws
      else let partial = min (WRITE_BUFFER_SIZE - length (ws_buffer ws)) (length data);
               ws = ws\<lparr>ws_buffer := ws_buffer ws @ take partial data\<rparr>;
               ws = (if length (ws_buffer ws) = WRITE_BUFFER_SIZE then ce_write_flush ws else ws)
           in ce_write ws (drop partial data))"
  by pat_completeness auto

termination
  by (relation "measure (\<lambda>(_, data). length data)") auto

declare ce_write.simps [simp del]

definition ce_flush :: "write_state \<Rightarrow> byte list \<times> byte list" where
  "ce_flush ws =
     (let left = ws_buffer ws;
          ctx = (if left \<noteq> [] then blk_SHA1_Update (ws_ctx ws) left else ws_ctx ws);
          (out, left) = (if length left + 20 > WRITE_BUFFER_SIZE then (ws_file ws @ left, []) else (ws_file ws, left));
          sha1 = blk_SHA1_Final ctx
      in (out @ left @ sha1, sha1))"

definition is_null_sha1 :: "byte list \<Rightarrow> bool" where
  "is_null_sha1 sha1 \<longleftrightarrow> hashcmp sha1 (replicate 20 0) = 0"

definition set_extended :: "cache_entry \<Rightarrow> cache_entry" where
  "set_extended ce =
     (let flags = ce_flags ce AND NOT CE_EXTENDED
      in ce\<lparr>ce_flags := (if flags AND CE_EXTENDED_FLAGS \<noteq> 0 then flags OR CE_EXTENDED else flags)\<rparr>)"

text \<open>
  An entry that is racily clean gets the size 0 (\<^verbatim>\<open>ce_smudge_racily_clean_entry\<close>); whether it is depends on
  time stamps and the working tree, so the test is an argument.
\<close>

definition smudge :: "(cache_entry \<Rightarrow> bool) \<Rightarrow> cache_entry \<Rightarrow> cache_entry" where
  "smudge racy ce =
     (if ce_flags ce AND CE_UPTODATE = 0 \<and> racy ce
      then ce\<lparr>ce_stat_data := (ce_stat_data ce)\<lparr>sd_size := 0\<rparr>\<rparr> else ce)"

fun write_entries ::
  "bool \<Rightarrow> (cache_entry \<Rightarrow> bool) \<Rightarrow> write_state \<Rightarrow> string option \<Rightarrow> cache_entry list \<Rightarrow> write_state option" where
  "write_entries allow_null racy ws previous_name [] = Some ws"
| "write_entries allow_null racy ws previous_name (ce # ces) =
     (if ce_remove ce then write_entries allow_null racy ws previous_name ces
      else let ce = smudge racy ce
           in if is_null_sha1 (ce_sha1 ce) \<and> \<not> allow_null then None
              else let (bytes, previous_name, ce) = ce_write_entry ce previous_name
                   in write_entries allow_null racy (ce_write ws bytes) previous_name ces)"

abbreviation (input) CACHE_SIGNATURE :: u32 where "CACHE_SIGNATURE \<equiv> 0x44495243"

text \<open>The default version is the one \<^verbatim>\<open>get_index_format_default\<close> finds in the environment or the configuration.\<close>

definition write_version :: "u32 \<Rightarrow> u32 \<Rightarrow> cache_entry list \<Rightarrow> u32" where
  "write_version default_version version cache =
     (let version = (if version = 0 then default_version else version)
      in if version = 3 \<or> version = 2 then if list_ex (\<lambda>ce. ce_extended (ce_flags ce)) cache then 3 else 2
         else version)"

definition do_write_index ::
  "bool \<Rightarrow> (cache_entry \<Rightarrow> bool) \<Rightarrow> u32 \<Rightarrow> blk_SHA_CTX \<Rightarrow> u32 \<Rightarrow> cache_entry list \<Rightarrow> byte list option" where
  "do_write_index allow_null racy default_version c version cache =
     (let removed = length (filter ce_remove cache);
          entries = length cache;
          cache = map set_extended cache;
          hdr_version = write_version default_version version cache;
          hdr = put_be32 CACHE_SIGNATURE @ put_be32 hdr_version @ put_be32 (of_nat (entries - removed));
          ws = ce_write \<lparr>ws_ctx = blk_SHA1_Init c, ws_buffer = [], ws_file = []\<rparr> hdr
      in case write_entries allow_null racy ws (if hdr_version = 4 then Some [] else None) cache of
           None \<Rightarrow> None
         | Some ws \<Rightarrow> Some (fst (ce_flush ws)))"

section \<open>The reader\<close>

datatype read_error =
    Too_Small | Bad_Signature | Bad_Version | Bad_Sha1 | Unknown_Format | Malformed_Name | Bad_Extension | Outside

definition verify_hdr :: "blk_SHA_CTX \<Rightarrow> byte list \<Rightarrow> read_error option" where
  "verify_hdr c hdr =
     (if get_be32 hdr 0 \<noteq> CACHE_SIGNATURE then Some Bad_Signature
      else let hdr_version = sint (get_be32 hdr 4)
           in if hdr_version < 2 \<or> 4 < hdr_version then Some Bad_Version
              else let sha1 = blk_SHA1_Final (blk_SHA1_Update (blk_SHA1_Init c) (take (length hdr - 20) hdr))
                   in if hashcmp sha1 (drop (length hdr - 20) hdr) \<noteq> 0 then Some Bad_Sha1 else None)"

definition cache_entry_from_ondisk :: "byte list \<Rightarrow> u32 \<Rightarrow> string \<Rightarrow> cache_entry" where
  "cache_entry_from_ondisk ondisk flags name =
     \<lparr>ce_stat_data = \<lparr>sd_ctime_sec = get_be32 ondisk 0, sd_ctime_nsec = get_be32 ondisk 4,
        sd_mtime_sec = get_be32 ondisk 8, sd_mtime_nsec = get_be32 ondisk 12,
        sd_dev = get_be32 ondisk 16, sd_ino = get_be32 ondisk 20,
        sd_uid = get_be32 ondisk 28, sd_gid = get_be32 ondisk 32, sd_size = get_be32 ondisk 36\<rparr>,
      ce_mode = get_be32 ondisk 24,
      ce_flags = flags AND NOT CE_NAMEMASK,
      ce_sha1 = take 20 (drop 40 ondisk),
      ce_name = name\<rparr>"

definition strlen :: "byte list \<Rightarrow> nat option" where
  "strlen s = (if 0 \<in> set s then Some (length (takeWhile (\<lambda>b. b \<noteq> 0) s)) else None)"

abbreviation name_of :: "byte list \<Rightarrow> string" where
  "name_of bs \<equiv> map char_of_byte bs"

text \<open>The new name and how many bytes the field takes.\<close>

definition expand_name_field :: "string \<Rightarrow> byte list \<Rightarrow> read_error + (string \<times> nat)" where
  "expand_name_field name cp =
     (case decode_varint cp of
        None \<Rightarrow> Inl Outside
      | Some (len, cp') \<Rightarrow>
          if length name < unat len then Inl Malformed_Name
          else case strlen cp' of
                 None \<Rightarrow> Inl Outside
               | Some n \<Rightarrow> Inr (take (length name - unat len) name @ name_of (take n cp'),
                               length cp - length cp' + n + 1))"

definition create_from_disk :: "byte list \<Rightarrow> string option \<Rightarrow> read_error + (cache_entry \<times> nat \<times> string option)" where
  "create_from_disk ondisk previous_name =
     (if length ondisk < 62 then Inl Outside
      else
        let flags = get_be16 ondisk 60; len = unat (flags AND CE_NAMEMASK)
        in if ce_extended flags \<and> length ondisk < 64 then Inl Outside
           else
             let extended_flags = (if ce_extended flags then push_bit 16 (get_be16 ondisk 62) else 0)
             in if extended_flags AND NOT CE_EXTENDED_FLAGS \<noteq> 0 then Inl Unknown_Format
                else
                  let flags = flags OR extended_flags;
                      name = drop (name_offset (ce_extended flags)) ondisk
                  in case previous_name of
                       None \<Rightarrow>
                         (case (if len = 0xFFF then strlen name else if len \<le> length name then Some len else None) of
                            None \<Rightarrow> Inl Outside
                          | Some len \<Rightarrow> Inr (cache_entry_from_ondisk ondisk flags (name_of (take len name)),
                                            ondisk_ce_size flags len, None))
                     | Some prev \<Rightarrow>
                         (case expand_name_field prev name of
                            Inl e \<Rightarrow> Inl e
                          | Inr (name', consumed) \<Rightarrow>
                              Inr (cache_entry_from_ondisk ondisk flags name',
                                   name_offset (ce_extended flags) + consumed, Some name')))"

text \<open>The entries and the offset behind them.\<close>

fun read_entries :: "nat \<Rightarrow> byte list \<Rightarrow> nat \<Rightarrow> string option \<Rightarrow> read_error + (cache_entry list \<times> nat)" where
  "read_entries 0 mmap src_offset previous_name = Inr ([], src_offset)"
| "read_entries (Suc n) mmap src_offset previous_name =
     (case create_from_disk (drop src_offset mmap) previous_name of
        Inl e \<Rightarrow> Inl e
      | Inr (ce, consumed, previous_name) \<Rightarrow>
          (case read_entries n mmap (src_offset + consumed) previous_name of
             Inl e \<Rightarrow> Inl e
           | Inr (ces, off) \<Rightarrow> Inr (ce # ces, off)))"

text \<open>
  The readers of the four known extensions keep their data elsewhere; only the one of the split index reports errors, by an
  argument here. Other extensions are ignored when they begin with a capital letter.
\<close>

definition read_index_extension :: "(byte list \<Rightarrow> bool) \<Rightarrow> byte list \<Rightarrow> byte list \<Rightarrow> bool" where
  "read_index_extension link_ok ext data =
     (if get_be32 ext 0 \<in> {0x54524545, 0x52455543, 0x554E5452} then True
      else if get_be32 ext 0 = 0x6C696E6B then link_ok data
      else 0x41 \<le> unat (ext ! 0) \<and> unat (ext ! 0) \<le> 0x5A)"

function read_extensions :: "(byte list \<Rightarrow> bool) \<Rightarrow> byte list \<Rightarrow> nat \<Rightarrow> read_error option" where
  "read_extensions link_ok mmap src_offset =
     (if src_offset \<le> length mmap - 20 - 8 \<and> 28 \<le> length mmap
      then let extsize = unat (get_be32 mmap (src_offset + 4))
           in if \<not> read_index_extension link_ok (drop src_offset mmap) (take extsize (drop (src_offset + 8) mmap))
              then Some Bad_Extension
              else read_extensions link_ok mmap (src_offset + 8 + extsize)
      else None)"
  by pat_completeness auto

termination
  by (relation "measure (\<lambda>(_, mmap, off). length mmap - off)") auto

declare read_extensions.simps [simp del]

text \<open>The version and the entries of a mapped file.\<close>

definition do_read_index :: "(byte list \<Rightarrow> bool) \<Rightarrow> blk_SHA_CTX \<Rightarrow> byte list \<Rightarrow> read_error + (u32 \<times> cache_entry list)" where
  "do_read_index link_ok c mmap =
     (if length mmap < 12 + 20 then Inl Too_Small
      else case verify_hdr c mmap of
             Some e \<Rightarrow> Inl e
           | None \<Rightarrow>
               let version = get_be32 mmap 4; nr = unat (get_be32 mmap 8)
               in case read_entries nr mmap 12 (if version = 4 then Some [] else None) of
                    Inl e \<Rightarrow> Inl e
                  | Inr (ces, src_offset) \<Rightarrow>
                      (case read_extensions link_ok mmap src_offset of
                         Some e \<Rightarrow> Inl e
                       | None \<Rightarrow> Inr (version, ces)))"

section \<open>Bytes read back\<close>

lemma char_of_byte_of [simp]: "char_of_byte (byte_of c) = c"
proof -
  have "(of_char c :: nat) < 256" by simp
  then have "unat (of_nat (of_char c) :: byte) = of_char c" by (simp add: unat_of_nat)
  then show ?thesis by (simp add: char_of_byte_def byte_of_def)
qed

lemma char_byte_comp [simp]: "char_of_byte \<circ> byte_of = id"
  by (rule ext) simp

lemma name_of_bytes: "name_of (name_bytes n) = n"
  by simp

lemma byte_of_zero [simp]: "byte_of c = 0 \<longleftrightarrow> c = NUL"
proof
  assume "byte_of c = 0"
  moreover have "char_of_byte 0 = NUL"
    by (simp add: char_of_byte_def char_of_eq_iff)
  ultimately show "c = NUL" using char_of_byte_of [of c] by metis
qed (simp add: byte_of_def)

lemma length_put_be32 [simp]: "length (put_be32 v) = 4"
  by (simp add: put_be32_def)

lemma length_put_be16 [simp]: "length (put_be16 v) = 2"
  by (simp add: put_be16_def)

lemma get_put_be32 [simp]: "get_be32 (put_be32 v @ xs) 0 = v"
proof -
  have "push_bit 24 (ucast (ucast (drop_bit 24 v) :: byte)) OR push_bit 16 (ucast (ucast (drop_bit 16 v) :: byte)) OR
      push_bit 8 (ucast (ucast (drop_bit 8 v) :: byte)) OR ucast (ucast v :: byte) = (v :: u32)"
  proof (rule bit_word_eqI)
    fix n assume "n < LENGTH(32)"
    then consider "n < 8" | "8 \<le> n" "n < 16" | "16 \<le> n" "n < 24" | "24 \<le> n" "n < 32" by fastforce
    then show "bit (push_bit 24 (ucast (ucast (drop_bit 24 v) :: byte)) OR push_bit 16 (ucast (ucast (drop_bit 16 v) :: byte)) OR
        push_bit 8 (ucast (ucast (drop_bit 8 v) :: byte)) OR ucast (ucast v :: byte) :: u32) n = bit (v :: u32) n"
      by cases (auto simp: bit_simps)
  qed
  then show ?thesis by (simp add: get_be32_def put_be32_def)
qed

lemma get_be32_skip: "length ys \<le> i \<Longrightarrow> get_be32 (ys @ xs) i = get_be32 xs (i - length ys)"
  by (simp add: get_be32_def nth_append Suc_diff_le)

lemma get_put_be16 [simp]: "get_be16 (put_be16 v @ xs) 0 = v AND 0xFFFF"
proof -
  have m: "(0xFFFF :: u32) = mask 16" by (simp add: mask_eq_exp_minus_1)
  have "push_bit 8 (ucast (ucast (drop_bit 8 v) :: byte)) OR ucast (ucast v :: byte) = v AND (0xFFFF :: u32)"
    unfolding m by (rule bit_word_eqI) (auto simp: bit_simps)
  then show ?thesis by (simp add: get_be16_def put_be16_def)
qed

lemma get_be16_skip: "length ys \<le> i \<Longrightarrow> get_be16 (ys @ xs) i = get_be16 xs (i - length ys)"
  by (simp add: get_be16_def nth_append Suc_diff_le)

lemma masks32: "(0xFFF :: u32) = mask 12" "(0xFFFF :: u32) = mask 16" "(0xF000 :: u32) = push_bit 12 (mask 4)"
  "(0x60000000 :: u32) = push_bit 29 (mask 2)"
  by (simp_all add: mask_eq_exp_minus_1 push_bit_eq_mult)

lemma bit_0x4000: "bit (0x4000 :: 'a::semiring_bit_operations) n \<longleftrightarrow> possible_bit TYPE('a) n \<and> n = 14"
proof -
  have "(0x4000 :: 'a) = 2 ^ 14" by simp
  then show ?thesis by (simp only: bit_exp_iff)
qed

lemma small_bits: "nl \<le> 0xFFF \<Longrightarrow> bit nl n \<Longrightarrow> n < 12" for nl :: nat
proof (rule ccontr)
  assume a: "nl \<le> 0xFFF" "bit nl n" "\<not> n < 12"
  have "take_bit 12 nl = nl" using a(1) by (simp add: take_bit_eq_mod)
  then show False using a(2,3) by (metis bit_take_bit_iff)
qed

lemma disk_flags:
  fixes f :: u32
  assumes "nl \<le> 0xFFF" and "g = ((f AND NOT 0xFFF) OR of_nat nl) AND 0xFFFF"
  shows "unat (g AND 0xFFF) = nl"
    and "ce_extended g = ce_extended f"
    and "(g OR (f AND 0x60000000)) AND NOT 0xFFF = (f AND 0xF000) OR (f AND 0x60000000)"
    and "g AND NOT 0xFFF = f AND 0xF000"
    and "push_bit 16 (drop_bit 16 (f AND 0x60000000) AND 0xFFFF) = f AND 0x60000000"
    and "ce_extended (g OR (f AND 0x60000000)) = ce_extended f"
proof -
  note sb = small_bits [OF assms(1)]
  have sb16: "n < 16" if "bit nl n" for n using sb [OF that] by simp
  have "g AND 0xFFF = of_nat nl"
    unfolding assms(2) masks32 by (rule bit_word_eqI) (auto simp: bit_simps bit_0x4000 dest: sb sb16)
  moreover have "unat (of_nat nl :: u32) = nl" using assms(1) by (simp add: unat_of_nat)
  ultimately show "unat (g AND 0xFFF) = nl" by simp
  have "g AND 0x4000 = f AND 0x4000"
    unfolding assms(2) masks32 by (rule bit_word_eqI) (auto simp: bit_simps bit_0x4000 dest: sb sb16)
  then show "ce_extended g = ce_extended f" by (simp add: ce_extended_def)
  show "(g OR (f AND 0x60000000)) AND NOT 0xFFF = (f AND 0xF000) OR (f AND 0x60000000)"
    unfolding assms(2) masks32 by (rule bit_word_eqI) (auto simp: bit_simps bit_0x4000 dest: sb sb16)
  show "g AND NOT 0xFFF = f AND 0xF000"
    unfolding assms(2) masks32 by (rule bit_word_eqI) (auto simp: bit_simps bit_0x4000 dest: sb sb16)
  show "push_bit 16 (drop_bit 16 (f AND 0x60000000) AND 0xFFFF) = f AND 0x60000000"
    unfolding masks32 by (rule bit_word_eqI) (auto simp: bit_simps)
  have "(g OR (f AND 0x60000000)) AND 0x4000 = f AND 0x4000"
    unfolding assms(2) masks32 by (rule bit_word_eqI) (auto simp: bit_simps bit_0x4000 dest: sb sb16)
  then show "ce_extended (g OR (f AND 0x60000000)) = ce_extended f" by (simp add: ce_extended_def)
qed

section \<open>The writer appends\<close>

definition ws_all :: "write_state \<Rightarrow> byte list" where
  "ws_all ws = ws_file ws @ ws_buffer ws"

definition ws_ok :: "write_state \<Rightarrow> bool" where
  "ws_ok ws \<longleftrightarrow> ctx_of (ws_file ws) (ws_ctx ws) \<and> length (ws_buffer ws) < WRITE_BUFFER_SIZE"

lemma ce_write_spec: "ws_ok ws \<Longrightarrow> ws_ok (ce_write ws data) \<and> ws_all (ce_write ws data) = ws_all ws @ data"
proof (induction ws data rule: ce_write.induct)
  case (1 ws data)
  show ?case
  proof (cases "data = []")
    case True
    then show ?thesis using 1(2) by (subst (1 2) ce_write.simps) simp
  next
    case False
    define partial where "partial = min (WRITE_BUFFER_SIZE - length (ws_buffer ws)) (length data)"
    define ws1 where "ws1 = ws\<lparr>ws_buffer := ws_buffer ws @ take partial data\<rparr>"
    define ws2 where "ws2 = (if length (ws_buffer ws1) = WRITE_BUFFER_SIZE then ce_write_flush ws1 else ws1)"
    have guard: "\<not> (data = [] \<or> WRITE_BUFFER_SIZE \<le> length (ws_buffer ws))"
      using False 1(2) by (simp add: ws_ok_def)
    have eq: "ce_write ws data = ce_write ws2 (drop partial data)"
      using guard by (subst ce_write.simps) (simp add: Let_def partial_def ws1_def ws2_def)
    have len: "length (ws_buffer ws1) \<le> WRITE_BUFFER_SIZE" using 1(2) by (auto simp: ws1_def partial_def ws_ok_def)
    have ctx: "ctx_of (ws_file ws1) (ws_ctx ws1)" using 1(2) by (simp add: ws_ok_def ws1_def)
    have ok2: "ws_ok ws2"
      using len ctx update_ctx_of [OF ctx, of "ws_buffer ws1"] by (auto simp: ws2_def ws_ok_def ce_write_flush_def)
    have all2: "ws_all ws2 = ws_all ws @ take partial data"
      by (auto simp: ws2_def ws_all_def ce_write_flush_def ws1_def)
    show ?thesis
      using 1(1) [OF guard partial_def ws1_def ws2_def ok2] unfolding eq all2 by simp
  qed
qed

lemma length_fips_sha1: "length (fips_sha1 m) = 20"
  by (simp add: fips_sha1_def be_bytes_def split: prod.split)

lemma ce_flush_spec: "ws_ok ws \<Longrightarrow> ce_flush ws = (ws_all ws @ fips_sha1 (ws_all ws), fips_sha1 (ws_all ws))"
proof -
  assume ok: "ws_ok ws"
  then have ctx: "ctx_of (ws_file ws) (ws_ctx ws)" by (simp add: ws_ok_def)
  have "blk_SHA1_Final (if ws_buffer ws \<noteq> [] then blk_SHA1_Update (ws_ctx ws) (ws_buffer ws) else ws_ctx ws) =
      fips_sha1 (ws_all ws)"
    using final_ctx_of [OF ctx] final_ctx_of [OF update_ctx_of [OF ctx, of "ws_buffer ws"]] by (simp add: ws_all_def)
  then show ?thesis by (auto simp: ce_flush_def Let_def ws_all_def)
qed

section \<open>One entry\<close>

definition writable :: "cache_entry \<Rightarrow> bool" where
  "writable ce \<longleftrightarrow> length (ce_sha1 ce) = 20 \<and> c_string (ce_name ce) \<and> ce_namelen ce < 2 ^ 31 \<and>
     ce_flags ce AND CE_STRIP_NAME = 0 \<and> (ce_extended (ce_flags ce) \<longleftrightarrow> ce_flags ce AND CE_EXTENDED_FLAGS \<noteq> 0)"

text \<open>What the file keeps: the stage, the extended, valid, skip-worktree and intent-to-add flags.\<close>

definition disk_form :: "cache_entry \<Rightarrow> cache_entry" where
  "disk_form ce = ce\<lparr>ce_flags := ce_flags ce AND 0x6000F000\<rparr>"

lemma disk_form_flags: "(f AND 0xF000) OR (f AND 0x60000000) = f AND (0x6000F000 :: u32)"
  by (simp add: bit.conj_disj_distrib [symmetric])

lemma length_ondisk: "length (ce_sha1 ce) = 20 \<Longrightarrow>
   length (copy_cache_entry_to_ondisk ce n) = name_offset (ce_extended (ce_flags ce))"
  by (simp add: copy_cache_entry_to_ondisk_def Let_def name_offset_def)

lemma read_ondisk:
  fixes rest :: "byte list"
  assumes w: "writable ce" and d: "ondisk = copy_cache_entry_to_ondisk ce (ce_namelen ce) @ rest"
  defines "nl \<equiv> if ce_namelen ce \<ge> 0xFFF then 0xFFF else ce_namelen ce"
    and "g \<equiv> get_be16 ondisk 60"
    and "e \<equiv> (if ce_extended (get_be16 ondisk 60) then push_bit 16 (get_be16 ondisk 62) else 0)"
  shows "unat (g AND CE_NAMEMASK) = nl" and "ce_extended g = ce_extended (ce_flags ce)"
    and "e = ce_flags ce AND CE_EXTENDED_FLAGS" and "ce_extended (g OR e) = ce_extended (ce_flags ce)"
    and "cache_entry_from_ondisk ondisk (g OR e) (ce_name ce) = disk_form ce"
    and "drop (name_offset (ce_extended (ce_flags ce))) ondisk = rest" and "62 \<le> length ondisk"
    and "ce_extended (ce_flags ce) \<Longrightarrow> 64 \<le> length ondisk"
proof -
  let ?f = "ce_flags ce"
  let ?nl = "if ce_namelen ce \<ge> 0xFFF then CE_NAMEMASK else of_nat (ce_namelen ce)"
  have sha: "length (ce_sha1 ce) = 20" using w by (simp add: writable_def)
  have nl: "nl \<le> 0xFFF" "?nl = of_nat nl" by (auto simp: nl_def)
  have dd: "ondisk = put_be32 (sd_ctime_sec (ce_stat_data ce)) @ put_be32 (sd_ctime_nsec (ce_stat_data ce)) @
      put_be32 (sd_mtime_sec (ce_stat_data ce)) @ put_be32 (sd_mtime_nsec (ce_stat_data ce)) @
      put_be32 (sd_dev (ce_stat_data ce)) @ put_be32 (sd_ino (ce_stat_data ce)) @ put_be32 (ce_mode ce) @
      put_be32 (sd_uid (ce_stat_data ce)) @ put_be32 (sd_gid (ce_stat_data ce)) @ put_be32 (sd_size (ce_stat_data ce)) @
      ce_sha1 ce @ put_be16 ((?f AND NOT CE_NAMEMASK) OR of_nat nl) @
      (if ce_extended ?f then put_be16 (drop_bit 16 (?f AND CE_EXTENDED_FLAGS)) else []) @ rest"
    unfolding d copy_cache_entry_to_ondisk_def Let_def nl(2) by simp
  have g: "g = ((?f AND NOT CE_NAMEMASK) OR of_nat nl) AND 0xFFFF"
    unfolding g_def dd using sha by (simp add: get_be16_skip)
  have g': "get_be16 ondisk 60 = g" by (simp add: g_def)
  note fl = disk_flags [OF nl(1) g]
  show "unat (g AND CE_NAMEMASK) = nl" by (rule fl)
  show ex: "ce_extended g = ce_extended ?f" by (rule fl)
  show e: "e = ?f AND CE_EXTENDED_FLAGS"
  proof (cases "ce_extended ?f")
    case True
    have "get_be16 ondisk 62 = drop_bit 16 (?f AND CE_EXTENDED_FLAGS) AND 0xFFFF"
      unfolding dd using sha True by (simp add: get_be16_skip)
    then show ?thesis unfolding e_def g' ex using True fl(5) by simp
  next
    case False
    then have "?f AND CE_EXTENDED_FLAGS = 0" using w unfolding writable_def by blast
    then show ?thesis unfolding e_def g' ex using False by simp
  qed
  show "ce_extended (g OR e) = ce_extended ?f" unfolding e by (rule fl)
  have flags: "(g OR e) AND NOT CE_NAMEMASK = ?f AND 0x6000F000"
    unfolding e fl(3) by (rule disk_form_flags)
  show "cache_entry_from_ondisk ondisk (g OR e) (ce_name ce) = disk_form ce"
    unfolding cache_entry_from_ondisk_def flags disk_form_def
    unfolding dd using sha by (simp add: get_be32_skip)
  show "drop (name_offset (ce_extended ?f)) ondisk = rest" unfolding d using length_ondisk [OF sha] by simp
  show "62 \<le> length ondisk" "ce_extended ?f \<Longrightarrow> 64 \<le> length ondisk"
    unfolding d using length_ondisk [OF sha] by (simp_all add: name_offset_def)
qed

lemma strlen_name: "c_string n \<Longrightarrow> strlen (name_bytes n @ 0 # rest) = Some (length n)"
proof -
  assume "c_string n"
  then have "takeWhile (\<lambda>b. b \<noteq> 0) (name_bytes n @ 0 # rest) = name_bytes n"
    by (subst takeWhile_append2) (auto simp: c_string_def)
  then show ?thesis by (simp add: strlen_def)
qed

lemma if_either: "(if a then x else if b then x else y) = (if a \<or> b then x else y)"
  by simp

lemma create_from_disk_unfold:
  "create_from_disk ondisk previous_name =
     (let flags = get_be16 ondisk 60; len = unat (flags AND CE_NAMEMASK);
          e = (if ce_extended flags then push_bit 16 (get_be16 ondisk 62) else 0)
      in if length ondisk < 62 \<or> ce_extended flags \<and> length ondisk < 64 then Inl Outside
         else if e AND NOT CE_EXTENDED_FLAGS \<noteq> 0 then Inl Unknown_Format
         else let name = drop (name_offset (ce_extended (flags OR e))) ondisk
              in case previous_name of
                   None \<Rightarrow>
                     (case (if len = 0xFFF then strlen name else if len \<le> length name then Some len else None) of
                        None \<Rightarrow> Inl Outside
                      | Some len \<Rightarrow> Inr (cache_entry_from_ondisk ondisk (flags OR e) (name_of (take len name)),
                                        ondisk_ce_size (flags OR e) len, None))
                 | Some prev \<Rightarrow>
                     (case expand_name_field prev name of
                        Inl e \<Rightarrow> Inl e
                      | Inr (name', consumed) \<Rightarrow>
                          Inr (cache_entry_from_ondisk ondisk (flags OR e) name',
                               name_offset (ce_extended (flags OR e)) + consumed, Some name')))"
  unfolding create_from_disk_def Let_def if_either ..

lemma align_larger: "off + len < align_flex_name off len"
  unfolding align_flex_name_def by linarith

lemma name_read_back:
  assumes "c_string n" and "nl = (if length n \<ge> 0xFFF then 0xFFF else length n)"
  shows "(if nl = 0xFFF then strlen (name_bytes n @ 0 # rest)
     else if nl \<le> length (name_bytes n @ 0 # rest) then Some nl else None) = Some (length n)"
  using strlen_name [OF assms(1), of rest] assms(2) by auto

lemma read_entry_padded:
  assumes w: "writable ce" and wr: "ce_write_entry ce None = (bytes, prev', ce')"
  shows "create_from_disk (bytes @ rest) None = Inr (disk_form ce, length bytes, None) \<and> prev' = None"
proof -
  let ?f = "ce_flags ce"
  let ?fixed = "copy_cache_entry_to_ondisk ce (ce_namelen ce)"
  have sha: "length (ce_sha1 ce) = 20" and cs: "c_string (ce_name ce)" and ns: "ce_flags ce AND CE_STRIP_NAME = 0"
    using w by (simp_all add: writable_def)
  define off where "off = name_offset (ce_extended ?f)"
  have lf: "length ?fixed = off" using length_ondisk [OF sha] by (simp add: off_def)
  define k where "k = ondisk_ce_size ?f (ce_namelen ce) - off - ce_namelen ce"
  have k: "0 < k" "off + ce_namelen ce + k = ondisk_ce_size ?f (ce_namelen ce)"
    using align_larger [of off "ce_namelen ce"] by (simp_all add: k_def ondisk_ce_size_def off_def)
  have b: "bytes = ?fixed @ name_bytes (ce_name ce) @ replicate k 0" "prev' = None"
    using wr ns lf by (auto simp: ce_write_entry_def Let_def k_def)
  obtain k' where k': "k = Suc k'" using k(1) by (cases k) auto
  let ?rest = "name_bytes (ce_name ce) @ 0 # replicate k' 0 @ rest"
  have d: "bytes @ rest = ?fixed @ ?rest" unfolding b(1) k' by simp
  note r = read_ondisk [OF w d]
  have e0: "(?f AND CE_EXTENDED_FLAGS) AND NOT CE_EXTENDED_FLAGS = 0"
    by (simp add: and.assoc)
  have len: "length bytes = ondisk_ce_size ?f (ce_namelen ce)" using k(2) lf unfolding b(1) by simp
  have size: "ondisk_ce_size (get_be16 (bytes @ rest) 60 OR e) n = ondisk_ce_size ?f n"
    if "ce_extended (get_be16 (bytes @ rest) 60 OR e) = ce_extended ?f" for e n
    using that by (simp add: ondisk_ce_size_def)
  have long: "\<not> (length (bytes @ rest) < 62 \<or> ce_extended (get_be16 (bytes @ rest) 60) \<and> length (bytes @ rest) < 64)"
    using r(2,7,8) by (auto simp: not_less)
  have nm: "name_of (take (ce_namelen ce) ?rest) = ce_name ce" by simp
  have "create_from_disk (bytes @ rest) None =
      Inr (disk_form ce, ondisk_ce_size ?f (ce_namelen ce), None)"
    unfolding create_from_disk_unfold Let_def r(3) if_not_P [OF long] e0 r(1)
      r(4) [unfolded r(3)] r(6) name_read_back [OF cs refl]
    using r(5) [unfolded r(3)] r(4) [unfolded r(3)] by (simp add: nm size)
  then show ?thesis using len b(2) by simp
qed

lemma common_prefix_take:
  "common_prefix s t \<le> length s \<and> common_prefix s t \<le> length t \<and>
   take (common_prefix s t) t = take (common_prefix s t) s"
  by (induction s t rule: common_prefix.induct) auto

lemma read_entry_prefixed:
  assumes w: "writable ce" and prev: "length prev < 2 ^ 31"
    and wr: "ce_write_entry ce (Some prev) = (bytes, prev', ce')"
  shows "create_from_disk (bytes @ rest) (Some prev) = Inr (disk_form ce, length bytes, Some (ce_name ce)) \<and>
    prev' = Some (ce_name ce)"
proof -
  let ?f = "ce_flags ce"
  let ?fixed = "copy_cache_entry_to_ondisk ce (ce_namelen ce)"
  have sha: "length (ce_sha1 ce) = 20" and cs: "c_string (ce_name ce)" and ns: "ce_flags ce AND CE_STRIP_NAME = 0"
    using w by (simp_all add: writable_def)
  define common where "common = common_prefix (ce_name ce) prev"
  have c: "common \<le> ce_namelen ce" "common \<le> length prev" "take common prev = take common (ce_name ce)"
    using common_prefix_take [of "ce_name ce" prev] by (simp_all add: common_def)
  define v where "v = (of_nat (length prev - common) :: u64)"
  define tail where "tail = drop common (ce_name ce)"
  have v: "unat v = length prev - common" using prev by (simp add: v_def unat_of_nat)
  have b: "bytes = ?fixed @ varint_bytes v @ name_bytes tail @ [0]" "prev' = Some (take common prev @ tail)"
    using wr ns by (auto simp: ce_write_entry_def Let_def common_def [symmetric] tail_def encode_varint_def v_def)
  have nm: "take common prev @ tail = ce_name ce" using c(3) by (simp add: tail_def)
  let ?rest = "varint_bytes v @ name_bytes tail @ 0 # rest"
  have d: "bytes @ rest = ?fixed @ ?rest" unfolding b(1) by simp
  note r = read_ondisk [OF w d]
  have e0: "(?f AND CE_EXTENDED_FLAGS) AND NOT CE_EXTENDED_FLAGS = 0"
    by (simp add: and.assoc)
  have ct: "c_string tail" using cs by (auto simp: tail_def c_string_def dest: in_set_dropD)
  have ex: "expand_name_field prev ?rest = Inr (ce_name ce, length (varint_bytes v) + length tail + 1)"
    using strlen_name [OF ct, of rest] c(2) nm
    by (auto simp: expand_name_field_def decode_varint_bytes v)
  have long: "\<not> (length (bytes @ rest) < 62 \<or> ce_extended (get_be16 (bytes @ rest) 60) \<and> length (bytes @ rest) < 64)"
    using r(2,7,8) by (auto simp: not_less)
  have len: "length bytes = name_offset (ce_extended ?f) + (length (varint_bytes v) + length tail + 1)"
    using length_ondisk [OF sha] unfolding b(1) by simp
  have "create_from_disk (bytes @ rest) (Some prev) =
      Inr (disk_form ce, length bytes, Some (ce_name ce))"
    unfolding create_from_disk_unfold Let_def r(3) if_not_P [OF long] e0
      r(4) [unfolded r(3)] r(6) len
    using r(5) [unfolded r(3)] by (simp add: ex)
  then show ?thesis using b(2) nm by simp
qed

section \<open>All entries\<close>

definition stored :: "(cache_entry \<Rightarrow> bool) \<Rightarrow> cache_entry list \<Rightarrow> cache_entry list" where
  "stored racy ces = map (disk_form \<circ> smudge racy) (filter (\<lambda>ce. \<not> ce_remove ce) ces)"

lemma writable_smudge [simp]: "writable (smudge racy ce) = writable ce"
  by (simp add: writable_def smudge_def)

lemma ce_name_smudge [simp]: "ce_name (smudge racy ce) = ce_name ce"
  by (simp add: smudge_def)

text \<open>The name the next entry refers to is the last one, in version 4.\<close>

definition prev_ok :: "string option \<Rightarrow> bool" where
  "prev_ok prev \<longleftrightarrow> (case prev of None \<Rightarrow> True | Some p \<Rightarrow> length p < 2 ^ 31)"

lemma read_entry_written:
  assumes "writable ce" and "prev_ok prev" and "ce_write_entry ce prev = (bytes, prev', ce')"
  shows "create_from_disk (bytes @ rest) prev = Inr (disk_form ce, length bytes, prev') \<and> prev_ok prev'"
proof (cases prev)
  case None
  then show ?thesis using read_entry_padded [OF assms(1)] assms(3) by (simp add: prev_ok_def)
next
  case (Some p)
  have "length p < 2 ^ 31" using assms(2) Some by (simp add: prev_ok_def)
  from read_entry_prefixed [OF assms(1) this] assms(1,3) Some show ?thesis
    by (auto simp: prev_ok_def writable_def)
qed

lemma entries_round_trip:
  "write_entries allow_null racy ws prev ces = Some ws' \<Longrightarrow> ws_ok ws \<Longrightarrow> prev_ok prev \<Longrightarrow>
   (\<forall>ce \<in> set ces. \<not> ce_remove ce \<longrightarrow> writable ce) \<Longrightarrow>
   \<exists>body. ws_ok ws' \<and> ws_all ws' = ws_all ws @ body \<and>
     (\<forall>pre rest. read_entries (length (stored racy ces)) (pre @ body @ rest) (length pre) prev =
        Inr (stored racy ces, length pre + length body))"
proof (induction ces arbitrary: ws prev)
  case Nil
  then show ?case by (intro exI [of _ "[]"]) (simp add: stored_def)
next
  case (Cons ce ces)
  show ?case
  proof (cases "ce_remove ce")
    case True
    then have s: "stored racy (ce # ces) = stored racy ces" by (simp add: stored_def)
    show ?thesis unfolding s using Cons True by simp
  next
    case False
    obtain bytes prev1 ce1 where wr: "ce_write_entry (smudge racy ce) prev = (bytes, prev1, ce1)" by (metis prod_cases3)
    have ok: "writable (smudge racy ce)" using Cons.prems(4) False by simp
    note rd = read_entry_written [OF ok Cons.prems(3) wr]
    note cw = ce_write_spec [OF Cons.prems(2), of bytes]
    have "write_entries allow_null racy (ce_write ws bytes) prev1 ces = Some ws'"
      using Cons.prems(1) False wr by (simp add: Let_def split: if_split_asm)
    from Cons.IH [OF this] cw rd Cons.prems(4)
    obtain body where body: "ws_ok ws'" "ws_all ws' = ws_all (ce_write ws bytes) @ body"
      "\<And>pre rest. read_entries (length (stored racy ces)) (pre @ body @ rest) (length pre) prev1 =
        Inr (stored racy ces, length pre + length body)" by auto
    have s: "stored racy (ce # ces) = disk_form (smudge racy ce) # stored racy ces" using False by (simp add: stored_def)
    have "read_entries (length (stored racy (ce # ces))) (pre @ (bytes @ body) @ rest) (length pre) prev =
        Inr (stored racy (ce # ces), length pre + length (bytes @ body))" for pre rest
      using body(3) [of "pre @ bytes" rest] rd [of "body @ rest"] unfolding s by (simp add: add.assoc)
    then show ?thesis using body(1,2) cw by (intro exI [of _ "bytes @ body"]) simp
  qed
qed

section \<open>The whole file\<close>

lemma ws_init_ok: "length (ctx_W c) = 64 \<Longrightarrow> ws_ok \<lparr>ws_ctx = blk_SHA1_Init c, ws_buffer = [], ws_file = []\<rparr>"
  by (simp add: ws_ok_def ctx_of_init)

lemma writable_set_extended:
  assumes "length (ce_sha1 ce) = 20" and "c_string (ce_name ce)" and "ce_namelen ce < 2 ^ 31"
    and "ce_flags ce AND CE_STRIP_NAME = 0"
  shows "writable (set_extended ce)"
proof -
  let ?f = "ce_flags ce AND NOT CE_EXTENDED"
  have "?f AND CE_STRIP_NAME = (ce_flags ce AND CE_STRIP_NAME) AND NOT CE_EXTENDED"
    "(?f OR CE_EXTENDED) AND CE_STRIP_NAME = (?f AND CE_STRIP_NAME) OR (CE_EXTENDED AND CE_STRIP_NAME)"
    by (simp_all only: ac_simps bit.conj_disj_distrib bit.conj_disj_distrib2)
  then have 1: "?f AND CE_STRIP_NAME = 0" "(?f OR CE_EXTENDED) AND CE_STRIP_NAME = 0"
    using assms(4) by simp_all
  have 2: "\<not> ce_extended ?f" by (simp add: ce_extended_def and.assoc)
  have 3: "ce_extended (?f OR CE_EXTENDED)" by (simp add: ce_extended_def bit.conj_disj_distrib2 and.assoc)
  have 4: "(?f OR CE_EXTENDED) AND CE_EXTENDED_FLAGS = ?f AND CE_EXTENDED_FLAGS"
    by (simp add: bit.conj_disj_distrib2)
  show ?thesis
  proof (cases "?f AND CE_EXTENDED_FLAGS = 0")
    case True
    then show ?thesis using assms(1-3) 1 2 by (simp add: writable_def set_extended_def Let_def)
  next
    case False
    then show ?thesis using assms(1-3) 1 3 4 by (simp add: writable_def set_extended_def Let_def)
  qed
qed

lemma ce_remove_set_extended [simp]: "ce_remove (set_extended ce) = ce_remove ce"
proof -
  have "(w AND NOT 0x4000) AND 0x20000 = w AND (0x20000 AND NOT 0x4000 :: u32)"
    "((w AND NOT 0x4000) OR 0x4000) AND 0x20000 = (w AND (0x20000 AND NOT 0x4000)) OR (0x4000 AND 0x20000 :: u32)" for w
    by (simp_all only: ac_simps bit.conj_disj_distrib bit.conj_disj_distrib2)
  moreover have "(0x20000 :: u32) AND NOT 0x4000 = 0x20000" "(0x4000 :: u32) AND 0x20000 = 0" by simp_all
  ultimately have "(w AND NOT 0x4000) AND 0x20000 = w AND (0x20000 :: u32)"
    "((w AND NOT 0x4000) OR 0x4000) AND 0x20000 = w AND (0x20000 :: u32)" for w
    by (simp_all only: or.right_neutral)
  then show ?thesis by (simp add: ce_remove_def set_extended_def Let_def)
qed

lemma verify_written:
  assumes c: "length (ctx_W c) = 64" and v: "version \<in> {2, 3, 4}"
    and m: "m = put_be32 CACHE_SIGNATURE @ put_be32 version @ tl_bytes"
  shows "verify_hdr c (m @ fips_sha1 m) = None"
proof -
  have g: "get_be32 (m @ fips_sha1 m) 0 = CACHE_SIGNATURE" "get_be32 (m @ fips_sha1 m) 4 = version"
    unfolding m by (simp_all add: get_be32_skip)
  have "blk_SHA1_Final (blk_SHA1_Update (blk_SHA1_Init c) m) = fips_sha1 m"
    using final_ctx_of [OF update_ctx_of [OF ctx_of_init [OF c], of m]] by simp
  moreover have "hashcmp (fips_sha1 m) (fips_sha1 m) = 0"
    by (simp add: hashcmp_0 length_fips_sha1)
  moreover have "\<not> (sint version < 2 \<or> 4 < sint version)" using v by auto
  ultimately show ?thesis unfolding verify_hdr_def g by (simp add: length_fips_sha1)
qed

lemma write_version_range:
  "default_version \<in> {2, 3, 4} \<Longrightarrow> version \<in> {0, 2, 3, 4} \<Longrightarrow> write_version default_version version cache \<in> {2, 3, 4}"
  by (auto simp: write_version_def Let_def)

lemma index_file_written:
  assumes wr: "do_write_index allow_null racy default_version c version cache = Some bytes"
    and c: "length (ctx_W c) = 64" and c': "length (ctx_W c') = 64"
    and v: "default_version \<in> {2, 3, 4}" "version \<in> {0, 2, 3, 4}" and n: "length cache < 2 ^ 32"
    and ok: "\<forall>ce \<in> set cache. \<not> ce_remove ce \<longrightarrow> length (ce_sha1 ce) = 20 \<and> c_string (ce_name ce) \<and>
      ce_namelen ce < 2 ^ 31 \<and> ce_flags ce AND CE_STRIP_NAME = 0"
  shows "do_read_index link_ok c' bytes =
    Inr (write_version default_version version (map set_extended cache), stored racy (map set_extended cache))"
proof -
  let ?cache = "map set_extended cache"
  define ver where "ver = write_version default_version version ?cache"
  define nr where "nr = length (stored racy ?cache)"
  have ver: "ver \<in> {2, 3, 4}" unfolding ver_def by (rule write_version_range [OF v])
  have "length cache - length (filter ce_remove cache) = length (filter (\<lambda>ce. \<not> ce_remove ce) cache)"
    using sum_length_filter_compl [of ce_remove cache] by simp
  then have nr: "length cache - length (filter ce_remove cache) = nr"
    by (simp add: nr_def stored_def filter_map comp_def)
  have nr32: "unat (of_nat nr :: u32) = nr"
    using n nr by (simp add: unat_of_nat)
  define hdr where "hdr = put_be32 CACHE_SIGNATURE @ put_be32 ver @ put_be32 (of_nat nr)"
  define ws0 where "ws0 = ce_write \<lparr>ws_ctx = blk_SHA1_Init c, ws_buffer = [], ws_file = []\<rparr> hdr"
  define prev :: "string option" where "prev = (if ver = 4 then Some [] else None)"
  obtain ws where ws: "write_entries allow_null racy ws0 prev ?cache = Some ws" "bytes = fst (ce_flush ws)"
    using wr unfolding do_write_index_def Let_def ver_def [symmetric] nr hdr_def [symmetric] ws0_def [symmetric] prev_def [symmetric]
    by (auto split: option.split_asm)
  have ws0: "ws_ok ws0" "ws_all ws0 = hdr"
    using ce_write_spec [OF ws_init_ok [OF c], of hdr] by (simp_all add: ws0_def ws_all_def)
  have "prev_ok prev" by (simp add: prev_ok_def prev_def)
  moreover have "\<forall>ce \<in> set ?cache. \<not> ce_remove ce \<longrightarrow> writable ce"
    using ok writable_set_extended by auto
  ultimately obtain body where body: "ws_ok ws" "ws_all ws = hdr @ body"
    "\<And>pre rest. read_entries nr (pre @ body @ rest) (length pre) prev = Inr (stored racy ?cache, length pre + length body)"
    using entries_round_trip [OF ws(1) ws0(1)] unfolding ws0(2) nr_def by blast
  define m where "m = hdr @ body"
  have bytes: "bytes = m @ fips_sha1 m" using ce_flush_spec [OF body(1)] ws(2) by (simp add: body(2) m_def)
  have hl: "length hdr = 12" by (simp add: hdr_def)
  have len: "\<not> length bytes < 12 + 20" by (simp add: bytes m_def hl length_fips_sha1)
  have vh: "verify_hdr c' bytes = None"
    unfolding bytes by (rule verify_written [OF c' ver, of _ "put_be32 (of_nat nr) @ body"]) (simp add: m_def hdr_def)
  have g: "get_be32 bytes 4 = ver" "get_be32 bytes 8 = of_nat nr"
    unfolding bytes m_def hdr_def by (simp_all add: get_be32_skip)
  have re: "read_entries nr bytes 12 prev = Inr (stored racy ?cache, length m)"
    using body(3) [of hdr "fips_sha1 m"] by (simp add: bytes m_def hl)
  have ext: "read_extensions link_ok bytes (length m) = None"
    by (subst read_extensions.simps) (simp add: bytes length_fips_sha1 m_def hl)
  show ?thesis
    unfolding do_read_index_def Let_def if_not_P [OF len] vh option.case g nr32 prev_def [symmetric] re
    by (simp add: ext ver_def)
qed

lemma stage_bits: "(0x3000 :: u32) AND ((w AND NOT 0x4000) AND 0x6000F000) = 0x3000 AND w"
  "(0x3000 :: u32) AND (((w AND NOT 0x4000) OR 0x4000) AND 0x6000F000) = 0x3000 AND w"
proof -
  have "(0x3000 :: u32) AND ((w AND NOT 0x4000) AND 0x6000F000) = (0x3000 AND NOT 0x4000 AND 0x6000F000) AND w"
    "(0x3000 :: u32) AND (((w AND NOT 0x4000) OR 0x4000) AND 0x6000F000) =
      ((0x3000 AND NOT 0x4000 AND 0x6000F000) AND w) OR (0x3000 AND 0x4000 AND 0x6000F000)"
    by (simp_all only: ac_simps bit.conj_disj_distrib bit.conj_disj_distrib2)
  moreover have "(0x3000 :: u32) AND NOT 0x4000 AND 0x6000F000 = 0x3000" "(0x3000 :: u32) AND 0x4000 AND 0x6000F000 = 0"
    by simp_all
  ultimately show "(0x3000 :: u32) AND ((w AND NOT 0x4000) AND 0x6000F000) = 0x3000 AND w"
    "(0x3000 :: u32) AND (((w AND NOT 0x4000) OR 0x4000) AND 0x6000F000) = 0x3000 AND w"
    by (simp_all only: or.right_neutral)
qed

lemma stored_stage [simp]: "ce_stage (disk_form (smudge racy (set_extended ce))) = ce_stage ce"
proof -
  have s: "ce_flags (disk_form (smudge racy (set_extended ce))) = ce_flags (set_extended ce) AND 0x6000F000"
    by (simp add: disk_form_def smudge_def)
  have e: "ce_flags (set_extended ce) = ce_flags ce AND NOT 0x4000 \<or>
      ce_flags (set_extended ce) = (ce_flags ce AND NOT 0x4000) OR 0x4000"
    unfolding set_extended_def Let_def by (cases "ce_flags ce AND NOT 0x4000 AND CE_EXTENDED_FLAGS = 0") (simp_all del: bit.conj_disj_distrib)
  then have "(0x3000 :: u32) AND ce_flags (disk_form (smudge racy (set_extended ce))) = 0x3000 AND ce_flags ce"
    unfolding s using stage_bits by (elim disjE) (simp_all only:)
  then show ?thesis by (simp only: ce_stage_def)
qed

lemma stored_name [simp]: "ce_name (disk_form (smudge racy (set_extended ce))) = ce_name ce"
  by (simp add: disk_form_def smudge_def set_extended_def Let_def)

lemma check_ce_order_sorted:
  "sorted_cache ces \<Longrightarrow> \<forall>p \<in> set ces. \<forall>q \<in> set ces. ce_name p = ce_name q \<and> ce_stage p = 0 \<longrightarrow> ce_stage q = 0 \<Longrightarrow>
   check_ce_order_from ces = None"
proof (induction ces rule: check_ce_order_from.induct)
  case (1 ce next_ce ces)
  have l: "key_cmp (ce_key ce) (ce_key next_ce) < 0" and s: "sorted_cache (next_ce # ces)"
    using 1(2) by (simp_all add: sorted_cache_Cons ce_less_def)
  have tl: "\<forall>p \<in> set (next_ce # ces). \<forall>q \<in> set (next_ce # ces). ce_name p = ce_name q \<and> ce_stage p = 0 \<longrightarrow> ce_stage q = 0"
    using 1(3) by (meson list.set_intros(2))
  have tw: "ce_stage next_ce = 0" if "ce_name ce = ce_name next_ce" "ce_stage ce = 0"
    using 1(3) that by simp
  consider "strcmp (ce_name ce) (ce_name next_ce) < 0"
    | "strcmp (ce_name ce) (ce_name next_ce) = 0" "ce_name ce = ce_name next_ce" "ce_stage ce < ce_stage next_ce"
    using l by (auto simp: key_cmp_def ce_key_def Let_def split: if_split_asm)
  then show ?case
  proof cases
    case a: 1
    then have "ce_name ce \<noteq> ce_name next_ce" by (metis less_irrefl strcmp.cmp_refl)
    then show ?thesis using 1(1) [OF refl _ _ _ s tl] a by simp
  next
    case a: 2
    then have "ce_stage ce \<noteq> 0" using tw by force
    then show ?thesis using 1(1) [OF refl _ _ _ s tl] a by simp
  qed
qed simp_all

lemma sorted_cache_same_keys:
  "map ce_key xs = map ce_key ys \<Longrightarrow> sorted_cache xs = sorted_cache ys"
proof -
  have "sorted_cache zs \<longleftrightarrow> sorted_wrt (\<lambda>k l. key_cmp k l < 0) (map ce_key zs)" for zs
    by (simp add: sorted_cache_def sorted_wrt_map ce_less_def [abs_def])
  then show "map ce_key xs = map ce_key ys \<Longrightarrow> sorted_cache xs = sorted_cache ys" by simp
qed

text \<open>
  C3. The file \<^verbatim>\<open>do_write_index\<close> writes is read back by \<^verbatim>\<open>do_read_index\<close>, in versions 2, 3 and 4: the
  checksum and the header pass, and the entries that are not marked for removal come back in order with all fields; of the flags
  the stage and the flags that belong on disk remain, and a racily clean entry has lost its size. The index so read passes
  \<^verbatim>\<open>check_ce_order\<close> when the one written was sorted and had no unmerged entries beside merged ones of the same name.
\<close>

theorem index_file_round_trip:
  assumes "do_write_index allow_null racy default_version c version cache = Some bytes"
    and "length (ctx_W c) = 64" and "length (ctx_W c') = 64"
    and "default_version \<in> {2, 3, 4}" and "version \<in> {0, 2, 3, 4}" and "length cache < 2 ^ 32"
    and "\<forall>ce \<in> set cache. \<not> ce_remove ce \<longrightarrow> length (ce_sha1 ce) = 20 \<and> c_string (ce_name ce) \<and>
      ce_namelen ce < 2 ^ 31 \<and> ce_flags ce AND CE_STRIP_NAME = 0"
  shows "\<exists>ces. do_read_index link_ok c' bytes = Inr (write_version default_version version (map set_extended cache), ces) \<and>
    ces = map (\<lambda>ce. (smudge racy (set_extended ce))\<lparr>ce_flags := ce_flags (set_extended ce) AND 0x6000F000\<rparr>)
            (filter (\<lambda>ce. \<not> ce_remove ce) cache) \<and>
    map ce_key ces = map ce_key (filter (\<lambda>ce. \<not> ce_remove ce) cache) \<and>
    (sorted_cache cache \<and>
       (\<forall>p \<in> set cache. \<forall>q \<in> set cache. ce_name p = ce_name q \<and> ce_stage p = 0 \<longrightarrow> ce_stage q = 0) \<longrightarrow>
     check_ce_order \<lparr>is_cache = ces, cache_changed = 0\<rparr> = None)"
proof -
  let ?ces = "stored racy (map set_extended cache)"
  let ?live = "filter (\<lambda>ce. \<not> ce_remove ce) cache"
  have f: "?ces = map (\<lambda>ce. disk_form (smudge racy (set_extended ce))) ?live"
    by (simp add: stored_def filter_map comp_def)
  then have e: "?ces = map (\<lambda>ce. (smudge racy (set_extended ce))\<lparr>ce_flags := ce_flags (set_extended ce) AND 0x6000F000\<rparr>) ?live"
    by (simp add: disk_form_def smudge_def)
  have k: "map ce_key ?ces = map ce_key ?live" unfolding f by (simp add: ce_key_def)
  have "check_ce_order \<lparr>is_cache = ?ces, cache_changed = 0\<rparr> = None"
    if "sorted_cache cache" and t: "\<forall>p \<in> set cache. \<forall>q \<in> set cache. ce_name p = ce_name q \<and> ce_stage p = 0 \<longrightarrow> ce_stage q = 0"
  proof -
    have "sorted_cache ?ces" using sorted_cache_same_keys [OF k] sorted_cache_filter [OF that(1)] by simp
    moreover have "\<forall>p \<in> set ?ces. \<forall>q \<in> set ?ces. ce_name p = ce_name q \<and> ce_stage p = 0 \<longrightarrow> ce_stage q = 0"
    proof (intro ballI)
      fix p q assume "p \<in> set ?ces" "q \<in> set ?ces"
      then obtain p' q' where o: "p' \<in> set cache" "q' \<in> set cache" "p = disk_form (smudge racy (set_extended p'))"
        "q = disk_form (smudge racy (set_extended q'))"
        unfolding f by auto
      show "ce_name p = ce_name q \<and> ce_stage p = 0 \<longrightarrow> ce_stage q = 0"
        unfolding o(3,4) stored_name stored_stage using t o(1,2) by blast
    qed
    ultimately have "check_ce_order_from ?ces = None" by (rule check_ce_order_sorted)
    then show ?thesis by (simp only: check_ce_order_def index_state.simps)
  qed
  then show ?thesis using index_file_written [OF assms] e k by blast
qed

lemma index_file_round_trip_witness:
  "\<exists>bytes ces. do_write_index True (\<lambda>ce. False) 2 \<lparr>ctx_size = 0, ctx_H = [], ctx_W = replicate 64 0\<rparr> 4
       [blob_entry ''a/x'', blob_entry ''a/y''] = Some bytes \<and>
     do_read_index (\<lambda>d. True) \<lparr>ctx_size = 0, ctx_H = [], ctx_W = replicate 64 0\<rparr> bytes = Inr (4, ces) \<and>
     map ce_name ces = [''a/x'', ''a/y'']"
proof -
  let ?c = "\<lparr>ctx_size = 0, ctx_H = [], ctx_W = replicate 64 0\<rparr> :: blk_SHA_CTX"
  let ?cache = "[blob_entry ''a/x'', blob_entry ''a/y'']"
  have "do_write_index True (\<lambda>ce. False) 2 ?c 4 ?cache \<noteq> None"
    by (simp add: do_write_index_def Let_def split: prod.split)
  then obtain bytes where wr: "do_write_index True (\<lambda>ce. False) 2 ?c 4 ?cache = Some bytes" by blast
  have cond: "\<forall>ce \<in> set ?cache. \<not> ce_remove ce \<longrightarrow> length (ce_sha1 ce) = 20 \<and> c_string (ce_name ce) \<and>
      ce_namelen ce < 2 ^ 31 \<and> ce_flags ce AND CE_STRIP_NAME = 0"
    by (simp add: blob_entry_def)
  have "write_version 2 4 (map set_extended ?cache) = 4" by (simp add: write_version_def)
  with index_file_round_trip [OF wr _ _ _ _ _ cond, of ?c "\<lambda>d. True"]
  obtain ces where r: "do_read_index (\<lambda>d. True) ?c bytes = Inr (4, ces)" "map ce_key ces = map ce_key ?cache"
    by auto
  have "map ce_name ces = map fst (map ce_key ces)" by (simp add: ce_key_def)
  then have "map ce_name ces = [''a/x'', ''a/y'']" unfolding r(2) by simp
  then show ?thesis using wr r(1) by (intro exI [of _ bytes] exI [of _ ces] conjI)
qed

end
