(* ===== verification/Spec2Isabelle.thy ===== *)
theory Spec2Isabelle
  imports Sha1 Decorate Object_Array Line_Log Varint Config_Number Config_Set String_List Prio_Queue Delta_Index Quote Url Base85 Pkt_Line Refname Index_File
begin

text \<open>
  A verification library for the C sources of Git that the repository carries under
  \<^verbatim>\<open>src/git\<close>. The Rails application around them has no C code and is not covered.

  \<^bold>\<open>The parts of the program.\<close> Git names objects by the SHA-1 of their contents, keeps them in
  memory in a table by name, stores them in packs as deltas against each other, and keeps the state of
  the working tree in the index, a sorted array of paths that is written to a file. References give
  objects names; configuration files hold settings; commands exchange objects over packet lines. The
  library models the functions below this level that compute: the data structures, the encodings, the
  parsers and printers, the checks of names and paths, and the index.

  \<^bold>\<open>The theories.\<close> Pointers into a string are the rest of the string, pointers to structures are
  indices into a list (the heap or the array of the code), buffers that only grow are lists; machine
  integers are words where they can wrap around. A theory has the functions of its file under the
  names they have in C, then their lemmas.

  \<^item> \<open>Git_Prelude\<close>: machine types, C strings (\<open>strcmp\<close>, \<open>memcmp\<close>), lemma collections.
  \<^item> \<open>Compare\<close>: the locales \<open>cmp_order\<close> and \<open>cmp_strict\<close>, what the containers assume of a comparison
    callback; interpreted on \<open>strcmp\<close> and on the comparison functions of the code.
    \<open>Key_Table\<close>: the locale of a table with look-up and insertion, interpreted on sorted string
    lists and decorations. \<open>Open_Address\<close>: the locale of open addressing with linear probing,
    interpreted on the object table and on decorations.
  \<^item> \<open>Varint\<close> (\<^verbatim>\<open>varint.c\<close>), \<open>Hex\<close> (\<^verbatim>\<open>hex.c\<close>), \<open>Base85\<close> (\<^verbatim>\<open>base85.c\<close>), \<open>Url\<close> (\<^verbatim>\<open>url.c\<close>,
    \<^verbatim>\<open>strbuf_add_urlencode\<close>), \<open>Quote\<close> (\<^verbatim>\<open>quote.c\<close>), \<open>Pkt_Line\<close> (\<^verbatim>\<open>pkt-line.c\<close>, \<^verbatim>\<open>sideband.c\<close>):
    encodings with their round trips, and what the decoders do with input that no encoder writes.
  \<^item> \<open>Ctype\<close> (\<^verbatim>\<open>ctype.c\<close>, \<^verbatim>\<open>git-compat-util.h\<close>): the table of character classes and its tests.
    \<open>Utf8\<close> (\<^verbatim>\<open>utf8.c\<close>): the reader of one character against RFC 3629.
  \<^item> \<open>Path\<close> (\<^verbatim>\<open>path.c\<close>), \<open>Refname\<close> (\<^verbatim>\<open>refs.c\<close>), \<open>Verify_Path\<close> (\<^verbatim>\<open>verify_path\<close> in \<^verbatim>\<open>read-cache.c\<close>,
    \<^verbatim>\<open>is_hfs_dotgit\<close>, \<^verbatim>\<open>is_ntfs_dotgit\<close>): normalization and checks of names against descriptions by
    components.
  \<^item> \<open>Prio_Queue\<close> (\<^verbatim>\<open>prio-queue.c\<close>), \<open>Qsort\<close> (\<^verbatim>\<open>compat/qsort.c\<close>), \<open>String_List\<close> (\<^verbatim>\<open>string-list.c\<close>),
    \<open>Hashmap\<close> (\<^verbatim>\<open>hashmap.c\<close>, interning of strings), \<open>Decorate\<close> (\<^verbatim>\<open>decorate.c\<close>), \<open>Object_Array\<close>
    (the object arrays of \<^verbatim>\<open>object.c\<close>): containers, each refined to a list, a map or a multiset.
  \<^item> \<open>Sha1\<close> (\<^verbatim>\<open>block-sha1/sha1.c\<close>): streaming SHA-1 against FIPS 180. \<open>Object_Table\<close> (\<^verbatim>\<open>object.c\<close>,
    \<^verbatim>\<open>alloc.c\<close> and the look-ups of \<^verbatim>\<open>blob.c\<close>, \<^verbatim>\<open>tree.c\<close>, \<^verbatim>\<open>commit.c\<close>, \<^verbatim>\<open>tag.c\<close>): one object per name,
    with one type.
  \<^item> \<open>Delta\<close>, \<open>Delta_Correct\<close>, \<open>Delta_Index\<close> (\<^verbatim>\<open>diff-delta.c\<close>, \<^verbatim>\<open>patch-delta.c\<close>, \<^verbatim>\<open>delta.h\<close>): the
    definitions, the instructions that a delta encodes, and the construction of the block index.
  \<^item> \<open>Config_Number\<close>, \<open>Config_Parse\<close>, \<open>Config_Set\<close> (\<^verbatim>\<open>config.c\<close>): numbers with units, the parser
    and the writer of files, the cache of values and the parameters of the command line. The cache is
    built on \<open>Hashmap\<close>, the parameters travel through \<open>Quote\<close>.
  \<^item> \<open>Line_Log\<close> (\<^verbatim>\<open>line-log.c\<close>): sets of line ranges and their way across a diff.
  \<^item> \<open>Index\<close>, \<open>Index_Add\<close>, \<open>Index_File\<close> (\<^verbatim>\<open>read-cache.c\<close>): the array of index entries and its
    operations; the specification of adding and removing entries on sets of names, the invariant of
    the reachable indexes; the writer and the reader of the file, versions 2 to 4. They use
    \<open>Verify_Path\<close> for the paths, \<open>Varint\<close> for the prefixes and \<open>Sha1\<close> for the checksum.

  \<^bold>\<open>What the lemmas show.\<close> Each component has an invariant that all its operations keep, a reading of
  its state as a mathematical object (\<open>prio_queue_refines\<close>: a list in insertion order;
  \<open>sorted_list_is_map\<close>, \<open>decorations_are_map\<close>, \<open>lookup_unknown_once\<close>: a map;
  \<open>range_sets_as_line_sets\<close>: a set of lines; \<open>add_index_entry_spec\<close>: a set of names), and lemmas
  that say what every operation does to it, on its error branches too. Encoders and decoders have round
  trips, optimised routines are equal to a plain description (\<open>sha1_streaming\<close>,
  \<open>normalize_path_spec\<close>, \<open>check_refname_spec\<close>, \<open>verify_path_spec\<close>), loops that are not
  structural are shown to end.
\<close>

text \<open>
  \<^bold>\<open>Bounds and fuel.\<close> Where the width of an integer decides what happens, it is kept or its overflow is a
  result: the size of the output buffer of \<open>create_delta\<close> (\<open>Out_Overrun\<close>), the counters of packets (\<open>send_sideband\<close>), the
  growth of hash maps, the length of a piece of a split string (\<open>strbuf_split_buf\<close>), the capacity of a priority queue (\<open>alloc_grow\<close>);
  the theorems about them have the bound as a hypothesis: 512 MiB for the target of a delta without a limit, 4 GiB for the data of a
  side band, \<open>858993459\<close> entries of a hash map, 715827867 elements of a queue, names of the index below \<open>2 ^ 31\<close> bytes. Elsewhere an
  \<^verbatim>\<open>int\<close> that counts the elements of an array in memory is a number, without a bound in the theorems:
  the indices of \<^verbatim>\<open>prio-queue.c\<close> and \<^verbatim>\<open>string-list.c\<close> (the code agrees below \<open>2 ^ 30\<close> elements), the sizes of the object table and of
  decorations (below \<open>2 ^ 29\<close> objects), and the number of index entries (below \<open>2 ^ 31\<close>). Loops that the C code does not bound are \<open>partial_function\<close>s where \<open>None\<close>
  is an endless run (\<open>probe\<close>, the growth of the tables, \<open>range_set_difference\<close>), and the theorems exclude that value;
  \<open>range_set_difference_loops\<close> has an input on which it is the result. Three loops take fuel: the main
  loop of \<open>create_delta\<close>, which consumes a byte of the target in every round and gets one more than
  there are bytes; the iteration over a hash map, which gets more than there are entries; and the
  loop of a client that empties a queue, which gets more than there are elements. Enough fuel is
  shown to give a result in each case.

  \<^bold>\<open>Where the code misses its aim.\<close> Lemmas with concrete inputs show the places: reads behind the end of a
  buffer (\<open>patch_delta_overreads\<close>, \<open>url_decode_mem_overrun\<close>, \<open>type_read_past_end\<close>, the results
  \<open>Outside\<close> of \<open>create_from_disk\<close>), corrupt input accepted (\<open>patch_delta_ignores_bogus_tail\<close>,
  \<open>sq_dequote_drops_escape\<close>, \<open>check_ce_order_accepts_duplicates\<close>), values that change on their way
  (\<open>written_CR_lost\<close>, \<open>blob_byte_255_is_eof\<close>, \<open>urlencode_sign_extends\<close>,
  \<open>parameter_lowers_subsection\<close>), overflow (\<open>git_parse_ulong_wraps\<close>, \<open>git_parse_int_min\<close>, \<open>initial_loop_hangs\<close>,
  \<open>output_buffer_cut\<close>, \<open>send_sideband_loops\<close>), and
  missed cases (\<open>intern_prefix_collision\<close>, \<open>map_across_diff_stops\<close>, \<open>has_file_name_stops_early\<close>,
  \<open>replacing_removed_entry_skips_check\<close>, \<open>directory_is_other\<close>, \<open>parse_key_without_section\<close>,
  \<open>dotgit_before_malformed\<close>). The theorems exclude these inputs by a hypothesis that names them.

  \<^bold>\<open>Not modelled.\<close> Everything whose meaning is in files, processes, sockets, the terminal or a
  compression library: the loose and packed object store (\<^verbatim>\<open>sha1_file.c\<close>), the reference store and its
  transactions (\<^verbatim>\<open>refs.c\<close>), the transports (\<^verbatim>\<open>connect.c\<close>, \<^verbatim>\<open>http.c\<close> and others), the working tree
  (\<^verbatim>\<open>dir.c\<close>, \<^verbatim>\<open>entry.c\<close>), locking and memory management (\<^verbatim>\<open>lockfile.c\<close>, \<^verbatim>\<open>wrapper.c\<close>). Not
  reached, though they compute: the walks over history (\<^verbatim>\<open>revision.c\<close>), the merging of trees
  (\<^verbatim>\<open>unpack-trees.c\<close>, \<^verbatim>\<open>merge-recursive.c\<close>), the comparison of files (\<^verbatim>\<open>diff.c\<close>, \<^verbatim>\<open>xdiff\<close>), the
  bitmaps (\<^verbatim>\<open>ewah\<close>), dates and the syntax of revisions, and the commands under \<^verbatim>\<open>builtin\<close>. Vendored code
  (\<^verbatim>\<open>compat/regex\<close>, \<^verbatim>\<open>compat/nedmalloc\<close>) and scripts are outside the library. Within the modelled
  files: allocation does not fail and freeing has no effect; tracing, advice and messages are left
  out; the extensions of the index file are opaque; the stat data of entries is data.
\<close>

end
